(* ===== verification/Prelude.thy ===== *)
theory Prelude
  imports Main "HOL-Library.Word"
begin

text \<open>
  Shared vocabulary of the development: the widths of the C++ integers, the access to
  bit-fields packed into one machine word (the unions of \<open>address.h\<close>, \<open>hash_bucket.h\<close>,
  \<open>record.h\<close> and others), compare-and-swap on an atomic word, the interface of a
  transition system with an inductive invariant, and list and map facts used by several
  components.
\<close>

unbundle bit_operations_syntax

type_synonym u8 = "8 word"
type_synonym u16 = "16 word"
type_synonym u32 = "32 word"
type_synonym u64 = "64 word"

named_theorems packed \<open>layout equations of the packed words\<close>
named_theorems packed_simps \<open>reading a field of a packed word after writing one\<close>


section \<open>Bit-fields of a packed word\<close>

text \<open>
  A C++ bit-field of \<open>w\<close> bits that starts at bit \<open>lo\<close>: reading it, and the word after
  a write to it (the written value is truncated to \<open>w\<close> bits, as the assignment does).
\<close>

definition bf_get :: "nat \<Rightarrow> nat \<Rightarrow> 'a::len word \<Rightarrow> 'a word" where
  "bf_get lo w x = take_bit w (drop_bit lo x)"

definition bf_put :: "nat \<Rightarrow> nat \<Rightarrow> 'a::len word \<Rightarrow> 'a word \<Rightarrow> 'a word" where
  "bf_put lo w v x = (x AND NOT (push_bit lo (mask w))) OR push_bit lo (take_bit w v)"

lemma bit_bf_get: "bit (bf_get lo w x) n \<longleftrightarrow> n < w \<and> bit x (lo + n)"
  by (simp add: bf_get_def bit_take_bit_iff bit_drop_bit_eq)

lemma bit_bf_put:
  fixes x :: "'a::len word"
  assumes "n < LENGTH('a)"
  shows "bit (bf_put lo w v x) n =
    (if lo \<le> n \<and> n < lo + w then bit v (n - lo) else bit x n)"
  using assms
  by (auto simp: bf_put_def bit_or_iff bit_and_iff bit_not_iff bit_push_bit_iff
      bit_mask_iff bit_take_bit_iff)

lemma bf_get_put_same [packed_simps]:
  fixes x :: "'a::len word"
  assumes "lo + w \<le> LENGTH('a)"
  shows "bf_get lo w (bf_put lo w v x) = take_bit w v"
proof (rule bit_word_eqI)
  fix n assume "n < LENGTH('a)"
  show "bit (bf_get lo w (bf_put lo w v x)) n = bit (take_bit w v) n"
  proof (cases "n < w")
    case True
    then have "lo + n < LENGTH('a)" using assms by simp
    then show ?thesis using True by (simp add: bit_bf_get bit_bf_put bit_take_bit_iff)
  qed (simp add: bit_bf_get bit_take_bit_iff)
qed

lemma bf_get_put_other [packed_simps]:
  fixes x :: "'a::len word"
  assumes "lo + w \<le> lo' \<or> lo' + w' \<le> lo"
  shows "bf_get lo w (bf_put lo' w' v x) = bf_get lo w x"
proof (rule bit_word_eqI)
  fix n assume "n < LENGTH('a)"
  show "bit (bf_get lo w (bf_put lo' w' v x)) n = bit (bf_get lo w x) n"
  proof (cases "n < w \<and> lo + n < LENGTH('a)")
    case True
    then show ?thesis using assms by (auto simp: bit_bf_get bit_bf_put)
  next
    case False
    then show ?thesis by (auto simp: bit_bf_get dest: bit_imp_le_length)
  qed
qed

lemma bf_put_put_same [packed_simps]:
  "bf_put lo w v (bf_put lo w u x) = bf_put lo w v x"
  by (rule bit_word_eqI) (simp add: bit_bf_put)

lemma bf_get_take_bit [packed_simps]: "take_bit w (bf_get lo w x) = bf_get lo w x"
  by (simp add: bf_get_def)

lemma bf_put_get_id [packed_simps]: "bf_put lo w (bf_get lo w x) x = x"
  by (rule bit_word_eqI) (auto simp: bit_bf_put bit_bf_get)

lemma unat_bf_get_less:
  "w \<le> LENGTH('a) \<Longrightarrow> unat (bf_get lo w (x :: 'a::len word)) < 2 ^ w"
  by (simp add: bf_get_def unsigned_take_bit_eq)

lemma unat_bf_get: "unat (bf_get lo w (x :: 'a::len word)) = unat x div 2 ^ lo mod 2 ^ w"
proof -
  have "unat (bf_get lo w x) = take_bit w (drop_bit lo (unat x))"
    by (simp add: bf_get_def unsigned_take_bit_eq unsigned_drop_bit_eq take_bit_nat_eq_self)
  then show ?thesis by (simp add: take_bit_eq_mod drop_bit_eq_div)
qed

lemma bf_get_zero [simp]: "bf_get lo w 0 = 0"
  by (simp add: bf_get_def)

lemma take_bit_of_small:
  "unat (x :: 'a::len word) < 2 ^ w \<Longrightarrow> take_bit w x = x"
  by (simp add: word_unat_eq_iff unsigned_take_bit_eq take_bit_nat_eq_self)

lemma and_not_mask_eq: "x AND NOT (mask k) = push_bit k (drop_bit k (x :: 'a::len word))"
  by (rule bit_word_eqI)
    (auto simp: bit_and_iff bit_not_iff bit_mask_iff bit_push_bit_iff bit_drop_bit_eq)

lemma unat_and_not_mask:
  "unat ((x :: 'a::len word) AND NOT (mask k)) = unat x div 2 ^ k * 2 ^ k"
proof -
  have "x AND NOT (mask k) = x - take_bit k x"
    using bits_ident [of k x] by (simp add: and_not_mask_eq algebra_simps)
  moreover have "unat (take_bit k x) \<le> unat x"
    by (simp add: unsigned_take_bit_eq take_bit_nat_less_eq_self)
  then have "unat (x - take_bit k x) = unat x - unat (take_bit k x)"
    by (simp add: unat_sub word_le_nat_alt)
  moreover have "unat (take_bit k x) = unat x mod 2 ^ k"
    by (simp add: unsigned_take_bit_eq flip: take_bit_eq_mod)
  ultimately show ?thesis by (simp add: minus_mod_eq_div_mult)
qed

lemma unat_exp:
  assumes "k < LENGTH('a::len)"
  shows "unat ((2 :: 'a word) ^ k) = 2 ^ k"
proof -
  have "(2::nat) ^ k < 2 ^ LENGTH('a)" using assms by (rule power_strict_increasing) simp
  then show ?thesis using unat_of_nat [where 'a = 'a, of "2 ^ k"] by simp
qed

lemma unat_u64_less: "unat (x :: u64) < 2 ^ 64"
  using unsigned_less [where 'a = nat, of x] by simp

lemma unat_u32_less: "unat (x :: u32) < 2 ^ 32"
  using unsigned_less [where 'a = nat, of x] by simp

lemma unat_plus_one: "(i :: 'a::len word) < e \<Longrightarrow> unat (i + 1) = Suc (unat i)"
proof -
  assume "i < e"
  then have "unat i < unat e" by (simp add: word_less_nat_alt)
  moreover have "unat e < 2 ^ LENGTH('a)" by (rule unsigned_less)
  ultimately have "Suc (unat i) < 2 ^ LENGTH('a)" by linarith
  then show ?thesis by (simp add: unat_word_ariths)
qed

lemma unat_of_nat_small: "n < 2 ^ LENGTH('a) \<Longrightarrow> unat (of_nat n :: 'a::len word) = n"
  by (simp add: unat_of_nat)

lemma unat_minus_of_nat:
  fixes x :: "'a::len word"
  assumes "n \<le> unat x"
  shows "unat (x - of_nat n) = unat x - n"
proof -
  have "n < 2 ^ LENGTH('a)" using assms unsigned_less [where 'a = nat, of x] by linarith
  then have n: "unat (of_nat n :: 'a word) = n" by (rule unat_of_nat_small)
  then have "(of_nat n :: 'a word) \<le> x" using assms by (simp add: word_le_nat_alt)
  then show ?thesis by (simp add: unat_sub n)
qed

lemma bit_unat_iff: "bit (unat (x :: 'a::len word)) n \<longleftrightarrow> bit x n"
  by (auto simp: bit_unsigned_iff dest: bit_imp_le_length)

text \<open>Widening conversions and the narrowing ones that undo them.\<close>

lemma ucast_ucast_32_64 [simp]: "(ucast (ucast (x :: u32) :: u64) :: u32) = x"
  by (rule bit_word_eqI) (auto simp: bit_ucast_iff)

lemma unat_ucast_32_64 [simp]: "unat (ucast (x :: u32) :: u64) = unat x"
proof -
  have "unat x < 2 ^ 64" using unat_u32_less [of x] by simp
  then show ?thesis by (simp add: unsigned_ucast_eq take_bit_nat_eq_self)
qed

lemma unat_ucast_64_32: "unat (x :: u64) < 2 ^ 32 \<Longrightarrow> unat (ucast x :: u32) = unat x"
  by (simp add: unsigned_ucast_eq take_bit_nat_eq_self)

lemma unat_ucast_64_16: "unat (x :: u64) < 2 ^ 16 \<Longrightarrow> unat (ucast x :: u16) = unat x"
  by (simp add: unsigned_ucast_eq take_bit_nat_eq_self)

lemma unat_ucast_16_64 [simp]: "unat (ucast (x :: u16) :: u64) = unat x"
proof -
  have "unat x < 2 ^ 16" using unsigned_less [where 'a = nat, of x] by simp
  then show ?thesis by (simp add: unsigned_ucast_eq take_bit_nat_eq_self)
qed

lemma ucast_ucast_16_64 [simp]: "(ucast (ucast (x :: u16) :: u64) :: u16) = x"
  by (rule bit_word_eqI) (auto simp: bit_ucast_iff)

lemma take_bit_ucast_32:
  "unat (x :: u32) < 2 ^ w \<Longrightarrow> take_bit w (ucast x :: u64) = ucast x"
  by (rule take_bit_of_small) simp

text \<open>A number is the sum of its bit ranges, and such a sum determines them.\<close>

lemma nat_split_fields:
  fixes n :: nat
  shows "n = n mod 2 ^ j + 2 ^ j * (n div 2 ^ j mod 2 ^ k) + 2 ^ (j + k) * (n div 2 ^ (j + k))"
proof -
  have "n div 2 ^ (j + k) = n div 2 ^ j div 2 ^ k"
    by (simp add: power_add div_mult2_eq)
  then have "2 ^ j * (n div 2 ^ j) =
      2 ^ j * (n div 2 ^ j mod 2 ^ k) + 2 ^ (j + k) * (n div 2 ^ (j + k))"
    by (metis add_mult_distrib2 mod_mult_div_eq mult.assoc power_add)
  then show ?thesis using mod_mult_div_eq [of n "2 ^ j"] by linarith
qed

lemma nat_join_fields:
  fixes x y z :: nat
  assumes "x < 2 ^ j" "y < 2 ^ k"
  shows "(x + 2 ^ j * y + 2 ^ (j + k) * z) mod 2 ^ j = x"
    and "(x + 2 ^ j * y + 2 ^ (j + k) * z) div 2 ^ j = y + 2 ^ k * z"
    and "(x + 2 ^ j * y + 2 ^ (j + k) * z) div 2 ^ j mod 2 ^ k = y"
    and "(x + 2 ^ j * y + 2 ^ (j + k) * z) div 2 ^ (j + k) = z"
proof -
  have eq: "x + 2 ^ j * y + 2 ^ (j + k) * z = x + 2 ^ j * (y + 2 ^ k * z)"
    by (simp add: power_add algebra_simps)
  show "(x + 2 ^ j * y + 2 ^ (j + k) * z) mod 2 ^ j = x"
    unfolding eq using assms(1) by simp
  show d: "(x + 2 ^ j * y + 2 ^ (j + k) * z) div 2 ^ j = y + 2 ^ k * z"
    unfolding eq using assms(1) by simp
  then show "(x + 2 ^ j * y + 2 ^ (j + k) * z) div 2 ^ j mod 2 ^ k = y"
    using assms(2) by simp
  show "(x + 2 ^ j * y + 2 ^ (j + k) * z) div 2 ^ (j + k) = z"
    using assms(2) by (simp only: power_add [of 2 j k] div_mult2_eq d [unfolded power_add]) simp
qed


section \<open>Atomic cells\<close>

text \<open>
  \<open>std::atomic<T>::compare_exchange_strong(expected, desired)\<close>: the outcome, the value
  left in \<open>expected\<close> and the value left in the cell.
\<close>

definition compare_exchange :: "'v \<Rightarrow> 'v \<Rightarrow> 'v \<Rightarrow> bool \<times> 'v \<times> 'v" where
  "compare_exchange cell expected desired =
     (if cell = expected then (True, expected, desired) else (False, cell, cell))"

lemma compare_exchange_cases:
  obtains (swap) "cell = expected"
      "compare_exchange cell expected desired = (True, expected, desired)"
    | (keep) "cell \<noteq> expected"
      "compare_exchange cell expected desired = (False, cell, cell)"
  by (cases "cell = expected") (auto simp: compare_exchange_def)


section \<open>Transition systems\<close>

text \<open>
  The interface every step relation of the development offers: its initial states, its
  steps and a state predicate that holds initially and that every step keeps. The
  reachable states are those connected to an initial one by the reflexive transitive
  closure of the step relation.
\<close>

locale transition_system =
  fixes initial :: "'s \<Rightarrow> bool"
    and step :: "'s \<Rightarrow> 's \<Rightarrow> bool"
    and invar :: "'s \<Rightarrow> bool"
  assumes invar_initial: "initial s \<Longrightarrow> invar s"
    and invar_step: "invar s \<Longrightarrow> step s t \<Longrightarrow> invar t"
begin

lemma invar_steps: "step\<^sup>*\<^sup>* s t \<Longrightarrow> invar s \<Longrightarrow> invar t"
  by (induction rule: rtranclp_induct) (auto intro: invar_step)

lemma invar_reachable: "initial s \<Longrightarrow> step\<^sup>*\<^sup>* s t \<Longrightarrow> invar t"
  by (blast intro: invar_initial invar_steps)

lemma reachable_implies:
  assumes "\<And>s. invar s \<Longrightarrow> P s"
  shows "initial s \<Longrightarrow> step\<^sup>*\<^sup>* s t \<Longrightarrow> P t"
  using assms invar_reachable by blast

end


section \<open>Lists\<close>

lemma filter_list_update_length:
  "i < length xs \<Longrightarrow>
   length (filter P (xs[i := v])) + (if P (xs ! i) then 1 else 0) =
   length (filter P xs) + (if P v then 1 else 0)"
proof (induction xs arbitrary: i)
  case (Cons x xs)
  then show ?case by (cases i) auto
qed simp

lemma nth_list_update_if:
  "xs[i := v] ! j = (if i = j \<and> j < length xs then v else xs ! j)"
  by (cases "i < length xs") (auto simp: nth_list_update not_less list_update_beyond)

lemma list_update_eq_self: "xs ! i = v \<Longrightarrow> xs[i := v] = xs"
  by (metis list_update_id)

end
