(* ===== verification/Utils.thy ===== *)
theory Utils
  imports Prelude
begin

text \<open>
  The hash functions and bit tricks of \<open>utility.h\<close>, the size rounding of \<open>auto_ptr.h\<close> and
  the bit scan of \<open>native_buffer_pool.h\<close>. All arithmetic is on 64-bit words and wraps.
  A \<open>char\<close> is the signed 8-bit type of the supported x86-64 targets, so it is
  sign-extended when it is added to the hash state.
\<close>

section \<open>Hashing\<close>

definition Rotr64 :: "u64 \<Rightarrow> nat \<Rightarrow> u64" where
  "Rotr64 x n = drop_bit n x OR push_bit (64 - n) x"

definition GetHashCode :: "u64 \<Rightarrow> u64" where
  "GetHashCode input =
     (let local_rand = input;
          h0 = 8;
          h1 = 40343 * h0 + (local_rand AND 0xFFFF);
          h2 = 40343 * h1 + (drop_bit 16 local_rand AND 0xFFFF);
          h3 = 40343 * h2 + (drop_bit 32 local_rand AND 0xFFFF);
          h4 = 40343 * h3 + drop_bit 48 local_rand;
          h5 = 40343 * h4
      in Rotr64 h5 43)"

definition GetHashCode2 :: "u32 \<Rightarrow> u32 \<Rightarrow> u64" where
  "GetHashCode2 a b = GetHashCode (push_bit 32 (ucast a) + ucast b)"

definition HashBytes :: "u16 list \<Rightarrow> u64" where
  "HashBytes str =
     Rotr64 (40343 * fold (\<lambda>c hashState. 40343 * hashState + ucast c) str
       (word_of_nat (length str))) 6"

definition HashBytesWithPSFID :: "u16 \<Rightarrow> u8 list \<Rightarrow> u64" where
  "HashBytesWithPSFID psf_id str =
     (let hashState = word_of_nat (length str);
          hashState = 40343 * hashState + ucast psf_id;
          hashState = fold (\<lambda>c hashState. 40343 * hashState + scast c) str hashState
      in Rotr64 (40343 * hashState) 6)"

definition Rotl64 :: "u64 \<Rightarrow> nat \<Rightarrow> u64" where
  "Rotl64 x n = push_bit n x OR drop_bit (64 - n) x"

lemma bit_Rotr64:
  assumes "0 < n" "n < 64" "i < 64"
  shows "bit (Rotr64 x n) i = (if i < 64 - n then bit x (n + i) else bit x (i - (64 - n)))"
  using assms bit_imp_le_length [of x "n + i"]
  by (auto simp: Rotr64_def bit_or_iff bit_drop_bit_eq bit_push_bit_iff)

lemma Rotr64_inj:
  assumes "0 < n" "n < 64" "Rotr64 x n = Rotr64 y n"
  shows "x = y"
proof (rule bit_word_eqI)
  fix i assume i: "i < LENGTH(64)"
  show "bit x i = bit y i"
  proof (cases "n \<le> i")
    case True
    then have "bit (Rotr64 x n) (i - n) = bit (Rotr64 y n) (i - n)" using assms by simp
    moreover have "i - n < 64 - n" using assms(2) i True by simp
    ultimately show ?thesis using assms(1,2) i True by (simp add: bit_Rotr64)
  next
    case False
    then have "bit (Rotr64 x n) (i + (64 - n)) = bit (Rotr64 y n) (i + (64 - n))"
      using assms by simp
    moreover have "\<not> i + (64 - n) < 64 - n" by simp
    ultimately show ?thesis using assms(1,2) i False by (simp add: bit_Rotr64)
  qed
qed


section \<open>Powers of two\<close>

definition IsPowerOfTwo :: "u64 \<Rightarrow> bool" where
  "IsPowerOfTwo x \<longleftrightarrow> x > 0 \<and> x AND (x - 1) = 0"

text \<open>The index of the most significant set bit, as \<open>63 - __builtin_clzl\<close> computes it.\<close>

fun bsr :: "nat \<Rightarrow> nat" where
  "bsr n = (if n \<le> 1 then 0 else Suc (bsr (n div 2)))"

declare bsr.simps [simp del]

definition BitScanReverse64 :: "u64 \<Rightarrow> bool \<times> nat" where
  "BitScanReverse64 m = (m > 0, bsr (unat m))"

definition BitScanReverse :: "u32 \<Rightarrow> bool \<times> nat" where
  "BitScanReverse m = (m > 0, bsr (unat m))"

definition next_power_of_two :: "u64 \<Rightarrow> u64" where
  "next_power_of_two sz =
     (let (found, k) = BitScanReverse64 (sz - 1)
      in push_bit ((if found then 1 else 0) * (k + 1)) 1)"

definition pad_alignment :: "u64 \<Rightarrow> u64 \<Rightarrow> u64" where
  "pad_alignment sz alignment =
     (let max_padding = alignment - 1 in (sz + max_padding) AND NOT max_padding)"

lemma bsr_bounds: "0 < n \<Longrightarrow> 2 ^ bsr n \<le> n \<and> n < 2 ^ Suc (bsr n)"
proof (induction n rule: bsr.induct)
  case (1 n)
  show ?case
  proof (cases "n \<le> 1")
    case True
    with "1.prems" show ?thesis by (simp add: bsr.simps [of n])
  next
    case False
    then have "2 ^ bsr (n div 2) \<le> n div 2 \<and> n div 2 < 2 ^ Suc (bsr (n div 2))"
      using "1.IH" by simp
    then have "2 * 2 ^ bsr (n div 2) \<le> n \<and> n < 4 * 2 ^ bsr (n div 2)" by auto
    with False show ?thesis by (simp add: bsr.simps [of n])
  qed
qed

lemma bsr_unique: "2 ^ k \<le> n \<Longrightarrow> n < 2 ^ Suc k \<Longrightarrow> bsr n = k"
proof -
  assume k: "2 ^ k \<le> n" "n < 2 ^ Suc k"
  then have "0 < n" by (metis gr0I not_one_le_zero one_le_numeral one_le_power order_trans)
  from bsr_bounds [OF this] k have "(2::nat) ^ bsr n < 2 ^ Suc k" "(2::nat) ^ k < 2 ^ Suc (bsr n)"
    by linarith+
  then have "bsr n < Suc k" "k < Suc (bsr n)"
    by (metis one_less_numeral_iff power_less_imp_less_exp semiring_norm(76))+
  then show ?thesis by simp
qed

lemma bsr_less_64: "0 < x \<Longrightarrow> bsr (unat (x :: u64)) < 64"
proof -
  assume "0 < x"
  then have "2 ^ bsr (unat x) \<le> unat x" using bsr_bounds by (simp add: word_less_nat_alt)
  also have "unat x < 2 ^ 64" using unsigned_less [of x] by simp
  finally show ?thesis by (simp only: power_strict_increasing_iff)
qed

lemma IsPowerOfTwo_iff: "IsPowerOfTwo x \<longleftrightarrow> (\<exists>k < 64. x = 2 ^ k)"
proof
  assume p: "IsPowerOfTwo x"
  let ?k = "bsr (unat x)"
  have pos: "0 < unat x" using p by (simp add: IsPowerOfTwo_def word_less_nat_alt)
  have b: "2 ^ ?k \<le> unat x" "unat x < 2 ^ Suc ?k" using bsr_bounds [OF pos] by auto
  have k: "?k < 64" using p bsr_less_64 by (simp add: IsPowerOfTwo_def)
  have pred: "unat (x - 1) = unat x - 1" using pos by (simp add: unat_sub word_le_nat_alt)
  have "unat x = 2 ^ ?k"
  proof (rule ccontr)
    assume "unat x \<noteq> 2 ^ ?k"
    then have *: "2 ^ ?k \<le> unat x - 1" "unat x - 1 < 2 ^ Suc ?k" using b by auto
    have "unat x div 2 ^ ?k = 1" "(unat x - 1) div 2 ^ ?k = 1"
      using b * by (auto intro!: div_nat_eqI)
    then have "bit (unat x) ?k" "bit (unat (x - 1)) ?k"
      by (simp_all add: bit_iff_odd pred)
    then have "bit (x AND (x - 1)) ?k" by (simp add: bit_and_iff bit_unat_iff)
    then show False using p by (simp add: IsPowerOfTwo_def)
  qed
  then have "x = 2 ^ ?k" using k by (simp add: word_unat_eq_iff unat_exp)
  with k show "\<exists>k < 64. x = 2 ^ k" by blast
next
  assume "\<exists>k < 64. x = 2 ^ k"
  then obtain k where k: "k < 64" "x = 2 ^ k" by blast
  then have "x - 1 = mask k" by (simp add: mask_eq_exp_minus_1)
  moreover have "(2 ^ k :: u64) AND mask k = 0"
    by (rule bit_word_eqI) (auto simp: bit_and_iff bit_exp_iff bit_mask_iff)
  moreover have "(0 :: u64) < 2 ^ k" using k by (simp add: word_less_nat_alt unat_exp)
  ultimately show "IsPowerOfTwo x" using k by (simp add: IsPowerOfTwo_def)
qed

text \<open>Rounding a size up to a multiple of a power of two.\<close>

lemma unat_pad_alignment:
  assumes "k < 64" "unat sz + 2 ^ k \<le> 2 ^ 64"
  shows "unat (pad_alignment sz (2 ^ k)) = (unat sz + (2 ^ k - 1)) div 2 ^ k * 2 ^ k"
proof -
  have "unat (sz + mask k) = unat sz + (2 ^ k - 1)"
    using assms by (subst unat_add_lem [THEN iffD1]) (auto simp: mask_eq_exp_minus_1 unat_sub
        unat_exp word_le_nat_alt)
  then show ?thesis
    using unat_and_not_mask [of "sz + mask k" k]
    by (simp add: pad_alignment_def Let_def mask_eq_exp_minus_1)
qed

lemma pad_alignment_bounds:
  assumes "k < 64" "unat sz + 2 ^ k \<le> 2 ^ 64"
  shows "2 ^ k dvd unat (pad_alignment sz (2 ^ k))"
    and "unat sz \<le> unat (pad_alignment sz (2 ^ k))"
    and "unat (pad_alignment sz (2 ^ k)) < unat sz + 2 ^ k"
proof -
  let ?m = "(2::nat) ^ k" and ?s = "unat sz"
  have eq: "unat (pad_alignment sz (2 ^ k)) = (?s + (?m - 1)) div ?m * ?m"
    by (rule unat_pad_alignment [OF assms])
  have "0 < ?m" by simp
  have dm: "(?s + (?m - 1)) div ?m * ?m + (?s + (?m - 1)) mod ?m = ?s + (?m - 1)"
    by (rule div_mult_mod_eq)
  moreover have "(?s + (?m - 1)) mod ?m < ?m" by simp
  ultimately show "?s \<le> unat (pad_alignment sz (2 ^ k))"
    and "unat (pad_alignment sz (2 ^ k)) < ?s + ?m"
    using \<open>0 < ?m\<close> eq by linarith+
  show "?m dvd unat (pad_alignment sz (2 ^ k))" using eq by simp
qed

text \<open>The next power of two is the least one that is at least the argument.\<close>

lemma unat_next_power_of_two:
  assumes "0 < unat sz" "unat sz \<le> 2 ^ 63"
  shows "\<exists>k < 64. next_power_of_two sz = 2 ^ k \<and> unat sz \<le> 2 ^ k \<and>
    (\<forall>j. unat sz \<le> 2 ^ j \<longrightarrow> k \<le> j)"
proof (cases "sz = 1")
  case True
  then show ?thesis
    by (intro exI [of _ 0]) (simp add: next_power_of_two_def BitScanReverse64_def)
next
  case False
  have pred: "unat (sz - 1) = unat sz - 1"
    using assms by (simp add: unat_sub word_le_nat_alt)
  moreover have "unat sz \<noteq> 1" using False by (simp add: word_unat_eq_iff)
  ultimately have pos: "0 < unat (sz - 1)" using assms(1) by linarith
  let ?k = "bsr (unat (sz - 1))"
  have b: "2 ^ ?k \<le> unat sz - 1" "unat sz - 1 < 2 ^ Suc ?k"
    using bsr_bounds [OF pos] pred by auto
  have "(2::nat) ^ ?k < 2 ^ 63" using b(1) assms by linarith
  then have k: "?k < 63" by (simp only: power_strict_increasing_iff)
  have "next_power_of_two sz = 2 ^ Suc ?k"
    using pos by (simp add: next_power_of_two_def BitScanReverse64_def word_less_nat_alt
        push_bit_eq_mult)
  moreover have "\<forall>j. unat sz \<le> 2 ^ j \<longrightarrow> Suc ?k \<le> j"
  proof (intro allI impI)
    fix j assume "unat sz \<le> 2 ^ j"
    then have "(2::nat) ^ ?k < 2 ^ j" using b(1) pos pred by linarith
    then show "Suc ?k \<le> j" by (simp only: power_strict_increasing_iff)
  qed
  moreover have "unat sz \<le> 2 ^ Suc ?k" using b(2) by linarith
  ultimately show ?thesis using k by (intro exI [of _ "Suc ?k"]) simp
qed

end
