(* ===== verification/Addresses.thy ===== *)
theory Addresses
  imports Utils
begin

text \<open>
  \<open>address.h\<close>: the 48-bit logical addresses of the log (25 bits of offset, 23 bits of
  page, 16 reserved bits), their atomic cell, and the page-and-offset word of the log's
  tail from \<open>persistent_memory_malloc.h\<close>, which gives the offset 41 bits so that a
  reservation may run past the end of its page. An address is the 64-bit control word
  itself, as the union makes it.
\<close>

type_synonym address = u64

abbreviation kInvalidAddress :: address where "kInvalidAddress \<equiv> 1"

definition kAddressBits :: nat where [packed]: "kAddressBits = 48"
definition kMaxAddress :: u64 where "kMaxAddress = push_bit kAddressBits 1 - 1"
definition kOffsetBits :: nat where [packed]: "kOffsetBits = 25"
definition kMaxOffset :: u32 where "kMaxOffset = push_bit kOffsetBits 1 - 1"
definition kPageBits :: nat where [packed]: "kPageBits = kAddressBits - kOffsetBits"
definition kMaxPage :: u32 where "kMaxPage = push_bit kPageBits 1 - 1"

text \<open>The constructors and accessors.\<close>

definition Address :: "u32 \<Rightarrow> u32 \<Rightarrow> address" where
  [packed]: "Address pg off =
     bf_put 0 kOffsetBits (ucast off)
       (bf_put kOffsetBits kPageBits (ucast pg)
         (bf_put kAddressBits (64 - kAddressBits) 0 0))"

definition addr_page :: "address \<Rightarrow> u32" where
  [packed]: "addr_page a = ucast (bf_get kOffsetBits kPageBits a)"

definition addr_offset :: "address \<Rightarrow> u32" where
  [packed]: "addr_offset a = ucast (bf_get 0 kOffsetBits a)"

definition addr_reserved :: "address \<Rightarrow> u64" where
  [packed]: "addr_reserved a = bf_get kAddressBits (64 - kAddressBits) a"

definition addr_add :: "address \<Rightarrow> u64 \<Rightarrow> address" where
  "addr_add a delta = a + delta"

definition addr_sub :: "address \<Rightarrow> address \<Rightarrow> address" where
  "addr_sub a b = a - b"

definition addr_min :: "address \<Rightarrow> address \<Rightarrow> address" where
  "addr_min a b = (if b < a then b else a)"

text \<open>Scan pages: the blocks of \<open>2 ^ scan_page_bit\<close> bytes of adaptive prefetching.\<close>

definition scan_offset :: "nat \<Rightarrow> address \<Rightarrow> u32" where
  "scan_offset scan_page_bit a = ucast (a AND (push_bit scan_page_bit 1 - 1))"

definition scan_page :: "nat \<Rightarrow> address \<Rightarrow> u64" where
  "scan_page scan_page_bit a = drop_bit scan_page_bit a"

definition scan_page_head :: "nat \<Rightarrow> address \<Rightarrow> address" where
  "scan_page_head scan_page_bit a = push_bit scan_page_bit (scan_page scan_page_bit a)"

definition scan_page_size :: "nat \<Rightarrow> u32" where
  "scan_page_size scan_page_bit = push_bit scan_page_bit 1"

text \<open>\<open>AtomicAddress\<close>: the address is its control word, so load and store are identities.\<close>

definition AtomicAddress_compare_exchange_strong ::
  "address \<Rightarrow> address \<Rightarrow> address \<Rightarrow> bool \<times> address \<times> address" where
  "AtomicAddress_compare_exchange_strong cell expected desired =
     compare_exchange cell expected desired"


section \<open>Laws of addresses\<close>

lemma unat_addr_page: "unat (addr_page a) = unat a div 2 ^ 25 mod 2 ^ 23"
proof -
  have "unat (bf_get 25 23 a) < 2 ^ 23" using unat_bf_get_less [of 23 25 a] by simp
  then show ?thesis by (simp add: packed unat_ucast_64_32 unat_bf_get)
qed

lemma unat_addr_offset: "unat (addr_offset a) = unat a mod 2 ^ 25"
proof -
  have "unat (bf_get 0 25 a) < 2 ^ 25" using unat_bf_get_less [of 25 0 a] by simp
  then show ?thesis by (simp add: packed unat_ucast_64_32 unat_bf_get)
qed

lemma addr_page_Address: "addr_page (Address pg off) = ucast (take_bit 23 (ucast pg :: u64))"
  by (simp add: packed packed_simps)

lemma addr_offset_Address: "addr_offset (Address pg off) = ucast (take_bit 25 (ucast off :: u64))"
  by (simp add: packed packed_simps)

lemma addr_reserved_Address [simp]: "addr_reserved (Address pg off) = 0"
  by (simp add: packed packed_simps)

lemma page_Address: "unat pg < 2 ^ 23 \<Longrightarrow> addr_page (Address pg off) = pg"
  by (simp add: addr_page_Address take_bit_of_small)

lemma offset_Address: "unat off < 2 ^ 25 \<Longrightarrow> addr_offset (Address pg off) = off"
  by (simp add: addr_offset_Address take_bit_of_small)

lemma unat_addr_reserved: "unat (addr_reserved a) = unat a div 2 ^ 48"
proof -
  have "unat a < 2 ^ 64" using unat_u64_less [of a] by simp
  then have "unat a div 2 ^ 48 < 2 ^ 16" by simp
  then show ?thesis by (simp add: packed unat_bf_get)
qed

lemma unat_addr:
  "unat a = unat (addr_offset a) + 2 ^ 25 * unat (addr_page a) + 2 ^ 48 * unat (addr_reserved a)"
  using nat_split_fields [of "unat a" 25 23]
  by (simp add: unat_addr_page unat_addr_offset unat_addr_reserved)

lemma addr_eqI:
  assumes "addr_page a = addr_page b" "addr_offset a = addr_offset b"
    "addr_reserved a = addr_reserved b"
  shows "a = b"
  using assms unat_addr [of a] unat_addr [of b] by (simp add: word_unat_eq_iff)

lemma addr_page_less: "unat (addr_page a) < 2 ^ 23"
  by (simp add: unat_addr_page)

lemma addr_offset_less: "unat (addr_offset a) < 2 ^ 25"
  by (simp add: unat_addr_offset)

lemma addr_reserved_0_iff: "addr_reserved a = 0 \<longleftrightarrow> unat a < 2 ^ 48"
  by (simp add: word_unat_eq_iff [of "addr_reserved a"] unat_addr_reserved div_eq_0_iff)

lemma unat_Address:
  assumes "unat pg < 2 ^ 23" "unat off < 2 ^ 25"
  shows "unat (Address pg off) = 2 ^ 25 * unat pg + unat off"
  using unat_addr [of "Address pg off"]
  by (simp add: page_Address [OF assms(1)] offset_Address [OF assms(2)])

lemma Address_page_offset [simp]:
  "addr_reserved a = 0 \<Longrightarrow> Address (addr_page a) (addr_offset a) = a"
  by (rule addr_eqI)
    (simp_all only: page_Address [OF addr_page_less] offset_Address [OF addr_offset_less]
      addr_reserved_Address)

text \<open>On unreserved addresses the order is the lexicographic one of page and offset.\<close>

lemma addr_less_iff:
  assumes "addr_reserved a = 0" "addr_reserved b = 0"
  shows "a < b \<longleftrightarrow> addr_page a < addr_page b \<or>
    addr_page a = addr_page b \<and> addr_offset a < addr_offset b"
  using assms unat_addr [of a] unat_addr [of b] addr_offset_less [of a] addr_offset_less [of b]
  by (auto simp: word_less_nat_alt word_unat_eq_iff [of "addr_page a"])

text \<open>Advancing inside a page changes the offset only.\<close>

lemma addr_add_in_page:
  assumes "unat (addr_offset a) + unat d < 2 ^ 25"
  shows "addr_page (addr_add a d) = addr_page a"
    and "unat (addr_offset (addr_add a d)) = unat (addr_offset a) + unat d"
    and "addr_reserved (addr_add a d) = addr_reserved a"
proof -
  let ?o = "unat (addr_offset a)" and ?p = "unat (addr_page a)" and ?r = "unat (addr_reserved a)"
  have a: "unat a = ?o + 2 ^ 25 * ?p + 2 ^ 48 * ?r" by (rule unat_addr)
  have r: "?r < 2 ^ 16" using unat_u64_less [of a] by (simp add: unat_addr_reserved less_mult_imp_div_less)
  have lt: "unat a + unat d < 2 ^ 64" using a assms r addr_page_less [of a] by simp
  then have s: "unat (addr_add a d) = (?o + unat d) + 2 ^ 25 * ?p + 2 ^ 48 * ?r"
    using a by (simp add: addr_add_def unat_word_ariths)
  note ff = nat_join_fields [where j = 25 and k = 23 and z = ?r, OF assms addr_page_less [of a],
      simplified]
  show "addr_page (addr_add a d) = addr_page a"
    using ff s unat_addr_page [of "addr_add a d"] by (simp add: word_unat_eq_iff)
  show "unat (addr_offset (addr_add a d)) = ?o + unat d"
    using ff s unat_addr_offset [of "addr_add a d"] by simp
  show "addr_reserved (addr_add a d) = addr_reserved a"
    using ff s unat_addr_reserved [of "addr_add a d"] by (simp add: word_unat_eq_iff)
qed

text \<open>A scan page contains its addresses.\<close>

lemma unat_scan_page_head: "unat (scan_page_head b a) = unat a div 2 ^ b * 2 ^ b"
  using unat_and_not_mask [of a b] by (simp add: scan_page_head_def scan_page_def and_not_mask_eq)

lemma unat_scan_offset: "b \<le> 32 \<Longrightarrow> unat (scan_offset b a) = unat a mod 2 ^ b"
proof -
  assume b: "b \<le> 32"
  have "a AND (push_bit b 1 - 1) = take_bit b a"
    by (simp add: take_bit_eq_mask mask_eq_exp_minus_1 push_bit_eq_mult)
  moreover have "unat (take_bit b a) < 2 ^ 32"
  proof -
    have "unat (take_bit b a) < 2 ^ b" using b by (simp add: unsigned_take_bit_eq)
    also have "\<dots> \<le> 2 ^ 32" using b by (rule power_increasing) simp
    finally show ?thesis .
  qed
  ultimately have "unat (scan_offset b a) = unat (take_bit b a)"
    by (simp add: scan_offset_def unat_ucast_64_32)
  then show ?thesis by (simp add: unsigned_take_bit_eq flip: take_bit_eq_mod)
qed


section \<open>The tail of the log\<close>

text \<open>\<open>PageOffset\<close>: 41 bits of offset below 23 bits of page.\<close>

type_synonym page_offset = u64

definition PageOffset :: "u32 \<Rightarrow> u64 \<Rightarrow> page_offset" where
  [packed]: "PageOffset pg off =
     bf_put 0 (64 - kPageBits) off (bf_put (64 - kPageBits) kPageBits (ucast pg) 0)"

definition po_offset :: "page_offset \<Rightarrow> u64" where
  [packed]: "po_offset p = bf_get 0 (64 - kPageBits) p"

definition po_page :: "page_offset \<Rightarrow> u32" where
  [packed]: "po_page p = ucast (bf_get (64 - kPageBits) kPageBits p)"

definition PageOffset_of_address :: "address \<Rightarrow> page_offset" where
  "PageOffset_of_address a = PageOffset (addr_page a) (ucast (addr_offset a))"

definition Address_of_PageOffset :: "page_offset \<Rightarrow> address" where
  "Address_of_PageOffset p = Address (po_page p) (ucast (po_offset p))"

text \<open>\<open>AtomicPageOffset::Reserve\<close>: the old value and the new control word.\<close>

definition po_Reserve :: "u32 \<Rightarrow> page_offset \<Rightarrow> page_offset \<times> page_offset" where
  "po_Reserve num_slots control = (control, control + PageOffset 0 (ucast num_slots))"

text \<open>
  \<open>AtomicPageOffset::NewPage\<close>: the returned flag, \<open>won_cas\<close> and the new control word.
  The cell may have been changed by other threads since it was loaded, so the value loaded
  and the value found by the compare-and-swap are two arguments.
\<close>

definition po_NewPage :: "u32 \<Rightarrow> page_offset \<Rightarrow> page_offset \<Rightarrow> bool \<times> bool \<times> page_offset" where
  "po_NewPage old_page loaded control =
     (if old_page \<noteq> po_page loaded then (True, False, control)
      else let new_page = PageOffset (old_page + 1) 0;
               (won_cas, expected, control') = compare_exchange control loaded new_page
           in (po_page expected > old_page, won_cas, control'))"

lemma unat_po_page: "unat (po_page p) = unat p div 2 ^ 41"
proof -
  have "unat p < 2 ^ 64" using unat_u64_less [of p] by simp
  then have "unat p div 2 ^ 41 < 2 ^ 23" by simp
  moreover have "unat (bf_get 41 23 p) < 2 ^ 23" using unat_bf_get_less [of 23 41 p] by simp
  ultimately show ?thesis by (simp add: packed unat_ucast_64_32 unat_bf_get)
qed

lemma unat_po_offset: "unat (po_offset p) = unat p mod 2 ^ 41"
  by (simp add: packed unat_bf_get)

lemma unat_po: "unat p = unat (po_offset p) + 2 ^ 41 * unat (po_page p)"
  by (simp add: unat_po_page unat_po_offset)

lemma po_eqI: "po_page p = po_page q \<Longrightarrow> po_offset p = po_offset q \<Longrightarrow> p = q"
  using unat_po [of p] unat_po [of q] by (simp add: word_unat_eq_iff)

lemma po_page_PageOffset [simp]: "unat pg < 2 ^ 23 \<Longrightarrow> po_page (PageOffset pg off) = pg"
  by (simp add: packed packed_simps take_bit_of_small)

lemma po_offset_PageOffset [simp]: "unat off < 2 ^ 41 \<Longrightarrow> po_offset (PageOffset pg off) = off"
  by (simp add: packed packed_simps take_bit_of_small)

lemma unat_PageOffset:
  "unat pg < 2 ^ 23 \<Longrightarrow> unat off < 2 ^ 41 \<Longrightarrow> unat (PageOffset pg off) = unat off + 2 ^ 41 * unat pg"
  using unat_po [of "PageOffset pg off"] by simp

text \<open>
  Reserving adds to the offset and never carries into the page, as long as the 41-bit
  overflow space is not used up.
\<close>

lemma po_Reserve_spec:
  assumes "unat (po_offset p) + unat n < 2 ^ 41" and r: "po_Reserve n p = (old, new)"
  shows "old = p" "po_page new = po_page p" "unat (po_offset new) = unat (po_offset p) + unat n"
proof -
  let ?o = "unat (po_offset p)" and ?g = "unat (po_page p)"
  have n: "unat (ucast n :: u64) < 2 ^ 41" using unat_u32_less [of n] by simp
  have new: "new = p + PageOffset 0 (ucast n)" and "old = p"
    using r by (auto simp: po_Reserve_def)
  then show "old = p" by simp
  have g: "?g < 2 ^ 23" using unat_u64_less [of p] by (simp add: unat_po_page less_mult_imp_div_less)
  have q: "unat (PageOffset 0 (ucast n)) = unat n" using n by (simp add: unat_PageOffset)
  have "unat p + unat n < 2 ^ 64" using unat_po [of p] assms(1) g by simp
  then have s: "unat new = (?o + unat n) + 2 ^ 41 * ?g"
    using new q unat_po [of p] by (simp add: unat_word_ariths)
  note f = nat_join_fields [where j = 41 and k = 23 and z = 0, OF assms(1) g, simplified]
  show "po_page new = po_page p"
    using f s unat_po_page [of new] by (simp add: word_unat_eq_iff)
  show "unat (po_offset new) = ?o + unat n"
    using f s unat_po_offset [of new] by simp
qed

end
