(* ===== verification/Hash_Buckets.thy ===== *)
theory Hash_Buckets
  imports Addresses
begin

text \<open>
  \<open>key_hash.h\<close> and \<open>hash_bucket.h\<close>: the hash of a key (48 address bits and a 14-bit tag),
  the hash bucket entry that packs a log address, a tag and the tentative bit, the overflow
  entry, and the bucket of seven entries and one overflow entry. As in the unions of the
  source, each is its 64-bit control word.
\<close>

section \<open>Key hashes\<close>

type_synonym key_hash = u64

definition kh_address :: "key_hash \<Rightarrow> u64" where
  [packed]: "kh_address h = bf_get 0 48 h"

definition kh_tag :: "key_hash \<Rightarrow> u16" where
  [packed]: "kh_tag h = ucast (bf_get 48 14 h)"

definition kh_idx :: "u64 \<Rightarrow> key_hash \<Rightarrow> u64" where
  "kh_idx sz h = kh_address h AND (sz - 1)"

lemma unat_kh_idx: "k < 64 \<Longrightarrow> unat (kh_idx (2 ^ k) h) = unat (kh_address h) mod 2 ^ k"
proof -
  assume "k < 64"
  have "kh_idx (2 ^ k) h = take_bit k (kh_address h)"
    by (simp add: kh_idx_def take_bit_eq_mask mask_eq_exp_minus_1)
  then show ?thesis by (simp add: unsigned_take_bit_eq flip: take_bit_eq_mod)
qed

lemma kh_idx_less: "IsPowerOfTwo sz \<Longrightarrow> kh_idx sz h < sz"
  by (auto simp: IsPowerOfTwo_iff unat_kh_idx unat_exp word_less_nat_alt)

text \<open>
  Doubling the table splits every bucket in two: the new index is the old one, or the old
  one plus the old size.
\<close>

lemma kh_idx_double:
  assumes "k < 63"
  shows "unat (kh_idx (2 ^ Suc k) h) = unat (kh_idx (2 ^ k) h) \<or>
    unat (kh_idx (2 ^ Suc k) h) = unat (kh_idx (2 ^ k) h) + 2 ^ k"
proof -
  let ?a = "unat (kh_address h)"
  have "?a mod 2 ^ Suc k = 2 ^ k * (?a div 2 ^ k mod 2) + ?a mod 2 ^ k"
    by (metis mod_mult2_eq mult.commute power_Suc2)
  moreover have "?a div 2 ^ k mod 2 = 0 \<or> ?a div 2 ^ k mod 2 = 1" by auto
  ultimately show ?thesis using assms by (auto simp: unat_kh_idx simp del: power_Suc)
qed


section \<open>Hash bucket entries\<close>

type_synonym hb_entry = u64

abbreviation kInvalidEntry :: hb_entry where "kInvalidEntry \<equiv> 0"

definition HashBucketEntry :: "address \<Rightarrow> u16 \<Rightarrow> bool \<Rightarrow> hb_entry" where
  [packed]: "HashBucketEntry addr tg tent =
     bf_put 0 48 addr (bf_put 48 14 (ucast tg) (bf_put 62 1 0 (bf_put 63 1 (of_bool tent) 0)))"

definition hbe_unused :: "hb_entry \<Rightarrow> bool" where
  "hbe_unused e \<longleftrightarrow> e = 0"

definition hbe_address :: "hb_entry \<Rightarrow> address" where
  [packed]: "hbe_address e = bf_get 0 48 e"

definition hbe_tag :: "hb_entry \<Rightarrow> u16" where
  [packed]: "hbe_tag e = ucast (bf_get 48 14 e)"

definition hbe_tentative :: "hb_entry \<Rightarrow> bool" where
  [packed]: "hbe_tentative e \<longleftrightarrow> bf_get 63 1 e \<noteq> 0"

definition hbe_set_tentative :: "bool \<Rightarrow> hb_entry \<Rightarrow> hb_entry" where
  [packed]: "hbe_set_tentative desired e = bf_put 63 1 (of_bool desired) e"

text \<open>\<open>AtomicHashBucketEntry::compare_exchange_strong\<close> compares and swaps control words.\<close>

definition hbe_compare_exchange_strong :: "hb_entry \<Rightarrow> hb_entry \<Rightarrow> hb_entry \<Rightarrow> bool \<times> hb_entry \<times> hb_entry" where
  "hbe_compare_exchange_strong cell expected desired = compare_exchange cell expected desired"

text \<open>The tag part of a key hash fits the tag field, so it survives the packing.\<close>

definition tag_ok :: "u16 \<Rightarrow> bool" where
  "tag_ok t \<longleftrightarrow> unat t < 2 ^ 14"

lemma tag_ok_field: "tag_ok (ucast (bf_get lo 14 (x :: u64)))"
proof -
  have "unat (bf_get lo 14 x) < 2 ^ 14" by (rule unat_bf_get_less) simp
  then show ?thesis by (simp add: tag_ok_def unat_ucast_64_16)
qed

lemma tag_ok_kh_tag [simp]: "tag_ok (kh_tag h)"
  by (simp add: kh_tag_def tag_ok_field)

lemma tag_ok_hbe_tag [simp]: "tag_ok (hbe_tag e)"
  by (simp add: hbe_tag_def tag_ok_field)

lemma hbe_tag_HashBucketEntry [simp]: "tag_ok t \<Longrightarrow> hbe_tag (HashBucketEntry a t b) = t"
  by (simp add: tag_ok_def packed packed_simps take_bit_of_small)

lemma hbe_address_HashBucketEntry [simp]:
  "unat a < 2 ^ 48 \<Longrightarrow> hbe_address (HashBucketEntry a t b) = a"
  by (simp add: packed packed_simps take_bit_of_small)

lemma hbe_tentative_HashBucketEntry [simp]: "hbe_tentative (HashBucketEntry a t b) = b"
  by (cases b) (simp_all add: packed packed_simps)

lemma hbe_address_less: "unat (hbe_address e) < 2 ^ 48"
  unfolding hbe_address_def by (rule unat_bf_get_less) simp

lemma hbe_address_zero [simp]: "hbe_address 0 = 0"
  by (simp add: hbe_address_def)

lemma HashBucketEntry_used [simp]:
  "unat a < 2 ^ 48 \<Longrightarrow> a \<noteq> 0 \<Longrightarrow> HashBucketEntry a t b \<noteq> 0"
  by (metis hbe_address_HashBucketEntry hbe_address_zero)

lemma HashBucketEntry_invalid_used [simp]: "HashBucketEntry kInvalidAddress t b \<noteq> 0"
  by (rule HashBucketEntry_used) simp_all


section \<open>Overflow entries and buckets\<close>

type_synonym fixed_page_address = u64
type_synonym ovf_entry = u64

definition HashBucketOverflowEntry :: "fixed_page_address \<Rightarrow> ovf_entry" where
  [packed]: "HashBucketOverflowEntry a = bf_put 0 48 a (bf_put 48 16 0 0)"

definition ovf_address :: "ovf_entry \<Rightarrow> fixed_page_address" where
  [packed]: "ovf_address e = bf_get 0 48 e"

definition ovf_unused :: "ovf_entry \<Rightarrow> bool" where
  "ovf_unused e \<longleftrightarrow> ovf_address e = 0"

definition ovf_compare_exchange_strong ::
  "ovf_entry \<Rightarrow> ovf_entry \<Rightarrow> ovf_entry \<Rightarrow> bool \<times> ovf_entry \<times> ovf_entry" where
  "ovf_compare_exchange_strong cell expected desired = compare_exchange cell expected desired"

lemma ovf_address_HashBucketOverflowEntry [simp]:
  "unat a < 2 ^ 48 \<Longrightarrow> ovf_address (HashBucketOverflowEntry a) = a"
  by (simp add: packed packed_simps take_bit_of_small)

lemma ovf_unused_zero [simp]: "ovf_unused 0"
  by (simp add: ovf_unused_def ovf_address_def)

record hash_bucket =
  hb_entries :: "hb_entry list"
  hb_overflow :: ovf_entry

definition kNumEntries :: nat where "kNumEntries = 7"

definition HashBucket :: hash_bucket where
  "HashBucket = \<lparr>hb_entries = replicate kNumEntries kInvalidEntry, hb_overflow = 0\<rparr>"

lemma length_HashBucket [simp]: "length (hb_entries HashBucket) = kNumEntries"
  by (simp add: HashBucket_def)

lemma overflow_HashBucket [simp]: "hb_overflow HashBucket = 0"
  by (simp add: HashBucket_def)

end
