(* ===== verification/Records.thy ===== *)
theory Records
  imports Hash_Buckets
begin

text \<open>
  \<open>record.h\<close>: the packed record header, the key pointers that link a record into hash
  chains, and the layout of a record (header, key pointers, payload, optional values) in the
  log. Key pointers and headers are reached by address arithmetic, as the casts of the
  source do.
\<close>

section \<open>The record header\<close>

type_synonym record_info = u64

definition RecordInfo :: "u16 \<Rightarrow> bool \<Rightarrow> bool \<Rightarrow> bool \<Rightarrow> u32 \<Rightarrow> u32 \<Rightarrow> u32 \<Rightarrow> record_info" where
  [packed]: "RecordInfo checkpoint_version final_bit tombstone invalid ptr_cnt payload_size optional_size =
     bf_put 0 15 (ucast ptr_cnt)
       (bf_put 15 25 (ucast payload_size)
         (bf_put 40 8 (ucast optional_size)
           (bf_put 48 13 (ucast checkpoint_version)
             (bf_put 61 1 (of_bool invalid)
               (bf_put 62 1 (of_bool tombstone)
                 (bf_put 63 1 (of_bool final_bit) 0))))))"

definition ri_IsNull :: "record_info \<Rightarrow> bool" where
  "ri_IsNull r \<longleftrightarrow> r = 0"

definition ri_ptr_cnt :: "record_info \<Rightarrow> u32" where
  [packed]: "ri_ptr_cnt r = ucast (bf_get 0 15 r)"

definition ri_payload_size :: "record_info \<Rightarrow> u32" where
  [packed]: "ri_payload_size r = ucast (bf_get 15 25 r)"

definition ri_optional_size :: "record_info \<Rightarrow> u32" where
  [packed]: "ri_optional_size r = ucast (bf_get 40 8 r)"

definition ri_checkpoint_version :: "record_info \<Rightarrow> u64" where
  [packed]: "ri_checkpoint_version r = bf_get 48 13 r"

definition ri_invalid :: "record_info \<Rightarrow> bool" where
  [packed]: "ri_invalid r \<longleftrightarrow> bf_get 61 1 r \<noteq> 0"

definition ri_tombstone :: "record_info \<Rightarrow> bool" where
  [packed]: "ri_tombstone r \<longleftrightarrow> bf_get 62 1 r \<noteq> 0"

definition ri_final_bit :: "record_info \<Rightarrow> bool" where
  [packed]: "ri_final_bit r \<longleftrightarrow> bf_get 63 1 r \<noteq> 0"

definition ri_set_invalid :: "bool \<Rightarrow> record_info \<Rightarrow> record_info" where
  [packed]: "ri_set_invalid b r = bf_put 61 1 (of_bool b) r"

lemma RecordInfo_fields:
  fixes fin tomb ivl :: bool
  assumes "unat ptr_cnt < 2 ^ 15" "unat payload_size < 2 ^ 25" "unat optional_size < 2 ^ 8"
    "unat ver < 2 ^ 13"
  defines "r \<equiv> RecordInfo ver fin tomb ivl ptr_cnt payload_size optional_size"
  shows "ri_ptr_cnt r = ptr_cnt" "ri_payload_size r = payload_size"
    "ri_optional_size r = optional_size" "ri_checkpoint_version r = ucast ver"
    "ri_invalid r = ivl" "ri_tombstone r = tomb" "ri_final_bit r = fin"
proof -
  show "ri_ptr_cnt r = ptr_cnt"
    by (simp add: r_def packed packed_simps take_bit_ucast_32 [OF assms(1)])
  show "ri_payload_size r = payload_size"
    by (simp add: r_def packed packed_simps take_bit_ucast_32 [OF assms(2)])
  show "ri_optional_size r = optional_size"
    by (simp add: r_def packed packed_simps take_bit_ucast_32 [OF assms(3)])
  have "take_bit 13 (ucast ver :: u64) = ucast ver"
    using assms(4) by (intro take_bit_of_small) simp
  then show "ri_checkpoint_version r = ucast ver"
    by (simp add: r_def packed packed_simps)
  show "ri_invalid r = ivl" by (cases ivl) (simp_all add: r_def packed packed_simps)
  show "ri_tombstone r = tomb" by (cases tomb) (simp_all add: r_def packed packed_simps)
  show "ri_final_bit r = fin" by (cases fin) (simp_all add: r_def packed packed_simps)
qed

lemma ri_set_invalid_fields [simp]:
  "ri_invalid (ri_set_invalid b r) = b"
  "ri_ptr_cnt (ri_set_invalid b r) = ri_ptr_cnt r"
  "ri_payload_size (ri_set_invalid b r) = ri_payload_size r"
  "ri_optional_size (ri_set_invalid b r) = ri_optional_size r"
  "ri_checkpoint_version (ri_set_invalid b r) = ri_checkpoint_version r"
  by (cases b; simp add: packed packed_simps)+


section \<open>Key pointers\<close>

text \<open>
  The first word of a key pointer (mode, index among the record's key pointers, previous
  address) is the one that is compared and swapped; the second names the PSF and its value.
\<close>

record key_pointer =
  kp_control :: u64
  kp_value :: u64

definition kpt_mode :: "u64 \<Rightarrow> u64" where [packed]: "kpt_mode c = bf_get 0 1 c"
definition kpt_ptr_offset :: "u64 \<Rightarrow> u64" where [packed]: "kpt_ptr_offset c = bf_get 1 15 c"
definition kpt_prev_address :: "u64 \<Rightarrow> address" where [packed]: "kpt_prev_address c = bf_get 16 48 c"

definition kpt_control :: "u64 \<Rightarrow> u16 \<Rightarrow> u64 \<Rightarrow> u64" where
  [packed]: "kpt_control mode ptr_offset prev_address =
     bf_put 0 1 mode (bf_put 1 15 (ucast ptr_offset) (bf_put 16 48 prev_address 0))"

definition kpt_set_prev_address :: "address \<Rightarrow> u64 \<Rightarrow> u64" where
  [packed]: "kpt_set_prev_address a c = bf_put 16 48 a c"

definition KeyPointer_general :: "u16 \<Rightarrow> u64 \<Rightarrow> u16 \<Rightarrow> u32 \<Rightarrow> u32 \<Rightarrow> key_pointer" where
  [packed]: "KeyPointer_general ptr_offset prev_address general_psf_id value_offset value_size =
     \<lparr>kp_control = kpt_control 0 ptr_offset prev_address,
      kp_value = bf_put 0 14 (ucast general_psf_id)
        (bf_put 14 25 (ucast value_offset) (bf_put 39 25 (ucast value_size) 0))\<rparr>"

definition KeyPointer_inline :: "u16 \<Rightarrow> u64 \<Rightarrow> u32 \<Rightarrow> u32 \<Rightarrow> key_pointer" where
  [packed]: "KeyPointer_inline ptr_offset prev_address inline_psf_id val =
     \<lparr>kp_control = kpt_control 1 ptr_offset prev_address,
      kp_value = bf_put 0 32 (ucast inline_psf_id) (bf_put 32 32 (ucast val) 0)\<rparr>"

definition kpt_general_psf_id :: "u64 \<Rightarrow> u16" where
  [packed]: "kpt_general_psf_id v = ucast (bf_get 0 14 v)"
definition kpt_value_offset :: "u64 \<Rightarrow> u32" where
  [packed]: "kpt_value_offset v = ucast (bf_get 14 25 v)"
definition kpt_value_size :: "u64 \<Rightarrow> u32" where
  [packed]: "kpt_value_size v = ucast (bf_get 39 25 v)"
definition kpt_inline_psf_id :: "u64 \<Rightarrow> u32" where
  [packed]: "kpt_inline_psf_id v = ucast (bf_get 0 32 v)"
definition kpt_inline_value :: "u64 \<Rightarrow> u32" where
  [packed]: "kpt_inline_value v = ucast (bf_get 32 32 v)"

text \<open>
  \<open>KeyPointer::alter\<close>: swap in a new previous address if the control word is still the
  expected one. Results: success, the updated expectation and the new control word.
\<close>

definition kpt_alter :: "address \<Rightarrow> u64 \<Rightarrow> u64 \<Rightarrow> bool \<times> u64 \<times> u64" where
  "kpt_alter new_address expected_cas control =
     (let updated = kpt_set_prev_address new_address expected_cas
      in compare_exchange control expected_cas updated)"

lemma kpt_control_fields:
  assumes "unat off < 2 ^ 15" "unat prev < 2 ^ 48" "unat mode < 2"
  shows "kpt_mode (kpt_control mode off prev) = mode"
    "kpt_ptr_offset (kpt_control mode off prev) = ucast off"
    "kpt_prev_address (kpt_control mode off prev) = prev"
proof -
  have "take_bit 1 mode = mode" using assms(3) by (intro take_bit_of_small) simp
  then show "kpt_mode (kpt_control mode off prev) = mode" by (simp add: packed packed_simps)
  have "take_bit 15 (ucast off :: u64) = ucast off" using assms(1) by (intro take_bit_of_small) simp
  then show "kpt_ptr_offset (kpt_control mode off prev) = ucast off" by (simp add: packed packed_simps)
  have "take_bit 48 prev = prev" using assms(2) by (rule take_bit_of_small)
  then show "kpt_prev_address (kpt_control mode off prev) = prev" by (simp add: packed packed_simps)
qed

lemma kpt_set_prev_fields:
  "kpt_mode (kpt_set_prev_address a c) = kpt_mode c"
  "kpt_ptr_offset (kpt_set_prev_address a c) = kpt_ptr_offset c"
  "unat a < 2 ^ 48 \<Longrightarrow> kpt_prev_address (kpt_set_prev_address a c) = a"
  by (simp_all add: packed packed_simps take_bit_of_small)

lemma kpt_prev_address_less: "unat (kpt_prev_address c) < 2 ^ 48"
  unfolding kpt_prev_address_def by (rule unat_bf_get_less) simp

text \<open>A key pointer reads back the PSF and the value it was built from.\<close>

lemma KeyPointer_general_fields:
  assumes "unat psf < 2 ^ 14" "unat off < 2 ^ 25" "unat sz < 2 ^ 25"
  shows "kpt_general_psf_id (kp_value (KeyPointer_general i p psf off sz)) = psf"
    "kpt_value_offset (kp_value (KeyPointer_general i p psf off sz)) = off"
    "kpt_value_size (kp_value (KeyPointer_general i p psf off sz)) = sz"
proof -
  have "take_bit 14 (ucast psf :: u64) = ucast psf" using assms(1) by (intro take_bit_of_small) simp
  then show "kpt_general_psf_id (kp_value (KeyPointer_general i p psf off sz)) = psf"
    by (simp add: packed packed_simps)
  show "kpt_value_offset (kp_value (KeyPointer_general i p psf off sz)) = off"
    "kpt_value_size (kp_value (KeyPointer_general i p psf off sz)) = sz"
    by (simp_all add: packed packed_simps take_bit_ucast_32 [OF assms(2)] take_bit_ucast_32 [OF assms(3)])
qed

lemma KeyPointer_inline_fields:
  "kpt_inline_psf_id (kp_value (KeyPointer_inline i p psf v)) = psf"
  "kpt_inline_value (kp_value (KeyPointer_inline i p psf v)) = v"
  using unat_u32_less [of psf] unat_u32_less [of v]
  by (simp_all add: packed packed_simps take_bit_ucast_32)


section \<open>The layout of a record\<close>

definition sizeof_RecordInfo :: u64 where "sizeof_RecordInfo = 8"
definition sizeof_KeyPointer :: u64 where "sizeof_KeyPointer = 16"

definition Record_size :: "u32 \<Rightarrow> u32 \<Rightarrow> u32 \<Rightarrow> u32" where
  "Record_size ptr_cnt payload_size optional_size =
     ucast (pad_alignment
       (sizeof_RecordInfo + sizeof_KeyPointer * ucast ptr_cnt + ucast payload_size + ucast optional_size)
       8)"

definition record_size :: "record_info \<Rightarrow> u32" where
  "record_size header =
     Record_size (ri_ptr_cnt header) (ri_payload_size header) (ri_optional_size header)"

text \<open>Offsets from the start of a record: its key pointers and its payload.\<close>

definition Record_ptr_offset :: "u16 \<Rightarrow> u32" where
  "Record_ptr_offset offset = ucast (sizeof_RecordInfo + sizeof_KeyPointer * ucast offset)"

definition Record_get_ptr :: "address \<Rightarrow> u32 \<Rightarrow> address" where
  "Record_get_ptr rec offset = rec + sizeof_RecordInfo + ucast offset * sizeof_KeyPointer"

definition Record_payload :: "address \<Rightarrow> record_info \<Rightarrow> address" where
  "Record_payload rec header = rec + sizeof_RecordInfo + ucast (ri_ptr_cnt header) * sizeof_KeyPointer"

definition kpt_get_record :: "address \<Rightarrow> u64 \<Rightarrow> address" where
  "kpt_get_record kpt control = kpt - sizeof_KeyPointer * kpt_ptr_offset control - sizeof_RecordInfo"

text \<open>From any key pointer of a record one gets back to its header.\<close>

lemma kpt_get_record_get_ptr:
  assumes "kpt_ptr_offset control = ucast i"
  shows "kpt_get_record (Record_get_ptr rec i) control = rec"
  by (simp add: kpt_get_record_def Record_get_ptr_def assms)

lemma unat_Record_size:
  assumes "unat ptr_cnt < 2 ^ 15" "unat payload_size < 2 ^ 25" "unat optional_size < 2 ^ 25"
  shows "unat (Record_size ptr_cnt payload_size optional_size) =
    (8 + 16 * unat ptr_cnt + unat payload_size + unat optional_size + 7) div 8 * 8"
proof -
  let ?c = "unat ptr_cnt" and ?p = "unat payload_size" and ?o = "unat optional_size"
  let ?t = "sizeof_RecordInfo + sizeof_KeyPointer * ucast ptr_cnt + ucast payload_size +
    ucast optional_size"
  have m: "unat (16 * (ucast ptr_cnt :: u64)) = 16 * ?c"
    using assms(1) by (simp add: unat_word_ariths)
  have t: "unat ?t = 8 + 16 * ?c + ?p + ?o"
    using assms m by (simp add: sizeof_RecordInfo_def sizeof_KeyPointer_def unat_word_ariths)
  have pad: "unat (pad_alignment ?t (2 ^ 3)) = (unat ?t + 7) div 2 ^ 3 * 2 ^ 3"
    using assms t by (subst unat_pad_alignment) simp_all
  have "(8 + 16 * ?c + ?p + ?o + 7) div 8 * 8 < 2 ^ 32" using assms by simp
  then show ?thesis using pad t by (simp add: Record_size_def unat_ucast_64_32)
qed

end
