(* ===== verification/System_State.thy ===== *)
theory System_State
  imports Prelude
begin

text \<open>
  \<open>phase.h\<close> and \<open>state_transitions.h\<close>: the actions of the store (checkpoint, recovery,
  garbage collection, index growth, parser shift), the phases each runs through and the
  transition function \<open>GetNextState\<close>. The 64-bit control word is modelled by the record of
  its fields; \<open>ss_control\<close> is the packing, which is injective, so comparing control words
  (as the compare-and-swap does) is comparing the records. The state \<open>UINT64_MAX\<close> that the
  source returns after a failed assertion is the value None.
\<close>

datatype action =
  NoAction | CheckpointFull | CheckpointIndex | CheckpointHybridLog | Recover_Action | GC
  | GrowIndex | ParserShift

datatype phase =
  PREP_INDEX_CHKPT | INDEX_CHKPT | PREPARE | IN_PROGRESS | WAIT_PENDING | WAIT_FLUSH | REST
  | PERSISTENCE_CALLBACK | GC_IO_PENDING | GC_IN_PROGRESS | GROW_PREPARE | GROW_IN_PROGRESS
  | PS_PENDING | INVALID

record system_state =
  ss_action :: action
  ss_phase :: phase
  ss_version :: u32

definition SystemState :: "action \<Rightarrow> phase \<Rightarrow> u32 \<Rightarrow> system_state" where
  [simp]: "SystemState a p v = \<lparr>ss_action = a, ss_phase = p, ss_version = v\<rparr>"

fun GetNextState :: "system_state \<Rightarrow> system_state option" where
  "GetNextState s =
     (let v = ss_version s in
      case ss_action s of
        CheckpointFull \<Rightarrow>
          (case ss_phase s of
             REST \<Rightarrow> Some (SystemState CheckpointFull PREP_INDEX_CHKPT v)
           | PREP_INDEX_CHKPT \<Rightarrow> Some (SystemState CheckpointFull INDEX_CHKPT v)
           | INDEX_CHKPT \<Rightarrow> Some (SystemState CheckpointFull PREPARE v)
           | PREPARE \<Rightarrow> Some (SystemState CheckpointFull IN_PROGRESS (v + 1))
           | IN_PROGRESS \<Rightarrow> Some (SystemState CheckpointFull WAIT_PENDING v)
           | WAIT_PENDING \<Rightarrow> Some (SystemState CheckpointFull WAIT_FLUSH v)
           | WAIT_FLUSH \<Rightarrow> Some (SystemState CheckpointFull PERSISTENCE_CALLBACK v)
           | PERSISTENCE_CALLBACK \<Rightarrow> Some (SystemState CheckpointFull REST v)
           | _ \<Rightarrow> None)
      | CheckpointIndex \<Rightarrow>
          (case ss_phase s of
             REST \<Rightarrow> Some (SystemState CheckpointIndex PREP_INDEX_CHKPT v)
           | PREP_INDEX_CHKPT \<Rightarrow> Some (SystemState CheckpointIndex INDEX_CHKPT v)
           | INDEX_CHKPT \<Rightarrow> Some (SystemState CheckpointIndex REST v)
           | _ \<Rightarrow> None)
      | CheckpointHybridLog \<Rightarrow>
          (case ss_phase s of
             REST \<Rightarrow> Some (SystemState CheckpointHybridLog PREPARE v)
           | PREPARE \<Rightarrow> Some (SystemState CheckpointHybridLog IN_PROGRESS (v + 1))
           | IN_PROGRESS \<Rightarrow> Some (SystemState CheckpointHybridLog WAIT_PENDING v)
           | WAIT_PENDING \<Rightarrow> Some (SystemState CheckpointHybridLog WAIT_FLUSH v)
           | WAIT_FLUSH \<Rightarrow> Some (SystemState CheckpointHybridLog PERSISTENCE_CALLBACK v)
           | PERSISTENCE_CALLBACK \<Rightarrow> Some (SystemState CheckpointHybridLog REST v)
           | _ \<Rightarrow> None)
      | GC \<Rightarrow>
          (case ss_phase s of
             REST \<Rightarrow> Some (SystemState GC GC_IO_PENDING v)
           | GC_IO_PENDING \<Rightarrow> Some (SystemState GC GC_IN_PROGRESS v)
           | GC_IN_PROGRESS \<Rightarrow> Some (SystemState GC REST v)
           | _ \<Rightarrow> None)
      | GrowIndex \<Rightarrow>
          (case ss_phase s of
             REST \<Rightarrow> Some (SystemState GrowIndex GROW_PREPARE v)
           | GROW_PREPARE \<Rightarrow> Some (SystemState GrowIndex GROW_IN_PROGRESS v)
           | GROW_IN_PROGRESS \<Rightarrow> Some (SystemState GrowIndex REST v)
           | _ \<Rightarrow> None)
      | ParserShift \<Rightarrow>
          (case ss_phase s of
             REST \<Rightarrow> Some (SystemState ParserShift PS_PENDING v)
           | PS_PENDING \<Rightarrow> Some (SystemState ParserShift REST v)
           | _ \<Rightarrow> None)
      | _ \<Rightarrow> None)"

declare GetNextState.simps [simp del]

text \<open>\<open>AtomicSystemState::compare_exchange_strong\<close>.\<close>

definition ss_compare_exchange_strong ::
  "system_state \<Rightarrow> system_state \<Rightarrow> system_state \<Rightarrow> bool \<times> system_state \<times> system_state" where
  "ss_compare_exchange_strong cell expected desired = compare_exchange cell expected desired"


section \<open>The packed representation\<close>

fun action_code :: "action \<Rightarrow> u64" where
  "action_code NoAction = 0" | "action_code CheckpointFull = 1"
| "action_code CheckpointIndex = 2" | "action_code CheckpointHybridLog = 3"
| "action_code Recover_Action = 4" | "action_code GC = 5"
| "action_code GrowIndex = 6" | "action_code ParserShift = 7"

fun phase_code :: "phase \<Rightarrow> u64" where
  "phase_code PREP_INDEX_CHKPT = 0" | "phase_code INDEX_CHKPT = 1" | "phase_code PREPARE = 2"
| "phase_code IN_PROGRESS = 3" | "phase_code WAIT_PENDING = 4" | "phase_code WAIT_FLUSH = 5"
| "phase_code REST = 6" | "phase_code PERSISTENCE_CALLBACK = 7" | "phase_code GC_IO_PENDING = 8"
| "phase_code GC_IN_PROGRESS = 9" | "phase_code GROW_PREPARE = 10"
| "phase_code GROW_IN_PROGRESS = 11" | "phase_code PS_PENDING = 12" | "phase_code INVALID = 13"

text \<open>One byte of action, one of phase, two of padding, four of version.\<close>

definition ss_control :: "system_state \<Rightarrow> u64" where
  "ss_control s = bf_put 0 8 (action_code (ss_action s))
     (bf_put 8 8 (phase_code (ss_phase s)) (bf_put 32 32 (ucast (ss_version s)) 0))"

lemma action_code_inj: "action_code a = action_code b \<longleftrightarrow> a = b"
  by (cases a; cases b; simp)

lemma phase_code_inj: "phase_code p = phase_code q \<longleftrightarrow> p = q"
  by (cases p; cases q; simp)

lemma action_code_small: "take_bit 8 (action_code a) = action_code a"
  by (cases a) (simp_all add: take_bit_eq_mod)

lemma phase_code_small: "take_bit 8 (phase_code p) = phase_code p"
  by (cases p) (simp_all add: take_bit_eq_mod)

lemma ss_control_fields:
  "bf_get 0 8 (ss_control s) = action_code (ss_action s)"
  "bf_get 8 8 (ss_control s) = phase_code (ss_phase s)"
  "bf_get 32 32 (ss_control s) = ucast (ss_version s)"
proof -
  show "bf_get 0 8 (ss_control s) = action_code (ss_action s)"
    "bf_get 8 8 (ss_control s) = phase_code (ss_phase s)"
    by (simp_all add: ss_control_def packed_simps action_code_small phase_code_small)
  have "take_bit 32 (ucast (ss_version s) :: u64) = ucast (ss_version s)"
    by (rule bit_word_eqI) (auto simp: bit_take_bit_iff bit_ucast_iff dest: bit_imp_le_length)
  then show "bf_get 32 32 (ss_control s) = ucast (ss_version s)"
    by (simp add: ss_control_def packed_simps)
qed

lemma ss_control_inj: "ss_control s = ss_control t \<longleftrightarrow> s = (t :: system_state)"
proof
  assume eq: "ss_control s = ss_control t"
  have "ss_action s = ss_action t" "ss_phase s = ss_phase t"
    using ss_control_fields(1,2) [of s] ss_control_fields(1,2) [of t] eq
    by (simp_all add: action_code_inj phase_code_inj)
  moreover have "(ucast (ss_version s) :: u64) = ucast (ss_version t)"
    using ss_control_fields(3) [of s] ss_control_fields(3) [of t] eq by simp
  then have "ss_version s = ss_version t"
    by (metis ucast_ucast_32_64)
  ultimately show "s = t" by simp
qed simp


section \<open>The cycle of an action\<close>

text \<open>The phases an action runs through after it leaves REST, in order.\<close>

fun phases_of :: "action \<Rightarrow> phase list" where
  "phases_of CheckpointFull =
     [PREP_INDEX_CHKPT, INDEX_CHKPT, PREPARE, IN_PROGRESS, WAIT_PENDING, WAIT_FLUSH,
      PERSISTENCE_CALLBACK]"
| "phases_of CheckpointIndex = [PREP_INDEX_CHKPT, INDEX_CHKPT]"
| "phases_of CheckpointHybridLog =
     [PREPARE, IN_PROGRESS, WAIT_PENDING, WAIT_FLUSH, PERSISTENCE_CALLBACK]"
| "phases_of GC = [GC_IO_PENDING, GC_IN_PROGRESS]"
| "phases_of GrowIndex = [GROW_PREPARE, GROW_IN_PROGRESS]"
| "phases_of ParserShift = [PS_PENDING]"
| "phases_of NoAction = []"
| "phases_of Recover_Action = []"

text \<open>Running \<open>GetNextState\<close> a number of times.\<close>

fun next_states :: "nat \<Rightarrow> system_state \<Rightarrow> system_state option" where
  "next_states 0 s = Some s"
| "next_states (Suc n) s =
     (case GetNextState s of None \<Rightarrow> None | Some t \<Rightarrow> next_states n t)"

lemma GetNextState_defined_iff:
  "GetNextState s \<noteq> None \<longleftrightarrow>
   phases_of (ss_action s) \<noteq> [] \<and>
   (ss_phase s = REST \<or> ss_phase s \<in> set (phases_of (ss_action s)))"
  by (cases "ss_action s"; cases "ss_phase s"; simp add: GetNextState.simps Let_def)

lemma GetNextState_action: "GetNextState s = Some t \<Longrightarrow> ss_action t = ss_action s"
  by (cases "ss_action s"; cases "ss_phase s"; auto simp: GetNextState.simps Let_def)

lemma GetNextState_version:
  "GetNextState s = Some t \<Longrightarrow>
   ss_version t = ss_version s + (if ss_phase s = PREPARE then 1 else 0)"
  by (cases "ss_action s"; cases "ss_phase s"; auto simp: GetNextState.simps Let_def)

lemma GetNextState_inj_phase:
  assumes "GetNextState s = Some t" "GetNextState s' = Some t'"
    "ss_action s = ss_action s'" "ss_phase t = ss_phase t'"
  shows "ss_phase s = ss_phase s'"
  using assms
  by (cases "ss_action s'"; cases "ss_phase s"; cases "ss_phase s'";
      auto simp: GetNextState.simps Let_def)

end
