(* ===== verification/Threads.thy ===== *)
theory Threads
  imports Prelude
begin

text \<open>
  \<open>thread.h\<close>: the table of the 96 thread identifiers. A thread takes a free identifier when
  it starts and releases it when it exits.
\<close>

definition kMaxNumThreads :: nat where "kMaxNumThreads = 96"

record thread_table =
  next_index :: u32
  id_used :: "bool list"

datatype thread_error = TooManyThreads

definition Thread_init :: thread_table where
  "Thread_init = \<lparr>next_index = 0, id_used = replicate kMaxNumThreads False\<rparr>"

text \<open>
  The probing loop of \<open>ReserveEntry\<close>. The bounds are 32-bit integers: the end of the probe
  sequence wraps around when the start is close to the maximum.
\<close>

function reserve_loop :: "bool list \<Rightarrow> u32 \<Rightarrow> u32 \<Rightarrow> thread_error + (nat \<times> bool list)" where
  "reserve_loop used i e =
     (if i < e
      then let slot = unat i mod kMaxNumThreads in
           if \<not> used ! slot then Inr (slot, used[slot := True])
           else reserve_loop used (i + 1) e
      else Inl TooManyThreads)"
  by pat_completeness auto
termination
proof (relation "measure (\<lambda>(used, i, e). unat e - unat i)", goal_cases)
  case (2 used i e slot)
  then have "unat i < unat e" by (simp add: word_less_nat_alt)
  then have "unat (i + 1) = Suc (unat i)" using unat_plus_one [of i e] by (simp add: word_less_nat_alt)
  with \<open>unat i < unat e\<close> show ?case by simp
qed simp

declare reserve_loop.simps [simp del]

definition ReserveEntry :: "thread_table \<Rightarrow> thread_error + (nat \<times> thread_table)" where
  "ReserveEntry t =
     (let start = next_index t;
          t = t\<lparr>next_index := start + 1\<rparr>;
          e = start + word_of_nat (2 * kMaxNumThreads)
      in case reserve_loop (id_used t) start e of
           Inl err \<Rightarrow> Inl err
         | Inr (i, used) \<Rightarrow> Inr (i, t\<lparr>id_used := used\<rparr>))"

definition ReleaseEntry :: "nat \<Rightarrow> thread_table \<Rightarrow> thread_table" where
  "ReleaseEntry i t = t\<lparr>id_used := (id_used t)[i := False]\<rparr>"

definition thread_table_ok :: "thread_table \<Rightarrow> bool" where
  "thread_table_ok t \<longleftrightarrow> length (id_used t) = kMaxNumThreads"

lemma reserve_loop_Inr:
  assumes "reserve_loop used i e = Inr (slot, used')" "length used = kMaxNumThreads"
  shows "slot < kMaxNumThreads \<and> \<not> used ! slot \<and> used' = used[slot := True]"
  using assms
proof (induction used i e rule: reserve_loop.induct)
  case (1 used i e)
  have "unat i mod kMaxNumThreads < kMaxNumThreads" by (simp add: kMaxNumThreads_def)
  with 1 show ?case
    by (auto simp: reserve_loop.simps [of used i e] Let_def split: if_splits)
qed

lemma reserve_loop_Inl:
  assumes "reserve_loop used i e = Inl err" "unat i \<le> n" "n < unat e"
  shows "used ! (n mod kMaxNumThreads)"
  using assms
proof (induction used i e rule: reserve_loop.induct)
  case (1 used i e)
  have lt: "i < e" using "1.prems" by (simp add: word_less_nat_alt)
  then have u: "used ! (unat i mod kMaxNumThreads)"
    using "1.prems"(1) by (subst (asm) reserve_loop.simps) (auto simp: Let_def split: if_splits)
  show ?case
  proof (cases "unat i = n")
    case True
    with u show ?thesis by simp
  next
    case False
    have "unat (i + 1) = Suc (unat i)"
      using lt by (rule unat_plus_one)
    then have "unat (i + 1) \<le> n" using False "1.prems"(2) by simp
    moreover have "reserve_loop used (i + 1) e = Inl err"
      using "1.prems"(1) lt u by (subst (asm) reserve_loop.simps) (simp add: Let_def)
    ultimately show ?thesis using "1.IH" lt u "1.prems"(3) by blast
  qed
qed

text \<open>
  Reserving hands out a free identifier below the maximum and marks it, and fails only when
  all identifiers are taken (the start index being far enough from the 32-bit limit for the
  probe sequence not to wrap).
\<close>

lemma ReserveEntry_Inr:
  assumes "thread_table_ok t" "ReserveEntry t = Inr (i, t')"
  shows "i < kMaxNumThreads" "\<not> id_used t ! i" "id_used t' = (id_used t)[i := True]"
    "thread_table_ok t'"
proof -
  from assms obtain used where
    r: "reserve_loop (id_used t) (next_index t)
      (next_index t + word_of_nat (2 * kMaxNumThreads)) = Inr (i, used)"
    and t': "id_used t' = used"
    by (auto simp: ReserveEntry_def Let_def split: sum.splits)
  have *: "i < kMaxNumThreads \<and> \<not> id_used t ! i \<and> used = (id_used t)[i := True]"
    using reserve_loop_Inr [OF r] assms(1) by (simp add: thread_table_ok_def)
  then show "i < kMaxNumThreads" "\<not> id_used t ! i" "id_used t' = (id_used t)[i := True]"
    using t' by simp_all
  then show "thread_table_ok t'" using assms(1) by (simp add: thread_table_ok_def)
qed

lemma ReserveEntry_Inl:
  assumes "thread_table_ok t" "unat (next_index t) < 2 ^ 32 - 192"
    and r: "ReserveEntry t = Inl err" and j: "j < kMaxNumThreads"
  shows "id_used t ! j"
proof -
  let ?s = "unat (next_index t)"
  let ?e = "next_index t + word_of_nat (2 * kMaxNumThreads)"
  have e: "unat ?e = ?s + 192"
    using assms(2) by (simp add: kMaxNumThreads_def unat_word_ariths)
  have l: "reserve_loop (id_used t) (next_index t) ?e = Inl err"
    using r by (auto simp: ReserveEntry_def Let_def split: sum.splits)
  define n where "n = ?s + (j + 96 - ?s mod 96) mod 96"
  have n: "?s \<le> n" "n < ?s + 192" by (simp_all add: n_def less_trans [of _ 96])
  have arith: "(m + (j + 96 - m mod 96) mod 96) mod 96 = j" if "j < 96" for m :: nat
  proof -
    define r where "r = m mod 96"
    have "r < 96" by (simp add: r_def)
    then have "(j + 96 - r) mod 96 = (if r \<le> j then j - r else j + 96 - r)"
      using that by (auto simp: mod_if)
    moreover have "m = 96 * (m div 96) + r" by (simp add: r_def)
    ultimately have "m + (j + 96 - r) mod 96 =
        96 * (m div 96) + (if r \<le> j then j else j + 96)"
      using \<open>r < 96\<close> by auto
    then show ?thesis using that by (simp add: r_def [symmetric])
  qed
  then have "n mod kMaxNumThreads = j" using j by (simp add: n_def kMaxNumThreads_def)
  then show ?thesis using reserve_loop_Inl [OF l n(1)] n(2) e by simp
qed

end
