(* ===== verification/Light_Epoch.thy ===== *)
theory Light_Epoch
  imports System_State Threads
begin

text \<open>
  \<open>light_epoch.h\<close>: the epoch table of the threads, the drain list of deferred actions and the
  computation of the epoch that is safe to reclaim. An action is an element of a type
  parameter (the callback together with its context); what it does is the argument \<open>act\<close>, a
  function on the rest of the world, which is the part of the state that extends the record
  \<open>light_epoch\<close>: no callback of the program touches the epoch structures. The thread
  identifier \<open>Thread::id()\<close> is an argument. Every operation is one atomic step here; the
  interleaving of the accesses to one slot of the drain list is in \<open>Drain_Slot\<close>.
\<close>

section \<open>State\<close>

record epoch_entry =
  local_current_epoch :: u64
  reentrant :: u32
  phase_finished :: phase

definition Entry :: epoch_entry where
  "Entry = \<lparr>local_current_epoch = 0, reentrant = 0, phase_finished = REST\<rparr>"

definition kFree :: u64 where "kFree = - 1"
definition kLocked :: u64 where "kLocked = - 1 - 1"

abbreviation (input) kUnprotected :: u64 where "kUnprotected \<equiv> 0"

definition kDrainListSize :: nat where "kDrainListSize = 256"

record 'a epoch_action =
  ea_epoch :: u64
  ea_callback :: "'a option"

definition EpochAction :: "'a epoch_action" where
  "EpochAction = \<lparr>ea_epoch = kFree, ea_callback = None\<rparr>"

record 'a light_epoch =
  le_table :: "epoch_entry list"
  num_entries :: nat
  drain_list :: "'a epoch_action list"
  drain_count :: u32
  current_epoch :: u64
  safe_to_reclaim_epoch :: u64

definition LightEpoch_Initialize ::
  "nat \<Rightarrow> ('a, 'z) light_epoch_scheme \<Rightarrow> ('a, 'z) light_epoch_scheme" where
  "LightEpoch_Initialize sz s =
     s\<lparr>le_table := replicate (sz + 2) Entry, num_entries := sz,
       drain_list := replicate kDrainListSize EpochAction, drain_count := 0,
       current_epoch := 1, safe_to_reclaim_epoch := 0\<rparr>"

abbreviation local_epoch :: "('a, 'z) light_epoch_scheme \<Rightarrow> nat \<Rightarrow> u64" where
  "local_epoch s i \<equiv> local_current_epoch (le_table s ! i)"


section \<open>The slots of the drain list\<close>

definition IsFree :: "'a epoch_action \<Rightarrow> bool" where
  "IsFree sl \<longleftrightarrow> ea_epoch sl = kFree"

text \<open>
  Running the callback of a slot. A slot whose epoch is set has a callback (\<open>slot_ok\<close> below);
  without one the source would call a null pointer.
\<close>

definition perform :: "('a \<Rightarrow> 'z \<Rightarrow> 'z) \<Rightarrow> 'a option \<Rightarrow> ('a, 'z) light_epoch_scheme \<Rightarrow>
    ('a, 'z) light_epoch_scheme" where
  "perform act cb s = (case cb of None \<Rightarrow> s | Some a \<Rightarrow> light_epoch.more_update (act a) s)"

definition TryPop :: "('a \<Rightarrow> 'z \<Rightarrow> 'z) \<Rightarrow> nat \<Rightarrow> u64 \<Rightarrow> ('a, 'z) light_epoch_scheme \<Rightarrow>
    bool \<times> ('a, 'z) light_epoch_scheme" where
  "TryPop act i expected_epoch s =
     (let sl = drain_list s ! i;
          (retval, _, locked) = compare_exchange (ea_epoch sl) expected_epoch kLocked
      in if retval
         then let callback = ea_callback sl;
                  sl = sl\<lparr>ea_epoch := locked, ea_callback := None\<rparr>;
                  sl = sl\<lparr>ea_epoch := kFree\<rparr>
              in (True, perform act callback (s\<lparr>drain_list := (drain_list s)[i := sl]\<rparr>))
         else (False, s))"

definition TryPush :: "nat \<Rightarrow> u64 \<Rightarrow> 'a \<Rightarrow> ('a, 'z) light_epoch_scheme \<Rightarrow>
    bool \<times> ('a, 'z) light_epoch_scheme" where
  "TryPush i prior_epoch new_callback s =
     (let sl = drain_list s ! i;
          (retval, _, locked) = compare_exchange (ea_epoch sl) kFree kLocked
      in if retval
         then let sl = sl\<lparr>ea_epoch := locked, ea_callback := Some new_callback\<rparr>;
                  sl = sl\<lparr>ea_epoch := prior_epoch\<rparr>
              in (True, s\<lparr>drain_list := (drain_list s)[i := sl]\<rparr>)
         else (False, s))"

definition TrySwap :: "('a \<Rightarrow> 'z \<Rightarrow> 'z) \<Rightarrow> nat \<Rightarrow> u64 \<Rightarrow> u64 \<Rightarrow> 'a \<Rightarrow>
    ('a, 'z) light_epoch_scheme \<Rightarrow> bool \<times> ('a, 'z) light_epoch_scheme" where
  "TrySwap act i expected_epoch prior_epoch new_callback s =
     (let sl = drain_list s ! i;
          (retval, _, locked) = compare_exchange (ea_epoch sl) expected_epoch kLocked
      in if retval
         then let existing_callback = ea_callback sl;
                  sl = sl\<lparr>ea_epoch := locked, ea_callback := Some new_callback\<rparr>;
                  sl = sl\<lparr>ea_epoch := prior_epoch\<rparr>
              in (True, perform act existing_callback (s\<lparr>drain_list := (drain_list s)[i := sl]\<rparr>))
         else (False, s))"


section \<open>Protection and draining\<close>

definition set_local_epoch :: "nat \<Rightarrow> u64 \<Rightarrow> ('a, 'z) light_epoch_scheme \<Rightarrow>
    ('a, 'z) light_epoch_scheme" where
  "set_local_epoch i e s =
     s\<lparr>le_table := (le_table s)[i := (le_table s ! i)\<lparr>local_current_epoch := e\<rparr>]\<rparr>"

definition Protect :: "nat \<Rightarrow> ('a, 'z) light_epoch_scheme \<Rightarrow> u64 \<times> ('a, 'z) light_epoch_scheme" where
  "Protect entry s =
     (let s = set_local_epoch entry (current_epoch s) s in (local_epoch s entry, s))"

definition ComputeNewSafeToReclaimEpoch ::
  "u64 \<Rightarrow> ('a, 'z) light_epoch_scheme \<Rightarrow> u64 \<times> ('a, 'z) light_epoch_scheme" where
  "ComputeNewSafeToReclaimEpoch cur s =
     (let oldest_ongoing_call =
            fold (\<lambda>index oldest.
                    let entry_epoch = local_epoch s index in
                    if entry_epoch \<noteq> kUnprotected \<and> entry_epoch < oldest then entry_epoch
                    else oldest)
              [1..<num_entries s + 1] cur;
          s = s\<lparr>safe_to_reclaim_epoch := oldest_ongoing_call - 1\<rparr>
      in (safe_to_reclaim_epoch s, s))"

fun drain_loop :: "('a \<Rightarrow> 'z \<Rightarrow> 'z) \<Rightarrow> nat list \<Rightarrow> ('a, 'z) light_epoch_scheme \<Rightarrow>
    ('a, 'z) light_epoch_scheme" where
  "drain_loop act [] s = s"
| "drain_loop act (idx # rest) s =
     (let trigger_epoch = ea_epoch (drain_list s ! idx) in
      if trigger_epoch \<le> safe_to_reclaim_epoch s
      then case TryPop act idx trigger_epoch s of
             (False, s) \<Rightarrow> drain_loop act rest s
           | (True, s) \<Rightarrow>
               let s = s\<lparr>drain_count := drain_count s - 1\<rparr> in
               if drain_count s = 0 then s else drain_loop act rest s
      else drain_loop act rest s)"

definition Drain :: "('a \<Rightarrow> 'z \<Rightarrow> 'z) \<Rightarrow> u64 \<Rightarrow> ('a, 'z) light_epoch_scheme \<Rightarrow>
    ('a, 'z) light_epoch_scheme" where
  "Drain act nextEpoch s =
     drain_loop act [0..<kDrainListSize] (snd (ComputeNewSafeToReclaimEpoch nextEpoch s))"

definition ProtectAndDrain :: "('a \<Rightarrow> 'z \<Rightarrow> 'z) \<Rightarrow> nat \<Rightarrow> ('a, 'z) light_epoch_scheme \<Rightarrow>
    u64 \<times> ('a, 'z) light_epoch_scheme" where
  "ProtectAndDrain act entry s =
     (let s = set_local_epoch entry (current_epoch s) s;
          s = (if drain_count s > 0 then Drain act (local_epoch s entry) s else s)
      in (local_epoch s entry, s))"

definition IsProtected :: "nat \<Rightarrow> ('a, 'z) light_epoch_scheme \<Rightarrow> bool" where
  "IsProtected entry s \<longleftrightarrow> local_epoch s entry \<noteq> kUnprotected"

definition Unprotect :: "nat \<Rightarrow> ('a, 'z) light_epoch_scheme \<Rightarrow> ('a, 'z) light_epoch_scheme" where
  "Unprotect entry s = set_local_epoch entry kUnprotected s"

definition set_reentrant :: "nat \<Rightarrow> u32 \<Rightarrow> ('a, 'z) light_epoch_scheme \<Rightarrow>
    ('a, 'z) light_epoch_scheme" where
  "set_reentrant i r s =
     s\<lparr>le_table := (le_table s)[i := (le_table s ! i)\<lparr>reentrant := r\<rparr>]\<rparr>"

definition ReentrantProtect :: "nat \<Rightarrow> ('a, 'z) light_epoch_scheme \<Rightarrow>
    u64 \<times> ('a, 'z) light_epoch_scheme" where
  "ReentrantProtect entry s =
     (if local_epoch s entry \<noteq> kUnprotected then (local_epoch s entry, s)
      else let s = set_local_epoch entry (current_epoch s) s;
               s = set_reentrant entry (reentrant (le_table s ! entry) + 1) s
           in (local_epoch s entry, s))"

definition ReentrantUnprotect :: "nat \<Rightarrow> ('a, 'z) light_epoch_scheme \<Rightarrow>
    ('a, 'z) light_epoch_scheme" where
  "ReentrantUnprotect entry s =
     (let s = set_reentrant entry (reentrant (le_table s ! entry) - 1) s in
      if reentrant (le_table s ! entry) = 0 then set_local_epoch entry kUnprotected s else s)"

definition BumpCurrentEpoch :: "('a \<Rightarrow> 'z \<Rightarrow> 'z) \<Rightarrow> ('a, 'z) light_epoch_scheme \<Rightarrow>
    u64 \<times> ('a, 'z) light_epoch_scheme" where
  "BumpCurrentEpoch act s =
     (let nextEpoch = current_epoch s + 1;
          s = s\<lparr>current_epoch := nextEpoch\<rparr>;
          s = (if drain_count s > 0 then Drain act nextEpoch s else s)
      in (nextEpoch, s))"

text \<open>
  The search for a slot that takes the new action goes round the drain list until a slot is
  free or holds an action that is ready; the value None is that it never stops (the counter
  of rounds only triggers a sleep and a message, and is left out).
\<close>

partial_function (option) bump_loop ::
  "('a \<Rightarrow> 'z \<Rightarrow> 'z) \<Rightarrow> u64 \<Rightarrow> 'a \<Rightarrow> nat \<Rightarrow> ('a, 'z) light_epoch_scheme \<Rightarrow>
    ('a, 'z) light_epoch_scheme option" where
  "bump_loop act prior_epoch callback i s =
     (let trigger_epoch = ea_epoch (drain_list s ! i);
          (stop, s) =
            (if trigger_epoch = kFree
             then case TryPush i prior_epoch callback s of
                    (True, s) \<Rightarrow> (True, s\<lparr>drain_count := drain_count s + 1\<rparr>)
                  | (False, s) \<Rightarrow> (False, s)
             else if trigger_epoch \<le> safe_to_reclaim_epoch s
             then TrySwap act i trigger_epoch prior_epoch callback s
             else (False, s))
      in if stop then Some s
         else bump_loop act prior_epoch callback
                (if i + 1 = kDrainListSize then 0 else i + 1) s)"

declare bump_loop.simps [code]

definition BumpCurrentEpoch_action :: "('a \<Rightarrow> 'z \<Rightarrow> 'z) \<Rightarrow> 'a \<Rightarrow> ('a, 'z) light_epoch_scheme \<Rightarrow>
    (u64 \<times> ('a, 'z) light_epoch_scheme) option" where
  "BumpCurrentEpoch_action act callback s =
     (let (next_epoch, s) = BumpCurrentEpoch act s;
          prior_epoch = next_epoch - 1
      in case bump_loop act prior_epoch callback 0 s of
           None \<Rightarrow> None
         | Some s \<Rightarrow> Some (prior_epoch + 1, s))"

text \<open>
  \<open>SpinWaitForSafeToReclaim\<close>: the loop recomputes from the same table, so in a sequential
  run the first iteration decides whether it ends.
\<close>

partial_function (option) SpinWaitForSafeToReclaim :: "u64 \<Rightarrow> u64 \<Rightarrow>
    ('a, 'z) light_epoch_scheme \<Rightarrow> ('a, 'z) light_epoch_scheme option" where
  "SpinWaitForSafeToReclaim cur safe s =
     (let s = snd (ComputeNewSafeToReclaimEpoch cur s) in
      if safe > safe_to_reclaim_epoch s then SpinWaitForSafeToReclaim cur safe s else Some s)"

declare SpinWaitForSafeToReclaim.simps [code]

definition IsSafeToReclaim :: "u64 \<Rightarrow> ('a, 'z) light_epoch_scheme \<Rightarrow> bool" where
  "IsSafeToReclaim e s \<longleftrightarrow> e \<le> safe_to_reclaim_epoch s"


section \<open>Phases of the threads\<close>

definition set_phase_finished :: "nat \<Rightarrow> phase \<Rightarrow> ('a, 'z) light_epoch_scheme \<Rightarrow>
    ('a, 'z) light_epoch_scheme" where
  "set_phase_finished i p s =
     s\<lparr>le_table := (le_table s)[i := (le_table s ! i)\<lparr>phase_finished := p\<rparr>]\<rparr>"

definition ResetPhaseFinished :: "('a, 'z) light_epoch_scheme \<Rightarrow> ('a, 'z) light_epoch_scheme" where
  "ResetPhaseFinished s = fold (\<lambda>idx s. set_phase_finished idx REST s) [1..<num_entries s + 1] s"

definition FinishThreadPhase :: "nat \<Rightarrow> phase \<Rightarrow> ('a, 'z) light_epoch_scheme \<Rightarrow>
    bool \<times> ('a, 'z) light_epoch_scheme" where
  "FinishThreadPhase entry p s =
     (let s = set_phase_finished entry p s in
      (list_all (\<lambda>idx. \<not> (local_epoch s idx \<noteq> 0 \<and> phase_finished (le_table s ! idx) \<noteq> p))
         [1..<num_entries s + 1], s))"

definition HasThreadFinishedPhase :: "nat \<Rightarrow> phase \<Rightarrow> ('a, 'z) light_epoch_scheme \<Rightarrow> bool" where
  "HasThreadFinishedPhase entry p s \<longleftrightarrow> phase_finished (le_table s ! entry) = p"


section \<open>Well-formed epoch states\<close>

text \<open>
  A slot is free, or holds an action with the epoch it waits for, which is older than the
  current one. The drain count is the number of occupied slots; the epochs stay below the two
  reserved values; and every thread that the scans look at and that is protected is at an
  epoch that is not safe to reclaim.
\<close>

definition slot_ok :: "u64 \<Rightarrow> 'a epoch_action \<Rightarrow> bool" where
  "slot_ok cur sl \<longleftrightarrow> (ea_epoch sl = kFree \<and> ea_callback sl = None) \<or>
     (ea_epoch sl < cur \<and> ea_callback sl \<noteq> None)"

definition occupied :: "'a epoch_action \<Rightarrow> bool" where
  "occupied sl \<longleftrightarrow> ea_epoch sl \<noteq> kFree"

definition drain_ok :: "('a, 'z) light_epoch_scheme \<Rightarrow> bool" where
  "drain_ok s \<longleftrightarrow>
     length (drain_list s) = kDrainListSize \<and>
     list_all (slot_ok (current_epoch s)) (drain_list s) \<and>
     unat (drain_count s) = length (filter occupied (drain_list s))"

definition table_ok :: "('a, 'z) light_epoch_scheme \<Rightarrow> bool" where
  "table_ok s \<longleftrightarrow>
     length (le_table s) = num_entries s + 2 \<and>
     current_epoch s < kLocked \<and> safe_to_reclaim_epoch s < current_epoch s \<and>
     list_all (\<lambda>i. local_epoch s i \<noteq> kUnprotected \<longrightarrow>
       safe_to_reclaim_epoch s < local_epoch s i \<and> local_epoch s i \<le> current_epoch s)
       [1..<num_entries s + 1]"

definition epoch_ok :: "('a, 'z) light_epoch_scheme \<Rightarrow> bool" where
  "epoch_ok s \<longleftrightarrow> drain_ok s \<and> table_ok s"

lemma kLocked_less_kFree: "kLocked < kFree"
  by (simp add: kLocked_def kFree_def)

lemma not_kFree_le: "x < c \<Longrightarrow> c < kLocked \<Longrightarrow> \<not> kFree \<le> x"
  using kLocked_less_kFree by (meson less_trans not_less)

lemma slot_ok_mono: "slot_ok c sl \<Longrightarrow> c \<le> c' \<Longrightarrow> slot_ok c' sl"
  by (auto simp: slot_ok_def)

lemma slot_ok_EpochAction [simp]: "slot_ok c EpochAction"
  by (simp add: slot_ok_def EpochAction_def)

lemma occupied_EpochAction [simp]: "\<not> occupied EpochAction"
  by (simp add: occupied_def EpochAction_def)

lemma perform_None [simp]: "perform act None s = s"
  by (simp add: perform_def)

lemma perform_Some: "perform act (Some a) s = light_epoch.more_update (act a) s"
  by (simp add: perform_def)

lemma perform_fields [simp]:
  "le_table (perform act cb s) = le_table s"
  "num_entries (perform act cb s) = num_entries s"
  "drain_list (perform act cb s) = drain_list s"
  "drain_count (perform act cb s) = drain_count s"
  "current_epoch (perform act cb s) = current_epoch s"
  "safe_to_reclaim_epoch (perform act cb s) = safe_to_reclaim_epoch s"
  by (simp_all add: perform_def split: option.split)

lemma LightEpoch_Initialize_ok: "epoch_ok (LightEpoch_Initialize n s)"
proof -
  have "local_current_epoch (replicate (n + 2) Entry ! i) = 0" if "i < n + 2" for i
    using that by (simp only: nth_replicate) (simp add: Entry_def)
  moreover have "1 < kLocked" by (simp add: kLocked_def word_less_nat_alt)
  ultimately show ?thesis
    by (auto simp: epoch_ok_def drain_ok_def table_ok_def LightEpoch_Initialize_def list_all_iff
        simp del: upt_Suc replicate_Suc add_2_eq_Suc')
qed


section \<open>The safe epoch\<close>

lemma oldest_fold:
  fixes f :: "nat \<Rightarrow> u64" and cur :: u64
  defines "r ns c \<equiv> fold (\<lambda>i old. if f i \<noteq> 0 \<and> f i < old then f i else old) ns c"
  shows "r ns cur \<le> cur" "i \<in> set ns \<Longrightarrow> f i \<noteq> 0 \<Longrightarrow> r ns cur \<le> f i"
    "r ns cur = cur \<or> (\<exists>i \<in> set ns. f i \<noteq> 0 \<and> r ns cur = f i)"
proof -
  have "r ns cur \<le> cur \<and> (\<forall>i \<in> set ns. f i \<noteq> 0 \<longrightarrow> r ns cur \<le> f i) \<and>
      (r ns cur = cur \<or> (\<exists>i \<in> set ns. f i \<noteq> 0 \<and> r ns cur = f i))"
  proof (induction ns arbitrary: cur)
    case Nil
    then show ?case by (simp add: r_def)
  next
    case (Cons j js)
    show ?case using Cons [of "if f j \<noteq> 0 \<and> f j < cur then f j else cur"]
      by (auto simp: r_def split: if_splits)
  qed
  then show "r ns cur \<le> cur" "i \<in> set ns \<Longrightarrow> f i \<noteq> 0 \<Longrightarrow> r ns cur \<le> f i"
    "r ns cur = cur \<or> (\<exists>i \<in> set ns. f i \<noteq> 0 \<and> r ns cur = f i)" by blast+
qed

text \<open>
  The computed epoch is below the given epoch and below the epoch of every protected thread
  that is scanned, and it is the largest such: one more is the given epoch or the epoch of a
  protected thread.
\<close>

lemma ComputeNewSafe_fields [simp]:
  "le_table (snd (ComputeNewSafeToReclaimEpoch c s)) = le_table s"
  "num_entries (snd (ComputeNewSafeToReclaimEpoch c s)) = num_entries s"
  "drain_list (snd (ComputeNewSafeToReclaimEpoch c s)) = drain_list s"
  "drain_count (snd (ComputeNewSafeToReclaimEpoch c s)) = drain_count s"
  "current_epoch (snd (ComputeNewSafeToReclaimEpoch c s)) = current_epoch s"
  "light_epoch.more (snd (ComputeNewSafeToReclaimEpoch c s)) = light_epoch.more s"
  by (simp_all add: ComputeNewSafeToReclaimEpoch_def Let_def)

lemma ComputeNewSafe_spec:
  assumes "0 < c"
  shows "safe_to_reclaim_epoch (snd (ComputeNewSafeToReclaimEpoch c s)) < c"
    and "i \<in> {1..num_entries s} \<Longrightarrow> local_epoch s i \<noteq> 0 \<Longrightarrow>
      safe_to_reclaim_epoch (snd (ComputeNewSafeToReclaimEpoch c s)) < local_epoch s i"
    and "safe_to_reclaim_epoch (snd (ComputeNewSafeToReclaimEpoch c s)) + 1 \<in>
      insert c {local_epoch s i | i. i \<in> {1..num_entries s} \<and> local_epoch s i \<noteq> 0}"
proof -
  let ?r = "fold (\<lambda>i old. if local_epoch s i \<noteq> 0 \<and> local_epoch s i < old then local_epoch s i else old)
    [1..<num_entries s + 1] c"
  have safe: "safe_to_reclaim_epoch (snd (ComputeNewSafeToReclaimEpoch c s)) = ?r - 1"
    by (simp add: ComputeNewSafeToReclaimEpoch_def Let_def del: upt_Suc)
  note f = oldest_fold [where f = "local_epoch s" and ns = "[1..<num_entries s + 1]" and cur = c]
  have "?r \<noteq> 0" using f(3) assms by auto
  then have r1: "?r - 1 < x" if "?r \<le> x" for x
    using that measure_unat [of ?r] by (simp add: word_less_nat_alt word_le_nat_alt)
  show "safe_to_reclaim_epoch (snd (ComputeNewSafeToReclaimEpoch c s)) < c"
    unfolding safe by (rule r1 [OF f(1)])
  show "safe_to_reclaim_epoch (snd (ComputeNewSafeToReclaimEpoch c s)) < local_epoch s i"
    if "i \<in> {1..num_entries s}" "local_epoch s i \<noteq> 0"
    unfolding safe using that by (intro r1 f(2)) auto
  show "safe_to_reclaim_epoch (snd (ComputeNewSafeToReclaimEpoch c s)) + 1 \<in>
      insert c {local_epoch s i | i. i \<in> {1..num_entries s} \<and> local_epoch s i \<noteq> 0}"
    unfolding safe using f(3) by (auto simp del: upt_Suc)
qed

lemma ComputeNewSafe_ok:
  assumes "epoch_ok s" "0 < c" "c \<le> current_epoch s"
  shows "epoch_ok (snd (ComputeNewSafeToReclaimEpoch c s))"
  using assms ComputeNewSafe_spec [OF assms(2), where s = s]
  by (auto simp: epoch_ok_def drain_ok_def table_ok_def list_all_iff simp del: upt_Suc)


section \<open>Draining\<close>

text \<open>
  What draining is to do: the slots whose epoch is safe are emptied and their actions run, in
  the order of the slots.
\<close>

definition ready :: "u64 \<Rightarrow> 'a epoch_action \<Rightarrow> bool" where
  "ready safe sl \<longleftrightarrow> ea_epoch sl \<le> safe"

definition ready_actions :: "u64 \<Rightarrow> 'a epoch_action list \<Rightarrow> 'a list" where
  "ready_actions safe sls = map (\<lambda>sl. the (ea_callback sl)) (filter (ready safe) sls)"

definition clear_ready :: "u64 \<Rightarrow> 'a epoch_action list \<Rightarrow> 'a epoch_action list" where
  "clear_ready safe sls = map (\<lambda>sl. if ready safe sl then EpochAction else sl) sls"

definition drained :: "('a \<Rightarrow> 'z \<Rightarrow> 'z) \<Rightarrow> nat \<Rightarrow> ('a, 'z) light_epoch_scheme \<Rightarrow>
    ('a, 'z) light_epoch_scheme" where
  "drained act k s =
     (let safe = safe_to_reclaim_epoch s; sls = drop k (drain_list s) in
      light_epoch.more_update (fold act (ready_actions safe sls))
        (s\<lparr>drain_list := take k (drain_list s) @ clear_ready safe sls,
           drain_count := drain_count s - of_nat (length (ready_actions safe sls))\<rparr>))"

lemma ready_actions_Cons:
  "ready_actions safe (sl # sls) =
     (if ready safe sl then the (ea_callback sl) # ready_actions safe sls
      else ready_actions safe sls)"
  by (simp add: ready_actions_def)

lemma clear_ready_Cons:
  "clear_ready safe (sl # sls) =
     (if ready safe sl then EpochAction else sl) # clear_ready safe sls"
  by (simp add: clear_ready_def)

lemma ready_none:
  assumes "\<forall>sl \<in> set sls. \<not> occupied sl" "\<not> kFree \<le> safe"
  shows "ready_actions safe sls = []" "clear_ready safe sls = sls"
proof -
  have "\<not> ready safe sl" if "sl \<in> set sls" for sl
    using that assms by (auto simp: ready_def occupied_def)
  then show "ready_actions safe sls = []" "clear_ready safe sls = sls"
    by (simp_all add: ready_actions_def clear_ready_def filter_empty_conv map_idI)
qed

lemma drained_none:
  assumes "\<forall>sl \<in> set (drain_list s). \<not> occupied sl" "\<not> kFree \<le> safe_to_reclaim_epoch s"
  shows "drained act k s = s"
proof -
  have "\<forall>sl \<in> set (drop k (drain_list s)). \<not> occupied sl"
    using assms(1) by (blast dest: in_set_dropD)
  then show ?thesis
    by (simp add: drained_def ready_none [OF _ assms(2)] Let_def)
qed

lemma TryPop_ready:
  assumes "ea_callback (drain_list s ! i) = Some a"
  shows "TryPop act i (ea_epoch (drain_list s ! i)) s =
    (True, light_epoch.more_update (act a) (s\<lparr>drain_list := (drain_list s)[i := EpochAction]\<rparr>))"
  using assms
  by (cases "drain_list s ! i")
    (simp add: TryPop_def compare_exchange_def EpochAction_def perform_Some)

lemma more_update_drain_count:
  "(light_epoch.more_update f s)\<lparr>drain_count := c\<rparr> =
   light_epoch.more_update f (s\<lparr>drain_count := c\<rparr>)"
  by simp

text \<open>One ready slot: emptying it and counting down is a step of the abstract drain.\<close>

lemma drained_step:
  assumes "k < length (drain_list s)" "ea_callback (drain_list s ! k) = Some a"
    "ready (safe_to_reclaim_epoch s) (drain_list s ! k)"
  shows "drained act k s = drained act (Suc k)
    (light_epoch.more_update (act a)
      (s\<lparr>drain_list := (drain_list s)[k := EpochAction], drain_count := drain_count s - 1\<rparr>))"
proof -
  have "take (Suc k) ((drain_list s)[k := EpochAction]) = take k (drain_list s) @ [EpochAction]"
    using assms(1) by (simp add: take_Suc_conv_app_nth)
  moreover have "drop k (drain_list s) = drain_list s ! k # drop (Suc k) (drain_list s)"
    using assms(1) by (simp add: Cons_nth_drop_Suc)
  ultimately show ?thesis using assms
    by (simp add: drained_def Let_def ready_actions_Cons clear_ready_Cons comp_def)
qed

lemma drained_skip:
  assumes "k < length (drain_list s)" "\<not> ready (safe_to_reclaim_epoch s) (drain_list s ! k)"
  shows "drained act k s = drained act (Suc k) s"
proof -
  have "drop k (drain_list s) = drain_list s ! k # drop (Suc k) (drain_list s)"
    using assms(1) by (simp add: Cons_nth_drop_Suc)
  then show ?thesis using assms
    by (simp add: drained_def Let_def ready_actions_Cons clear_ready_Cons take_Suc_conv_app_nth)
qed

lemma drain_ok_pop:
  assumes "drain_ok s" "k < length (drain_list s)" "occupied (drain_list s ! k)"
  shows "drain_ok (light_epoch.more_update f
    (s\<lparr>drain_list := (drain_list s)[k := EpochAction], drain_count := drain_count s - 1\<rparr>))"
proof -
  have len: "Suc (length (filter occupied ((drain_list s)[k := EpochAction]))) =
      length (filter occupied (drain_list s))"
    using filter_list_update_length [OF assms(2), of occupied EpochAction] assms(3) by simp
  then have "drain_count s \<noteq> 0" using assms(1) by (auto simp: drain_ok_def)
  then have "unat (drain_count s - 1) = unat (drain_count s) - 1"
    by (simp add: unat_minus_one)
  moreover have "list_all (slot_ok (current_epoch s)) ((drain_list s)[k := EpochAction])"
    using assms(1) by (auto simp: drain_ok_def list_all_iff dest!: set_update_subset_insert [THEN subsetD])
  ultimately show ?thesis using assms(1) len by (simp add: drain_ok_def)
qed

text \<open>
  The loop, with its early exit when the count reaches zero, drains: the exit is right
  because the count is the number of occupied slots.
\<close>

lemma drain_loop_drained:
  assumes "drain_ok s" "\<not> kFree \<le> safe_to_reclaim_epoch s" "k \<le> length (drain_list s)"
  shows "drain_loop act [k..<length (drain_list s)] s = drained act k s"
  using assms
proof (induction "length (drain_list s) - k" arbitrary: k s)
  case 0
  then show ?case by (simp add: drained_def ready_actions_def clear_ready_def Let_def)
next
  case (Suc n)
  then have k: "k < length (drain_list s)" by simp
  let ?sl = "drain_list s ! k"
  have sl: "slot_ok (current_epoch s) ?sl"
    using Suc.prems(1) k by (auto simp: drain_ok_def list_all_iff)
  show ?case
  proof (cases "ready (safe_to_reclaim_epoch s) ?sl")
    case False
    then show ?thesis
      using Suc.hyps(1) [of s "Suc k"] Suc.hyps(2) Suc.prems k
      by (simp add: upt_conv_Cons ready_def drained_skip)
  next
    case True
    then have "ea_epoch ?sl \<noteq> kFree" using Suc.prems(2) by (auto simp: ready_def)
    then have occ: "occupied ?sl" by (simp add: occupied_def)
    with sl obtain a where a: "ea_callback ?sl = Some a" by (auto simp: slot_ok_def occupied_def)
    let ?s = "light_epoch.more_update (act a)
      (s\<lparr>drain_list := (drain_list s)[k := EpochAction], drain_count := drain_count s - 1\<rparr>)"
    have ok: "drain_ok ?s" by (rule drain_ok_pop [OF Suc.prems(1) k occ])
    have rest: "drained act (Suc k) ?s = ?s" if "drain_count ?s = 0"
      using that ok Suc.prems(2)
      by (intro drained_none) (auto simp: drain_ok_def filter_empty_conv)
    have IH: "drain_loop act [Suc k..<length (drain_list s)] ?s = drained act (Suc k) ?s"
      using Suc.hyps(1) [of ?s "Suc k"] Suc.hyps(2) Suc.prems(2) ok k by simp
    show ?thesis
      using True IH rest
      by (auto simp: upt_conv_Cons k ready_def TryPop_ready [OF a] drained_step [OF k a True] Let_def
          more_update_drain_count)
  qed
qed

lemma Drain_drained:
  assumes "epoch_ok s" "0 < c" "c \<le> current_epoch s"
  shows "Drain act c s = drained act 0 (snd (ComputeNewSafeToReclaimEpoch c s))"
proof -
  let ?s = "snd (ComputeNewSafeToReclaimEpoch c s)"
  have ok: "epoch_ok ?s" by (rule ComputeNewSafe_ok [OF assms])
  then have "\<not> kFree \<le> safe_to_reclaim_epoch ?s"
    by (auto simp: epoch_ok_def table_ok_def dest: not_kFree_le)
  then show ?thesis
    using drain_loop_drained [of ?s 0 act] ok by (simp add: Drain_def epoch_ok_def drain_ok_def)
qed


section \<open>Every operation keeps the epoch state well-formed\<close>

lemma drained_fields [simp]:
  "le_table (drained act k s) = le_table s"
  "num_entries (drained act k s) = num_entries s"
  "current_epoch (drained act k s) = current_epoch s"
  "safe_to_reclaim_epoch (drained act k s) = safe_to_reclaim_epoch s"
  by (simp_all add: drained_def Let_def)

lemma count_clear_ready:
  assumes "\<not> kFree \<le> safe"
  shows "length (filter occupied (clear_ready safe sls)) + length (ready_actions safe sls) =
    length (filter occupied sls)"
proof (induction sls)
  case Nil
  then show ?case by (simp add: clear_ready_def ready_actions_def)
next
  case (Cons sl sls)
  moreover have "ready safe sl \<Longrightarrow> occupied sl" using assms by (auto simp: ready_def occupied_def)
  ultimately show ?case by (auto simp: clear_ready_Cons ready_actions_Cons)
qed

lemma drained_ok:
  assumes "epoch_ok s"
  shows "epoch_ok (drained act 0 s)"
proof -
  let ?safe = "safe_to_reclaim_epoch s" and ?sls = "drain_list s"
  have free: "\<not> kFree \<le> ?safe"
    using assms by (auto simp: epoch_ok_def table_ok_def dest: not_kFree_le)
  have cnt: "length (filter occupied (clear_ready ?safe ?sls)) + length (ready_actions ?safe ?sls) =
      unat (drain_count s)"
    using count_clear_ready [OF free] assms by (simp add: epoch_ok_def drain_ok_def)
  then have "unat (drain_count s - of_nat (length (ready_actions ?safe ?sls))) =
      unat (drain_count s) - length (ready_actions ?safe ?sls)"
    by (intro unat_minus_of_nat) simp
  moreover have "list_all (slot_ok (current_epoch s)) (clear_ready ?safe ?sls)"
    using assms by (auto simp: epoch_ok_def drain_ok_def list_all_iff clear_ready_def)
  ultimately show ?thesis
    using assms cnt
    by (simp add: epoch_ok_def drain_ok_def table_ok_def)
      (simp add: drained_def Let_def clear_ready_def)
qed

lemma Drain_ok:
  assumes "epoch_ok s" "0 < c" "c \<le> current_epoch s"
  shows "epoch_ok (Drain act c s)"
  using drained_ok [OF ComputeNewSafe_ok [OF assms], of act] by (simp add: Drain_drained [OF assms])

lemma set_local_epoch_ok:
  assumes "epoch_ok s" "e = 0 \<or> e = current_epoch s"
  shows "epoch_ok (set_local_epoch i e s)"
proof -
  have "local_epoch (set_local_epoch i e s) j =
      (if j = i \<and> i < length (le_table s) then e else local_epoch s j)" for j
    by (simp add: set_local_epoch_def nth_list_update_if)
  then show ?thesis using assms
    by (auto simp: epoch_ok_def drain_ok_def table_ok_def list_all_iff set_local_epoch_def
        simp del: upt_Suc)
qed

lemma current_epoch_pos: "epoch_ok s \<Longrightarrow> 0 < current_epoch s"
  by (auto simp: epoch_ok_def table_ok_def intro: le_less_trans)

lemma Protect_ok: "epoch_ok s \<Longrightarrow> epoch_ok (snd (Protect i s))"
  by (simp add: Protect_def Let_def set_local_epoch_ok)

lemma Unprotect_ok: "epoch_ok s \<Longrightarrow> epoch_ok (Unprotect i s)"
  by (simp add: Unprotect_def set_local_epoch_ok)

lemma local_epoch_set: "i < length (le_table s) \<Longrightarrow> local_epoch (set_local_epoch i e s) i = e"
  by (simp add: set_local_epoch_def)

lemma set_local_epoch_fields [simp]:
  "drain_list (set_local_epoch i e s) = drain_list s"
  "drain_count (set_local_epoch i e s) = drain_count s"
  "current_epoch (set_local_epoch i e s) = current_epoch s"
  "safe_to_reclaim_epoch (set_local_epoch i e s) = safe_to_reclaim_epoch s"
  "num_entries (set_local_epoch i e s) = num_entries s"
  "length (le_table (set_local_epoch i e s)) = length (le_table s)"
  by (simp_all add: set_local_epoch_def)

lemma ProtectAndDrain_ok:
  assumes "epoch_ok s" "i < length (le_table s)"
  shows "epoch_ok (snd (ProtectAndDrain act i s))"
proof -
  let ?s = "set_local_epoch i (current_epoch s) s"
  have "epoch_ok ?s" using assms(1) by (simp add: set_local_epoch_ok)
  then show ?thesis
    using Drain_ok [of ?s "current_epoch s" act] current_epoch_pos [OF assms(1)]
    by (simp add: ProtectAndDrain_def Let_def local_epoch_set [OF assms(2)])
qed

lemma bump_ok:
  assumes "epoch_ok s" "current_epoch s + 1 < kLocked"
  shows "epoch_ok (s\<lparr>current_epoch := current_epoch s + 1\<rparr>)"
    and "current_epoch s < current_epoch s + 1"
proof -
  have "current_epoch s < kLocked" using assms(1) by (simp add: epoch_ok_def table_ok_def)
  then have u: "unat (current_epoch s + 1) = Suc (unat (current_epoch s))" by (rule unat_plus_one)
  then show lt: "current_epoch s < current_epoch s + 1" by (simp add: word_less_nat_alt)
  show "epoch_ok (s\<lparr>current_epoch := current_epoch s + 1\<rparr>)"
    using assms lt
    by (auto simp: epoch_ok_def drain_ok_def table_ok_def list_all_iff simp del: upt_Suc
        intro: slot_ok_mono less_imp_le order.trans less_trans)
qed

lemma BumpCurrentEpoch_ok:
  assumes "epoch_ok s" "current_epoch s + 1 < kLocked"
  shows "epoch_ok (snd (BumpCurrentEpoch act s))"
    and "fst (BumpCurrentEpoch act s) = current_epoch s + 1"
    and "current_epoch (snd (BumpCurrentEpoch act s)) = current_epoch s + 1"
proof -
  let ?s = "s\<lparr>current_epoch := current_epoch s + 1\<rparr>"
  note ok = bump_ok [OF assms]
  have pos: "0 < current_epoch s + 1" using ok(2) by (meson le_less_trans word_zero_le)
  have "epoch_ok (Drain act (current_epoch s + 1) ?s)"
    using Drain_ok [OF ok(1) pos] by simp
  moreover have "current_epoch (Drain act (current_epoch s + 1) ?s) = current_epoch s + 1"
    using Drain_drained [OF ok(1) pos, of act] by simp
  ultimately show "epoch_ok (snd (BumpCurrentEpoch act s))"
    "fst (BumpCurrentEpoch act s) = current_epoch s + 1"
    "current_epoch (snd (BumpCurrentEpoch act s)) = current_epoch s + 1"
    using ok(1) by (simp_all add: BumpCurrentEpoch_def Let_def)
qed


section \<open>Registering an action\<close>

text \<open>
  A slot can take a new action when it is free or holds one that is ready; the latter runs
  when the new action takes its place.
\<close>

definition available :: "('a, 'z) light_epoch_scheme \<Rightarrow> nat \<Rightarrow> bool" where
  "available s j \<longleftrightarrow> j < kDrainListSize \<and>
     (ea_epoch (drain_list s ! j) = kFree \<or> ready (safe_to_reclaim_epoch s) (drain_list s ! j))"

definition place_action :: "('a \<Rightarrow> 'z \<Rightarrow> 'z) \<Rightarrow> nat \<Rightarrow> u64 \<Rightarrow> 'a \<Rightarrow>
    ('a, 'z) light_epoch_scheme \<Rightarrow> ('a, 'z) light_epoch_scheme" where
  "place_action act j e a s =
     perform act (if occupied (drain_list s ! j) then ea_callback (drain_list s ! j) else None)
       (s\<lparr>drain_list := (drain_list s)[j := \<lparr>ea_epoch = e, ea_callback = Some a\<rparr>],
          drain_count := drain_count s + (if occupied (drain_list s ! j) then 0 else 1)\<rparr>)"

lemma bump_loop_available:
  assumes "available s i"
  shows "bump_loop act e a i s = Some (place_action act i e a s)"
proof (cases "drain_list s ! i")
  case (fields ep cb)
  show ?thesis
  proof (cases "ep = kFree")
    case True
    then show ?thesis using fields
      by (subst bump_loop.simps)
        (simp add: TryPush_def compare_exchange_def place_action_def occupied_def)
  next
    case False
    then show ?thesis using fields assms
      by (subst bump_loop.simps)
        (simp add: TrySwap_def compare_exchange_def place_action_def occupied_def available_def
          ready_def)
  qed
qed

lemma bump_loop_skip:
  assumes "\<not> available s i" "i < kDrainListSize"
  shows "bump_loop act e a i s =
    bump_loop act e a (if i + 1 = kDrainListSize then 0 else i + 1) s"
  using assms by (subst bump_loop.simps) (simp add: available_def ready_def)

lemma bump_loop_first:
  assumes "i \<le> j" "available s j" "\<And>k. i \<le> k \<Longrightarrow> k < j \<Longrightarrow> \<not> available s k"
  shows "bump_loop act e a i s = Some (place_action act j e a s)"
  using assms
proof (induction "j - i" arbitrary: i)
  case 0
  then show ?case by (simp add: bump_loop_available)
next
  case (Suc n)
  then have "\<not> available s i" "i < j" by simp_all
  moreover from this have "i + 1 < kDrainListSize" using Suc.prems(2) by (simp add: available_def)
  moreover have "bump_loop act e a (i + 1) s = Some (place_action act j e a s)"
    using Suc.hyps \<open>i < j\<close> Suc.prems by simp
  ultimately show ?case using bump_loop_skip [of s i act e a] by simp
qed

lemma bump_loop_returns_available:
  fixes s s' :: "('a, 'z) light_epoch_scheme"
  assumes "bump_loop act e a i s = Some s'" "i < kDrainListSize"
  shows "\<exists>j. available s j"
proof -
  have "i < kDrainListSize \<longrightarrow> (\<exists>j. available s j)"
  proof (rule bump_loop.raw_induct
      [where P = "\<lambda>act e a i s s'. i < kDrainListSize \<longrightarrow> (\<exists>j. available s j)", OF _ assms(1)])
    fix loop :: "('a \<Rightarrow> 'z \<Rightarrow> 'z) \<Rightarrow> u64 \<Rightarrow> 'a \<Rightarrow> nat \<Rightarrow> ('a, 'z) light_epoch_scheme \<Rightarrow>
        ('a, 'z) light_epoch_scheme option"
      and act e a i and s s' :: "('a, 'z) light_epoch_scheme"
    assume IH: "\<And>act e a i s s'. loop act e a i s = Some s' \<Longrightarrow>
        i < kDrainListSize \<longrightarrow> (\<exists>j. available s j)"
      and body: "(let trigger_epoch = ea_epoch (drain_list s ! i);
          (stop, s) =
            if trigger_epoch = kFree
            then case TryPush i e a s of
                   (True, s) \<Rightarrow> (True, s\<lparr>drain_count := drain_count s + 1\<rparr>)
                 | (False, s) \<Rightarrow> (False, s)
            else if trigger_epoch \<le> safe_to_reclaim_epoch s
            then TrySwap act i trigger_epoch e a s else (False, s)
        in if stop then Some s
           else loop act e a (if i + 1 = kDrainListSize then 0 else i + 1) s) = Some s'"
    show "i < kDrainListSize \<longrightarrow> (\<exists>j. available s j)"
    proof (cases "available s i")
      case False
      show ?thesis
      proof
        assume "i < kDrainListSize"
        with False body have "loop act e a (if i + 1 = kDrainListSize then 0 else i + 1) s = Some s'"
          by (simp add: available_def ready_def)
        with IH [OF this] \<open>i < kDrainListSize\<close> show "\<exists>j. available s j" by (auto split: if_splits)
      qed
    qed blast
  qed
  with assms(2) show ?thesis by blast
qed

text \<open>
  Registering an action with an epoch puts it into the first slot that can take it. It
  returns exactly when there is such a slot; otherwise it spins, since nothing in the loop
  makes a slot ready.
\<close>

lemma bump_loop_iff:
  "(\<exists>s'. bump_loop act e a 0 s = Some s') \<longleftrightarrow> (\<exists>j. available s j)"
proof
  assume "\<exists>j. available s j"
  then have "available s (LEAST j. available s j)" by (metis LeastI)
  then show "\<exists>s'. bump_loop act e a 0 s = Some s'"
    using bump_loop_first [of 0 "LEAST j. available s j" s act e a] not_less_Least by blast
next
  assume "\<exists>s'. bump_loop act e a 0 s = Some s'"
  then show "\<exists>j. available s j"
    by (auto simp: kDrainListSize_def dest: bump_loop_returns_available)
qed


lemma place_action_ok:
  assumes "epoch_ok s" "available s j" "e < current_epoch s"
  shows "epoch_ok (place_action act j e a s)"
proof -
  let ?sl = "drain_list s ! j" and ?new = "\<lparr>ea_epoch = e, ea_callback = Some a\<rparr>"
  let ?l = "(drain_list s)[j := ?new]"
  have j: "j < length (drain_list s)"
    using assms(1,2) by (simp add: epoch_ok_def drain_ok_def available_def)
  have "\<not> kFree \<le> e" using assms(1,3) by (auto simp: epoch_ok_def table_ok_def dest: not_kFree_le)
  then have new: "occupied ?new" by (auto simp: occupied_def)
  have "length (filter occupied ?l) =
      length (filter occupied (drain_list s)) + (if occupied ?sl then 0 else 1)"
    using filter_list_update_length [OF j, of occupied ?new] new by (auto split: if_splits)
  moreover have "length (filter occupied ?l) \<le> 256"
    using assms(1) length_filter_le [of occupied ?l]
    by (simp add: epoch_ok_def drain_ok_def kDrainListSize_def)
  ultimately have "unat (drain_count s + (if occupied ?sl then 0 else 1)) = length (filter occupied ?l)"
    using assms(1) by (auto simp: epoch_ok_def drain_ok_def unat_word_ariths)
  moreover have "list_all (slot_ok (current_epoch s)) ?l"
    using assms(1,3)
    by (auto simp: epoch_ok_def drain_ok_def list_all_iff slot_ok_def
        dest!: set_update_subset_insert [THEN subsetD])
  ultimately show ?thesis using assms(1)
    by (simp add: place_action_def epoch_ok_def drain_ok_def table_ok_def)
qed

lemma BumpCurrentEpoch_action_result:
  assumes "epoch_ok s" "current_epoch s + 1 < kLocked"
    and r: "BumpCurrentEpoch_action act a s = Some (e, s')"
  obtains j where "available (snd (BumpCurrentEpoch act s)) j" "e = current_epoch s + 1"
    "s' = place_action act j (current_epoch s) a (snd (BumpCurrentEpoch act s))"
proof -
  let ?s = "snd (BumpCurrentEpoch act s)"
  have b: "bump_loop act (current_epoch s) a 0 ?s = Some s'" and e: "e = current_epoch s + 1"
    using r BumpCurrentEpoch_ok(2) [OF assms(1,2), of act]
    by (auto simp: BumpCurrentEpoch_action_def Let_def split: prod.splits option.splits)
  have ex: "\<exists>j. available ?s j"
    using bump_loop_returns_available [OF b] by (simp add: kDrainListSize_def)
  let ?j = "LEAST j. available ?s j"
  have j: "available ?s ?j" using ex by (metis LeastI)
  then have "bump_loop act (current_epoch s) a 0 ?s =
      Some (place_action act ?j (current_epoch s) a ?s)"
    using bump_loop_first [of 0 ?j ?s] not_less_Least by blast
  with b j e show thesis using that by simp
qed

lemma BumpCurrentEpoch_action_ok:
  assumes "epoch_ok s" "current_epoch s + 1 < kLocked"
    "BumpCurrentEpoch_action act a s = Some (e, s')"
  shows "epoch_ok s'"
proof -
  from BumpCurrentEpoch_action_result [OF assms] obtain j where
    j: "available (snd (BumpCurrentEpoch act s)) j"
      "s' = place_action act j (current_epoch s) a (snd (BumpCurrentEpoch act s))" .
  note ok = BumpCurrentEpoch_ok [OF assms(1,2), of act]
  show ?thesis
    unfolding j(2) using place_action_ok [OF ok(1) j(1)] ok(3) bump_ok(2) [OF assms(1,2)] by simp
qed

lemma set_phase_finished_ok: "epoch_ok s \<Longrightarrow> epoch_ok (set_phase_finished i p s)"
proof -
  have "local_epoch (set_phase_finished i p s) j = local_epoch s j" for j
    by (simp add: set_phase_finished_def nth_list_update_if)
  then show "epoch_ok s \<Longrightarrow> epoch_ok (set_phase_finished i p s)"
    by (simp add: epoch_ok_def drain_ok_def table_ok_def set_phase_finished_def del: upt_Suc)
qed

lemma FinishThreadPhase_ok: "epoch_ok s \<Longrightarrow> epoch_ok (snd (FinishThreadPhase i p s))"
  by (simp add: FinishThreadPhase_def Let_def set_phase_finished_ok)

lemma ResetPhaseFinished_ok: "epoch_ok s \<Longrightarrow> epoch_ok (ResetPhaseFinished s)"
proof -
  have "epoch_ok s \<Longrightarrow> epoch_ok (fold (\<lambda>idx s. set_phase_finished idx REST s) is s)" for "is"
    by (induction "is" arbitrary: s) (simp_all add: set_phase_finished_ok)
  then show "epoch_ok s \<Longrightarrow> epoch_ok (ResetPhaseFinished s)" by (simp add: ResetPhaseFinished_def)
qed


section \<open>Interleavings of the operations\<close>

text \<open>
  The threads, with identifiers below the maximum, call the operations in any order. The
  64-bit epoch is assumed not to reach its two reserved values.
\<close>

inductive epoch_step :: "('a \<Rightarrow> 'z \<Rightarrow> 'z) \<Rightarrow> ('a, 'z) light_epoch_scheme \<Rightarrow>
    ('a, 'z) light_epoch_scheme \<Rightarrow> bool" for act where
  protect: "i < kMaxNumThreads \<Longrightarrow> epoch_step act s (snd (Protect i s))"
| protect_drain: "i < kMaxNumThreads \<Longrightarrow> epoch_step act s (snd (ProtectAndDrain act i s))"
| unprotect: "i < kMaxNumThreads \<Longrightarrow> epoch_step act s (Unprotect i s)"
| bump: "current_epoch s + 1 < kLocked \<Longrightarrow>
    epoch_step act s (snd (BumpCurrentEpoch act s))"
| bump_action: "current_epoch s + 1 < kLocked \<Longrightarrow>
    BumpCurrentEpoch_action act a s = Some (e, s') \<Longrightarrow> epoch_step act s s'"
| finish_phase: "i < kMaxNumThreads \<Longrightarrow> epoch_step act s (snd (FinishThreadPhase i p s))"
| reset_phase: "epoch_step act s (ResetPhaseFinished s)"

definition epoch_initial :: "('a, 'z) light_epoch_scheme \<Rightarrow> bool" where
  "epoch_initial s \<longleftrightarrow> s = LightEpoch_Initialize kMaxNumThreads s"

definition epoch_invar :: "('a, 'z) light_epoch_scheme \<Rightarrow> bool" where
  "epoch_invar s \<longleftrightarrow> epoch_ok s \<and> num_entries s = kMaxNumThreads"

lemma num_entries_drain_loop: "num_entries (drain_loop act is s) = num_entries s"
  by (induction act "is" s rule: drain_loop.induct)
    (auto simp: Let_def TryPop_def split: prod.split bool.split)

lemma num_entries_Drain [simp]: "num_entries (Drain act c s) = num_entries s"
  by (simp add: Drain_def num_entries_drain_loop)

lemma num_entries_BumpCurrentEpoch [simp]:
  "num_entries (snd (BumpCurrentEpoch act s)) = num_entries s"
  by (simp add: BumpCurrentEpoch_def Let_def)

lemma num_entries_ResetPhaseFinished [simp]: "num_entries (ResetPhaseFinished s) = num_entries s"
proof -
  have "num_entries (fold (\<lambda>idx s. set_phase_finished idx REST s) is s) = num_entries s" for "is"
    by (induction "is" arbitrary: s) (simp_all add: set_phase_finished_def)
  then show ?thesis by (simp add: ResetPhaseFinished_def)
qed

lemma epoch_step_num_entries:
  assumes "epoch_step act s s'" "epoch_ok s"
  shows "num_entries s' = num_entries s"
  using assms
proof cases
  case (bump_action a e)
  from BumpCurrentEpoch_action_result [OF assms(2) bump_action] obtain j where
    "s' = place_action act j (current_epoch s) a (snd (BumpCurrentEpoch act s))" .
  then show ?thesis by (simp add: place_action_def)
qed (simp_all add: Protect_def ProtectAndDrain_def Unprotect_def FinishThreadPhase_def
    set_phase_finished_def Let_def)

lemma epoch_step_invar:
  assumes "epoch_invar s" "epoch_step act s s'"
  shows "epoch_invar s'"
proof -
  have ok: "epoch_ok s" "num_entries s = kMaxNumThreads" using assms(1) by (simp_all add: epoch_invar_def)
  then have len: "length (le_table s) = kMaxNumThreads + 2" by (simp add: epoch_ok_def table_ok_def)
  from assms(2) ok(1) have "epoch_ok s'"
    by cases (auto simp: len intro: Protect_ok ProtectAndDrain_ok Unprotect_ok BumpCurrentEpoch_ok
        BumpCurrentEpoch_action_ok FinishThreadPhase_ok ResetPhaseFinished_ok)
  then show ?thesis using epoch_step_num_entries [OF assms(2) ok(1)] ok(2) by (simp add: epoch_invar_def)
qed

interpretation epoch_ts: transition_system epoch_initial "epoch_step act" epoch_invar
proof
  fix s :: "('a, 'b) light_epoch_scheme"
  assume "epoch_initial s"
  then have s: "s = LightEpoch_Initialize kMaxNumThreads s" by (simp add: epoch_initial_def)
  have "num_entries (LightEpoch_Initialize kMaxNumThreads s) = kMaxNumThreads"
    by (simp add: LightEpoch_Initialize_def)
  then show "epoch_invar s"
    using LightEpoch_Initialize_ok [of kMaxNumThreads s] s by (simp add: epoch_invar_def)
qed (rule epoch_step_invar)


section \<open>Properties of the epoch protocol\<close>


definition epoch_start :: "(nat, nat list) light_epoch_scheme" where
  "epoch_start = LightEpoch_Initialize kMaxNumThreads
     \<lparr>le_table = [], num_entries = 0, drain_list = [], drain_count = 0, current_epoch = 0,
      safe_to_reclaim_epoch = 0, \<dots> = []\<rparr>"

definition log_action :: "nat \<Rightarrow> nat list \<Rightarrow> nat list" where
  "log_action a w = w @ [a]"

lemma epoch_start_initial: "epoch_initial epoch_start"
  by (simp add: epoch_initial_def epoch_start_def LightEpoch_Initialize_def)

lemma epoch_start_protect: "(epoch_step act)\<^sup>*\<^sup>* epoch_start (snd (Protect 1 epoch_start))"
  by (rule r_into_rtranclp, rule protect) (simp add: kMaxNumThreads_def)



text \<open>Thread 1 is in epoch 1, an action waits for it, and draining leaves the action waiting.\<close>

definition epoch_waiting :: "(nat, nat list) light_epoch_scheme" where
  "epoch_waiting = (case BumpCurrentEpoch_action log_action 7 (snd (Protect 1 epoch_start)) of
     None \<Rightarrow> epoch_start | Some (_, s) \<Rightarrow> s)"

lemma epoch_waiting_reached: "(epoch_step log_action)\<^sup>*\<^sup>* epoch_start epoch_waiting"
proof -
  have "BumpCurrentEpoch_action log_action 7 (snd (Protect 1 epoch_start)) \<noteq> None" by code_simp
  moreover have "current_epoch (snd (Protect 1 epoch_start)) + 1 < kLocked" by code_simp
  ultimately have "epoch_step log_action (snd (Protect 1 epoch_start)) epoch_waiting"
    by (auto simp: epoch_waiting_def intro: bump_action split: option.splits prod.splits)
  then show ?thesis using epoch_start_protect [of log_action] by (rule rtranclp.rtrancl_into_rtrancl [rotated])
qed


text \<open>
  C22: bumping the epoch with an action returns exactly when a slot of the drain list is free
  or ready; then the action waits in the drain list for the epoch that was current.
\<close>

theorem BumpCurrentEpoch_action_registers:
  assumes "epoch_initial s0" "(epoch_step act)\<^sup>*\<^sup>* s0 s" "current_epoch s + 1 < kLocked"
  shows "(BumpCurrentEpoch_action act a s \<noteq> None \<longleftrightarrow>
      (\<exists>j. available (snd (BumpCurrentEpoch act s)) j)) \<and>
    (\<forall>e s'. BumpCurrentEpoch_action act a s = Some (e, s') \<longrightarrow>
      \<lparr>ea_epoch = current_epoch s, ea_callback = Some a\<rparr> \<in> set (drain_list s') \<and>
      e = current_epoch s' \<and> epoch_ok s')"
proof -
  have ok: "epoch_ok s" using epoch_ts.invar_reachable [OF assms(1,2)] by (simp add: epoch_invar_def)
  note b = BumpCurrentEpoch_ok [OF ok assms(3), of act]
  let ?s = "snd (BumpCurrentEpoch act s)"
  have "BumpCurrentEpoch_action act a s \<noteq> None \<longleftrightarrow> (\<exists>s'. bump_loop act (current_epoch s) a 0 ?s = Some s')"
    using b(2) by (auto simp: BumpCurrentEpoch_action_def Let_def split: prod.splits option.splits)
  then have iff: "BumpCurrentEpoch_action act a s \<noteq> None \<longleftrightarrow> (\<exists>j. available ?s j)"
    by (simp only: bump_loop_iff)
  have "\<lparr>ea_epoch = current_epoch s, ea_callback = Some a\<rparr> \<in> set (drain_list s') \<and>
      e = current_epoch s' \<and> epoch_ok s'" if r: "BumpCurrentEpoch_action act a s = Some (e, s')" for e s'
  proof -
    from BumpCurrentEpoch_action_result [OF ok assms(3) r] obtain j where
      j: "available ?s j" "e = current_epoch s + 1" "s' = place_action act j (current_epoch s) a ?s" .
    have "j < length (drain_list ?s)" using b(1) j(1) by (simp add: epoch_ok_def drain_ok_def available_def)
    then show ?thesis
      using j b(3) BumpCurrentEpoch_action_ok [OF ok assms(3) r]
      by (simp add: place_action_def set_update_memI)
  qed
  with iff show ?thesis by blast
qed

theorem BumpCurrentEpoch_action_registers_witness:
  "(case BumpCurrentEpoch_action log_action 7 (snd (Protect 1 epoch_start)) of
      None \<Rightarrow> False
    | Some (e, s') \<Rightarrow> e = 2 \<and>
        \<lparr>ea_epoch = 1, ea_callback = Some 7\<rparr> \<in> set (drain_list s') \<and> epoch_ok s')"
proof -
  have one: "current_epoch (snd (Protect 1 epoch_start)) = 1" by code_simp
  then have bound: "current_epoch (snd (Protect 1 epoch_start)) + 1 < kLocked"
    by (simp add: kLocked_def word_less_nat_alt)
  have "map_option fst (BumpCurrentEpoch_action log_action 7 (snd (Protect 1 epoch_start))) = Some 2"
    by code_simp
  then obtain s' where
    "BumpCurrentEpoch_action log_action 7 (snd (Protect 1 epoch_start)) = Some (2, s')" by auto
  then show ?thesis
    using BumpCurrentEpoch_action_registers
      [OF epoch_start_initial epoch_start_protect [of log_action] bound, of 7]
    unfolding one by simp
qed


text \<open>
  C30: nested calls of the re-entrant protection are not counted: after two protects and one
  unprotect the thread is not protected any more.
\<close>

theorem ReentrantProtect_not_nested:
  assumes "i < length (le_table s)" "local_epoch s i = 0" "reentrant (le_table s ! i) = 0"
  shows "\<not> IsProtected i
    (ReentrantUnprotect i (snd (ReentrantProtect i (snd (ReentrantProtect i s)))))"
  using assms
  by (simp add: ReentrantProtect_def ReentrantUnprotect_def IsProtected_def set_local_epoch_def
      set_reentrant_def Let_def)

theorem ReentrantProtect_not_nested_witness:
  "\<not> IsProtected 3
    (ReentrantUnprotect 3 (snd (ReentrantProtect 3 (snd (ReentrantProtect 3 epoch_start)))))"
proof -
  have "3 < length (le_table epoch_start)" "local_epoch epoch_start 3 = 0"
    "reentrant (le_table epoch_start ! 3) = 0" by code_simp+
  then show ?thesis by (rule ReentrantProtect_not_nested)
qed

end
