(* ===== verification/Drain_Slot.thy ===== *)
theory Drain_Slot
  imports Light_Epoch "HOL-Library.Multiset"
begin

text \<open>
  The protocol on one slot of the drain list at the granularity of its atomic accesses.
  \<open>TryPop\<close>, \<open>TryPush\<close> and \<open>TrySwap\<close> of \<open>light_epoch.h\<close> lock the slot by a compare-and-swap
  of its epoch to \<open>kLocked\<close>, access the callback fields, and unlock by storing an epoch; the
  callback is called after that. Any number of threads interleave these accesses. The plain
  accesses to the callback fields under the lock are one step. The callback cell also records
  the epoch the action was registered with, and the state keeps which actions were registered
  and which have run.
\<close>

datatype 'a slot_pc =
  Idle
| PopLocked u64
| PopTaken "(u64 \<times> 'a) option"
| PopRun "(u64 \<times> 'a) option"
| PushLocked u64 'a
| PushWritten u64
| SwapLocked u64 u64 'a
| SwapWritten u64 "(u64 \<times> 'a) option"

record 'a slot_state =
  sl_epoch :: u64
  sl_callback :: "(u64 \<times> 'a) option"
  sl_safe :: u64
  sl_pcs :: "'a slot_pc list"
  sl_pushed :: "(u64 \<times> 'a) multiset"
  sl_executed :: "(u64 \<times> 'a) multiset"
  sl_null_call :: bool

definition slot_call :: "(u64 \<times> 'a) option \<Rightarrow> 'a slot_state \<Rightarrow> 'a slot_state" where
  "slot_call cb s = (case cb of
      None \<Rightarrow> s\<lparr>sl_null_call := True\<rparr>
    | Some a \<Rightarrow> s\<lparr>sl_executed := sl_executed s + {#a#}\<rparr>)"

abbreviation goto :: "nat \<Rightarrow> 'a slot_pc \<Rightarrow> 'a slot_state \<Rightarrow> 'a slot_state" where
  "goto t p s \<equiv> s\<lparr>sl_pcs := (sl_pcs s)[t := p]\<rparr>"

inductive slot_step :: "'a slot_state \<Rightarrow> 'a slot_state \<Rightarrow> bool" where
  pop_lock: "t < length (sl_pcs s) \<Longrightarrow> sl_pcs s ! t = Idle \<Longrightarrow> e \<le> sl_safe s \<Longrightarrow>
    compare_exchange (sl_epoch s) e kLocked = (True, e, locked) \<Longrightarrow>
    slot_step s (goto t (PopLocked e) (s\<lparr>sl_epoch := locked\<rparr>))"
| pop_take: "t < length (sl_pcs s) \<Longrightarrow> sl_pcs s ! t = PopLocked e \<Longrightarrow>
    slot_step s (goto t (PopTaken (sl_callback s)) (s\<lparr>sl_callback := None\<rparr>))"
| pop_unlock: "t < length (sl_pcs s) \<Longrightarrow> sl_pcs s ! t = PopTaken cb \<Longrightarrow>
    slot_step s (goto t (PopRun cb) (s\<lparr>sl_epoch := kFree\<rparr>))"
| pop_call: "t < length (sl_pcs s) \<Longrightarrow> sl_pcs s ! t = PopRun cb \<Longrightarrow>
    slot_step s (goto t Idle (slot_call cb s))"
| push_lock: "t < length (sl_pcs s) \<Longrightarrow> sl_pcs s ! t = Idle \<Longrightarrow> e < kLocked \<Longrightarrow>
    compare_exchange (sl_epoch s) kFree kLocked = (True, kFree, locked) \<Longrightarrow>
    slot_step s (goto t (PushLocked e a)
      (s\<lparr>sl_epoch := locked, sl_pushed := sl_pushed s + {#(e, a)#}\<rparr>))"
| push_write: "t < length (sl_pcs s) \<Longrightarrow> sl_pcs s ! t = PushLocked e a \<Longrightarrow>
    slot_step s (goto t (PushWritten e) (s\<lparr>sl_callback := Some (e, a)\<rparr>))"
| push_unlock: "t < length (sl_pcs s) \<Longrightarrow> sl_pcs s ! t = PushWritten e \<Longrightarrow>
    slot_step s (goto t Idle (s\<lparr>sl_epoch := e\<rparr>))"
| swap_lock: "t < length (sl_pcs s) \<Longrightarrow> sl_pcs s ! t = Idle \<Longrightarrow> e \<le> sl_safe s \<Longrightarrow> e' < kLocked \<Longrightarrow>
    compare_exchange (sl_epoch s) e kLocked = (True, e, locked) \<Longrightarrow>
    slot_step s (goto t (SwapLocked e e' a)
      (s\<lparr>sl_epoch := locked, sl_pushed := sl_pushed s + {#(e', a)#}\<rparr>))"
| swap_write: "t < length (sl_pcs s) \<Longrightarrow> sl_pcs s ! t = SwapLocked e e' a \<Longrightarrow>
    slot_step s (goto t (SwapWritten e' (sl_callback s)) (s\<lparr>sl_callback := Some (e', a)\<rparr>))"
| swap_unlock: "t < length (sl_pcs s) \<Longrightarrow> sl_pcs s ! t = SwapWritten e' cb \<Longrightarrow>
    slot_step s (goto t (PopRun cb) (s\<lparr>sl_epoch := e'\<rparr>))"
| advance_safe: "sl_safe s \<le> x \<Longrightarrow> x < kLocked \<Longrightarrow> slot_step s (s\<lparr>sl_safe := x\<rparr>)"

definition slot_initial :: "'a slot_state \<Rightarrow> bool" where
  "slot_initial s \<longleftrightarrow> sl_epoch s = kFree \<and> sl_callback s = None \<and> sl_safe s < kLocked \<and>
     list_all (\<lambda>p. p = Idle) (sl_pcs s) \<and> sl_pushed s = {#} \<and> sl_executed s = {#} \<and>
     \<not> sl_null_call s"


section \<open>The invariant of the slot protocol\<close>

fun holds_lock :: "'a slot_pc \<Rightarrow> bool" where
  "holds_lock Idle = False"
| "holds_lock (PopRun cb) = False"
| "holds_lock _ = True"

fun in_hand :: "'a slot_pc \<Rightarrow> (u64 \<times> 'a) multiset" where
  "in_hand (PopTaken (Some a)) = {#a#}"
| "in_hand (PopRun (Some a)) = {#a#}"
| "in_hand (PushLocked e a) = {#(e, a)#}"
| "in_hand (SwapLocked e e' a) = {#(e', a)#}"
| "in_hand (SwapWritten e' (Some a)) = {#a#}"
| "in_hand _ = {#}"

definition in_slot :: "(u64 \<times> 'a) option \<Rightarrow> (u64 \<times> 'a) multiset" where
  "in_slot cb = (case cb of None \<Rightarrow> {#} | Some a \<Rightarrow> {#a#})"

definition safe_call :: "u64 \<Rightarrow> (u64 \<times> 'a) option \<Rightarrow> bool" where
  "safe_call safe cb \<longleftrightarrow> (case cb of None \<Rightarrow> False | Some a \<Rightarrow> fst a \<le> safe)"

text \<open>What a thread knows about the slot and its own registers at each program point.\<close>

fun pc_ok :: "u64 \<Rightarrow> (u64 \<times> 'a) option \<Rightarrow> 'a slot_pc \<Rightarrow> bool" where
  "pc_ok safe cb Idle = True"
| "pc_ok safe cb (PopLocked e) = (e \<le> safe \<and> (\<exists>a. cb = Some (e, a)))"
| "pc_ok safe cb (PopTaken c) = (cb = None \<and> safe_call safe c)"
| "pc_ok safe cb (PopRun c) = safe_call safe c"
| "pc_ok safe cb (PushLocked e a) = (cb = None \<and> e < kLocked)"
| "pc_ok safe cb (PushWritten e) = (e < kLocked \<and> (\<exists>a. cb = Some (e, a)))"
| "pc_ok safe cb (SwapLocked e e' a) = (e \<le> safe \<and> e' < kLocked \<and> (\<exists>a. cb = Some (e, a)))"
| "pc_ok safe cb (SwapWritten e' c) = (e' < kLocked \<and> (\<exists>a. cb = Some (e', a)) \<and> safe_call safe c)"

definition slot_invar :: "'a slot_state \<Rightarrow> bool" where
  "slot_invar s \<longleftrightarrow>
     length (filter holds_lock (sl_pcs s)) = (if sl_epoch s = kLocked then 1 else 0) \<and>
     (sl_epoch s = kFree \<longrightarrow> sl_callback s = None) \<and>
     (sl_epoch s \<noteq> kFree \<and> sl_epoch s \<noteq> kLocked \<longrightarrow> (\<exists>a. sl_callback s = Some (sl_epoch s, a))) \<and>
     sl_safe s < kLocked \<and>
     (\<forall>p \<in> set (sl_pcs s). pc_ok (sl_safe s) (sl_callback s) p) \<and>
     sl_pushed s = sl_executed s + in_slot (sl_callback s) + sum_list (map in_hand (sl_pcs s)) \<and>
     (\<forall>a \<in># sl_executed s. fst a \<le> sl_safe s) \<and> \<not> sl_null_call s"


lemma sum_list_map_update:
  fixes f :: "'b \<Rightarrow> 'c::comm_monoid_add"
  shows "i < length xs \<Longrightarrow> sum_list (map f (xs[i := v])) + f (xs ! i) = sum_list (map f xs) + f v"
proof (induction xs arbitrary: i)
  case (Cons x xs)
  then show ?case
  proof (cases i)
    case 0
    then show ?thesis by (simp add: ac_simps)
  next
    case (Suc k)
    then have "sum_list (map f (xs[k := v])) + f (xs ! k) = sum_list (map f xs) + f v"
      using Cons by simp
    then show ?thesis using Suc by (simp add: add.assoc)
  qed
qed simp

lemma pc_ok_unlocked: "\<not> holds_lock p \<Longrightarrow> pc_ok safe cb p = pc_ok safe cb' p"
  by (cases p) simp_all

lemma pc_ok_safe_mono: "pc_ok safe cb p \<Longrightarrow> safe \<le> safe' \<Longrightarrow> pc_ok safe' cb p"
  by (cases p) (auto simp: safe_call_def split: option.splits)

lemma only_holder:
  assumes "length (filter P xs) \<le> 1" "t < length xs" "P (xs ! t)" "j < length xs" "j \<noteq> t"
  shows "\<not> P (xs ! j)"
proof
  assume "P (xs ! j)"
  moreover have "{j, t} \<subseteq> {i. i < length xs \<and> P (xs ! i)}" using assms \<open>P (xs ! j)\<close> by auto
  then have "card {j, t} \<le> card {i. i < length xs \<and> P (xs ! i)}" by (intro card_mono) simp_all
  then have "card {j, t} \<le> length (filter P xs)" by (simp only: length_filter_conv_card)
  ultimately show False using assms(1,5) by simp
qed

lemma holder_locked:
  assumes "slot_invar s" "t < length (sl_pcs s)" "holds_lock (sl_pcs s ! t)"
  shows "sl_epoch s = kLocked"
proof (rule ccontr)
  assume "sl_epoch s \<noteq> kLocked"
  then have "filter holds_lock (sl_pcs s) = []" using assms(1) by (simp add: slot_invar_def)
  with assms(2,3) show False by (auto simp: filter_empty_conv)
qed

text \<open>
  One thread moves to another program point: the invariant is kept when the move keeps the
  lock count and the accounts, only the lock holder writes the callback, and the knowledge at
  the new point holds.
\<close>

lemma slot_invar_move:
  assumes inv: "slot_invar s" and t: "t < length (sl_pcs s)"
    and s': "sl_pcs s' = (sl_pcs s)[t := p']" "sl_safe s' = sl_safe s" "sl_null_call s' = sl_null_call s"
    and lock: "(if holds_lock p' then 1 else 0) + (if sl_epoch s = kLocked then 1 else 0) =
      (if sl_epoch s' = kLocked then 1 else 0) + (if holds_lock (sl_pcs s ! t) then 1 else (0::nat))"
    and cb: "sl_callback s' = sl_callback s \<or> holds_lock (sl_pcs s ! t)"
    and pc: "pc_ok (sl_safe s) (sl_callback s') p'"
    and cell: "sl_epoch s' = kFree \<Longrightarrow> sl_callback s' = None"
      "sl_epoch s' \<noteq> kFree \<Longrightarrow> sl_epoch s' \<noteq> kLocked \<Longrightarrow> \<exists>a. sl_callback s' = Some (sl_epoch s', a)"
    and acct: "sl_pushed s' + (sl_executed s + in_slot (sl_callback s) + in_hand (sl_pcs s ! t)) =
      sl_pushed s + (sl_executed s' + in_slot (sl_callback s') + in_hand p')"
    and exec: "\<forall>a \<in># sl_executed s'. fst a \<le> sl_safe s"
  shows "slot_invar s'"
proof -
  have one: "length (filter holds_lock (sl_pcs s)) \<le> 1" using inv by (simp add: slot_invar_def)
  have "pc_ok (sl_safe s) (sl_callback s') (sl_pcs s ! j)" if j: "j < length (sl_pcs s)" "j \<noteq> t" for j
  proof -
    have ok: "pc_ok (sl_safe s) (sl_callback s) (sl_pcs s ! j)" using inv j by (simp add: slot_invar_def)
    show ?thesis
    proof (cases "sl_callback s' = sl_callback s")
      case False
      then have "\<not> holds_lock (sl_pcs s ! j)" using cb only_holder [OF one t _ j] by blast
      with ok show ?thesis using pc_ok_unlocked by blast
    qed (simp add: ok)
  qed
  with pc have pcs: "\<forall>p \<in> set (sl_pcs s'). pc_ok (sl_safe s') (sl_callback s') p"
    using t by (auto simp: s' in_set_conv_nth nth_list_update_if)
  have "sum_list (map in_hand (sl_pcs s')) + in_hand (sl_pcs s ! t) =
      sum_list (map in_hand (sl_pcs s)) + in_hand p'"
    using sum_list_map_update [OF t] by (simp add: s')
  moreover have "sl_pushed s = sl_executed s + in_slot (sl_callback s) + sum_list (map in_hand (sl_pcs s))"
    using inv by (simp add: slot_invar_def)
  ultimately have "sl_pushed s' + (sl_executed s + in_slot (sl_callback s) + in_hand (sl_pcs s ! t)) =
      (sl_executed s' + in_slot (sl_callback s') + sum_list (map in_hand (sl_pcs s'))) +
      (sl_executed s + in_slot (sl_callback s) + in_hand (sl_pcs s ! t))"
    using acct by (simp add: ac_simps)
  then have "sl_pushed s' = sl_executed s' + in_slot (sl_callback s') + sum_list (map in_hand (sl_pcs s'))"
    by (rule add_right_imp_eq)
  moreover have "length (filter holds_lock (sl_pcs s')) = (if sl_epoch s' = kLocked then 1 else 0)"
    using filter_list_update_length [OF t, of holds_lock p'] inv lock
    by (auto simp: s' slot_invar_def split: if_splits)
  ultimately show ?thesis using inv pcs cell exec by (simp add: slot_invar_def s')
qed


lemma kFree_not_kLocked [simp]: "kFree \<noteq> kLocked" "kLocked \<noteq> kFree"
  using kLocked_less_kFree by auto

lemma ordinary_epoch: "e < kLocked \<Longrightarrow> e \<noteq> kLocked \<and> e \<noteq> kFree"
  using kLocked_less_kFree by auto

lemma safe_epoch_ordinary:
  assumes "slot_invar s" "e \<le> sl_safe s"
  shows "e \<noteq> kLocked" "e \<noteq> kFree"
proof -
  have "e < kLocked" using assms by (auto simp: slot_invar_def intro: le_less_trans)
  then show "e \<noteq> kLocked" "e \<noteq> kFree" using ordinary_epoch by blast+
qed

lemma invar_pc:
  "slot_invar s \<Longrightarrow> t < length (sl_pcs s) \<Longrightarrow> pc_ok (sl_safe s) (sl_callback s) (sl_pcs s ! t)"
  by (simp add: slot_invar_def)

lemma slot_step_invar:
  assumes inv: "slot_invar s" and step: "slot_step s s'"
  shows "slot_invar s'"
  using step
proof cases
  case (pop_lock t e locked)
  from pop_lock have e: "sl_epoch s = e" "locked = kLocked" by (auto simp: compare_exchange_def split: if_splits)
  note ord = safe_epoch_ordinary [OF inv pop_lock(4)]
  have "\<exists>a. sl_callback s = Some (e, a)" using inv e ord by (auto simp: slot_invar_def)
  then show ?thesis using pop_lock e ord inv
    by (intro slot_invar_move [OF inv pop_lock(2), where p' = "PopLocked e"]) (auto simp: slot_invar_def)
next
  case (pop_take t e)
  note pc = invar_pc [OF inv pop_take(2)] and l = holder_locked [OF inv pop_take(2)]
  show ?thesis using pop_take pc l inv
    by (intro slot_invar_move [OF inv pop_take(2), where p' = "PopTaken (sl_callback s)"])
      (auto simp: slot_invar_def in_slot_def safe_call_def)
next
  case (pop_unlock t cb)
  note pc = invar_pc [OF inv pop_unlock(2)] and l = holder_locked [OF inv pop_unlock(2)]
  show ?thesis using pop_unlock pc l inv
    by (intro slot_invar_move [OF inv pop_unlock(2), where p' = "PopRun cb"])
      (auto simp: slot_invar_def safe_call_def split: option.splits)
next
  case (pop_call t cb)
  note pc = invar_pc [OF inv pop_call(2)]
  then obtain a where a: "cb = Some a" "fst a \<le> sl_safe s"
    using pop_call(3) by (auto simp: safe_call_def split: option.splits)
  show ?thesis using pop_call a inv
    by (intro slot_invar_move [OF inv pop_call(2), where p' = Idle])
      (auto simp: slot_invar_def slot_call_def)
next
  case (push_lock t e locked a)
  from push_lock have e: "sl_epoch s = kFree" "locked = kLocked"
    by (auto simp: compare_exchange_def split: if_splits)
  then show ?thesis using push_lock inv
    by (intro slot_invar_move [OF inv push_lock(2), where p' = "PushLocked e a"])
      (auto simp: slot_invar_def)
next
  case (push_write t e a)
  note pc = invar_pc [OF inv push_write(2)] and l = holder_locked [OF inv push_write(2)]
  show ?thesis using push_write pc l inv
    by (intro slot_invar_move [OF inv push_write(2), where p' = "PushWritten e"])
      (auto simp: slot_invar_def in_slot_def)
next
  case (push_unlock t e)
  note pc = invar_pc [OF inv push_unlock(2)] and l = holder_locked [OF inv push_unlock(2)]
  show ?thesis using push_unlock pc l inv ordinary_epoch [of e]
    by (intro slot_invar_move [OF inv push_unlock(2), where p' = Idle]) (auto simp: slot_invar_def)
next
  case (swap_lock t e e' locked a)
  from swap_lock have e: "sl_epoch s = e" "locked = kLocked" by (auto simp: compare_exchange_def split: if_splits)
  note ord = safe_epoch_ordinary [OF inv swap_lock(4)]
  have "\<exists>a. sl_callback s = Some (e, a)" using inv e ord by (auto simp: slot_invar_def)
  then show ?thesis using swap_lock e ord inv
    by (intro slot_invar_move [OF inv swap_lock(2), where p' = "SwapLocked e e' a"])
      (auto simp: slot_invar_def)
next
  case (swap_write t e e' a)
  note pc = invar_pc [OF inv swap_write(2)] and l = holder_locked [OF inv swap_write(2)]
  show ?thesis using swap_write pc l inv
    by (intro slot_invar_move [OF inv swap_write(2), where p' = "SwapWritten e' (sl_callback s)"])
      (auto simp: slot_invar_def in_slot_def safe_call_def)
next
  case (swap_unlock t e' cb)
  note pc = invar_pc [OF inv swap_unlock(2)] and l = holder_locked [OF inv swap_unlock(2)]
  show ?thesis using swap_unlock pc l inv ordinary_epoch [of e']
    by (intro slot_invar_move [OF inv swap_unlock(2), where p' = "PopRun cb"])
      (auto simp: slot_invar_def safe_call_def split: option.splits)
next
  case (advance_safe x)
  then show ?thesis using inv pc_ok_safe_mono
    by (auto simp: slot_invar_def intro: pc_ok_safe_mono order.trans)
qed


lemma all_idle:
  "list_all (\<lambda>p. p = Idle) ps \<Longrightarrow>
   sum_list (map in_hand ps) = {#} \<and> filter holds_lock ps = [] \<and> (\<forall>p \<in> set ps. pc_ok safe cb p)"
  by (induction ps) simp_all

interpretation slot_ts: transition_system slot_initial slot_step slot_invar
proof
  show "slot_invar s" if "slot_initial s" for s :: "'a slot_state"
    using that all_idle [of "sl_pcs s" "sl_safe s" "sl_callback s"]
    by (simp add: slot_initial_def slot_invar_def in_slot_def)
qed (rule slot_step_invar)


section \<open>Properties of the slot protocol\<close>

text \<open>
  C21: in every interleaving of the accesses, each registered action is at exactly one place:
  it has run, or is in the slot, or a thread is about to store or to run it. So no action is
  lost or run twice, no thread calls a null callback, and every action that has run had an
  epoch that is safe. When all threads are idle and the slot is free, all have run.
\<close>

theorem slot_actions_run_once:
  assumes "slot_initial s0" "slot_step\<^sup>*\<^sup>* s0 s"
  shows "sl_pushed s = sl_executed s + in_slot (sl_callback s) + sum_list (map in_hand (sl_pcs s)) \<and>
    (\<forall>a \<in># sl_executed s. fst a \<le> sl_safe s) \<and> \<not> sl_null_call s \<and>
    (sl_epoch s = kFree \<and> list_all (\<lambda>p. p = Idle) (sl_pcs s) \<longrightarrow> sl_executed s = sl_pushed s)"
proof -
  have "slot_invar s" by (rule slot_ts.invar_reachable [OF assms])
  then show ?thesis using all_idle [of "sl_pcs s"] by (auto simp: slot_invar_def in_slot_def)
qed

text \<open>A run of two threads: one registers an action for epoch 1, the other runs it.\<close>

definition slot_start :: "nat slot_state" where
  "slot_start = \<lparr>sl_epoch = kFree, sl_callback = None, sl_safe = 1, sl_pcs = [Idle, Idle],
     sl_pushed = {#}, sl_executed = {#}, sl_null_call = False\<rparr>"

definition slot_end :: "nat slot_state" where
  "slot_end = slot_start\<lparr>sl_pushed := {#(1, 7)#}, sl_executed := {#(1, 7)#}\<rparr>"

lemma slot_run: "slot_step\<^sup>*\<^sup>* slot_start slot_end"
proof -
  let ?s0 = slot_start
  let ?s1 = "?s0\<lparr>sl_epoch := kLocked, sl_pcs := [PushLocked 1 7, Idle], sl_pushed := {#(1, 7)#}\<rparr>"
  let ?s2 = "?s1\<lparr>sl_callback := Some (1, 7), sl_pcs := [PushWritten 1, Idle]\<rparr>"
  let ?s3 = "?s2\<lparr>sl_epoch := 1, sl_pcs := [Idle, Idle]\<rparr>"
  let ?s4 = "?s3\<lparr>sl_epoch := kLocked, sl_pcs := [Idle, PopLocked 1]\<rparr>"
  let ?s5 = "?s4\<lparr>sl_callback := None, sl_pcs := [Idle, PopTaken (Some (1, 7))]\<rparr>"
  let ?s6 = "?s5\<lparr>sl_epoch := kFree, sl_pcs := [Idle, PopRun (Some (1, 7))]\<rparr>"
  note defs = slot_start_def compare_exchange_def
  have one: "(1 :: u64) < kLocked" by (simp add: kLocked_def word_less_nat_alt)
  have "slot_step ?s0 ?s1" using slot_step.push_lock [of 0 ?s0 1 kLocked 7] one by (simp add: defs)
  moreover have "slot_step ?s1 ?s2" using slot_step.push_write [of 0 ?s1 1 7] by (simp add: defs)
  moreover have "slot_step ?s2 ?s3" using slot_step.push_unlock [of 0 ?s2 1] by (simp add: defs)
  moreover have "slot_step ?s3 ?s4" using slot_step.pop_lock [of 1 ?s3 1 kLocked] by (simp add: defs)
  moreover have "slot_step ?s4 ?s5" using slot_step.pop_take [of 1 ?s4 1] by (simp add: defs)
  moreover have "slot_step ?s5 ?s6"
    using slot_step.pop_unlock [of 1 ?s5 "Some (1, 7)"] by (simp add: defs)
  moreover have "slot_step ?s6 slot_end"
    using slot_step.pop_call [of 1 ?s6 "Some (1, 7)"]
    by (simp add: defs slot_call_def slot_end_def)
  ultimately show ?thesis by (meson rtranclp.rtrancl_into_rtrancl rtranclp.rtrancl_refl)
qed

theorem slot_actions_run_once_witness:
  "slot_initial slot_start \<and> sl_pushed slot_end = {#(1, 7)#} \<and> sl_executed slot_end = sl_pushed slot_end"
proof -
  have init: "slot_initial slot_start"
    by (simp add: slot_initial_def slot_start_def kLocked_def word_less_nat_alt)
  then show ?thesis
    using slot_actions_run_once [OF init slot_run] by (simp add: slot_end_def slot_start_def)
qed

end
