(* ===== verification/Checkpoint_Locks.thy ===== *)
theory Checkpoint_Locks
  imports Hash_Buckets
begin

text \<open>
  \<open>checkpoint_locks.h\<close>: the lock of a hash bucket that is held either by operations of the old
  version or by operations of the new version of a checkpoint. The two 32-bit counts are
  packed into one 64-bit control word, which a compare-and-swap loop updates. The first part
  models the operations, the second the interleaving of the accesses to one lock.
\<close>

section \<open>The control word\<close>

type_synonym checkpoint_lock = u64

definition CheckpointLock :: "u32 \<Rightarrow> u32 \<Rightarrow> checkpoint_lock" where
  [packed]: "CheckpointLock o_cnt n_cnt = bf_put 0 32 (ucast o_cnt) (bf_put 32 32 (ucast n_cnt) 0)"

definition old_lock_count :: "checkpoint_lock \<Rightarrow> u32" where
  [packed]: "old_lock_count c = ucast (bf_get 0 32 c)"

definition new_lock_count :: "checkpoint_lock \<Rightarrow> u32" where
  [packed]: "new_lock_count c = ucast (bf_get 32 32 c)"

lemma take_bit_32_ucast: "take_bit 32 (ucast (x :: u32) :: u64) = ucast x"
  using unat_u32_less [of x] by (intro take_bit_ucast_32) simp

lemma old_lock_count_CheckpointLock [simp]: "old_lock_count (CheckpointLock a b) = a"
  by (simp add: packed packed_simps take_bit_32_ucast)

lemma new_lock_count_CheckpointLock [simp]: "new_lock_count (CheckpointLock a b) = b"
  by (simp add: packed packed_simps take_bit_32_ucast)

lemma unat_old_lock_count: "unat (old_lock_count c) = unat c mod 2 ^ 32"
proof -
  have "unat (bf_get 0 32 c) < 2 ^ 32" by (rule unat_bf_get_less) simp
  then show ?thesis by (simp add: old_lock_count_def unat_ucast_64_32 unat_bf_get)
qed

lemma unat_new_lock_count: "unat (new_lock_count c) = unat c div 2 ^ 32"
proof -
  have "unat (bf_get 32 32 c) < 2 ^ 32" by (rule unat_bf_get_less) simp
  then have "unat (new_lock_count c) = unat c div 2 ^ 32 mod 2 ^ 32"
    by (simp add: new_lock_count_def unat_ucast_64_32 unat_bf_get)
  moreover have "unat c div 2 ^ 32 < 2 ^ 32"
    using unat_u64_less [of c] by (simp add: less_mult_imp_div_less)
  ultimately show ?thesis by simp
qed

lemma unat_checkpoint_lock:
  "unat c = unat (old_lock_count c) + 2 ^ 32 * unat (new_lock_count c)"
  unfolding unat_old_lock_count unat_new_lock_count by (rule mod_mult_div_eq [symmetric])

lemma checkpoint_lock_eqI:
  "old_lock_count c = old_lock_count d \<Longrightarrow> new_lock_count c = new_lock_count d \<Longrightarrow> c = d"
  using unat_checkpoint_lock [of c] unat_checkpoint_lock [of d] by (simp add: word_unat_eq_iff)


section \<open>Operations\<close>

text \<open>
  One iteration of the loop of \<open>try_lock_old\<close>, given the word read before (\<open>expected\<close>): give up,
  succeed with the compare-and-swap, or try again with the word that it found.
\<close>

datatype lock_try = Failed | Locked | Retry checkpoint_lock

definition try_lock_old_iter :: "checkpoint_lock \<Rightarrow> checkpoint_lock \<Rightarrow> lock_try \<times> checkpoint_lock" where
  "try_lock_old_iter expected cell =
     (if new_lock_count expected = 0
      then let desired = CheckpointLock (old_lock_count expected + 1) 0 in
           case compare_exchange cell expected desired of
             (True, _, cell) \<Rightarrow> (Locked, cell)
           | (False, expected, cell) \<Rightarrow> (Retry expected, cell)
      else (Failed, cell))"

definition try_lock_new_iter :: "checkpoint_lock \<Rightarrow> checkpoint_lock \<Rightarrow> lock_try \<times> checkpoint_lock" where
  "try_lock_new_iter expected cell =
     (if old_lock_count expected = 0
      then let desired = CheckpointLock 0 (new_lock_count expected + 1) in
           case compare_exchange cell expected desired of
             (True, _, cell) \<Rightarrow> (Locked, cell)
           | (False, expected, cell) \<Rightarrow> (Retry expected, cell)
      else (Failed, cell))"

text \<open>
  Without interference the first iteration decides: \<open>expected\<close> is the word just loaded.
\<close>

definition try_lock_old :: "checkpoint_lock \<Rightarrow> bool \<times> checkpoint_lock" where
  "try_lock_old cell = (case try_lock_old_iter cell cell of (r, cell) \<Rightarrow> (r = Locked, cell))"

definition try_lock_new :: "checkpoint_lock \<Rightarrow> bool \<times> checkpoint_lock" where
  "try_lock_new cell = (case try_lock_new_iter cell cell of (r, cell) \<Rightarrow> (r = Locked, cell))"

definition unlock_old :: "checkpoint_lock \<Rightarrow> checkpoint_lock" where
  "unlock_old cell = cell - CheckpointLock 1 0"

definition unlock_new :: "checkpoint_lock \<Rightarrow> checkpoint_lock" where
  "unlock_new cell = cell - CheckpointLock 0 1"

definition old_locked :: "checkpoint_lock \<Rightarrow> bool" where
  "old_locked cell \<longleftrightarrow> old_lock_count cell > 0"

definition new_locked :: "checkpoint_lock \<Rightarrow> bool" where
  "new_locked cell \<longleftrightarrow> new_lock_count cell > 0"

text \<open>
  The counts after an unlock. The subtraction on the packed word does not borrow from the
  other count, because the count that is decremented is positive.
\<close>

lemma unlock_old_counts:
  assumes "old_lock_count c \<noteq> 0"
  shows "old_lock_count (unlock_old c) = old_lock_count c - 1"
    "new_lock_count (unlock_old c) = new_lock_count c"
proof -
  let ?o = "unat (old_lock_count c)" and ?n = "unat (new_lock_count c)"
  have o: "0 < ?o" using assms by (simp add: unat_gt_0)
  have one: "unat (CheckpointLock 1 0) = 1" using unat_checkpoint_lock [of "CheckpointLock 1 0"] by simp
  have c: "unat c = ?o + 2 ^ 32 * ?n" by (rule unat_checkpoint_lock)
  with o one have "CheckpointLock 1 0 \<le> c" by (simp add: word_le_nat_alt)
  then have u: "unat (unlock_old c) = (?o - 1) + 2 ^ 32 * ?n"
    using c o one by (simp add: unlock_old_def unat_sub)
  have lt: "?o - 1 < 2 ^ 32" using unat_u32_less [of "old_lock_count c"] by simp
  have "unat (old_lock_count (unlock_old c)) = ?o - 1"
    unfolding unat_old_lock_count u using lt by simp
  then show "old_lock_count (unlock_old c) = old_lock_count c - 1"
    using assms by (simp add: word_unat_eq_iff unat_minus_one)
  have "unat (new_lock_count (unlock_old c)) = ?n"
    unfolding unat_new_lock_count u using lt by simp
  then show "new_lock_count (unlock_old c) = new_lock_count c" by (simp add: word_unat_eq_iff)
qed

lemma unlock_new_counts:
  assumes "new_lock_count c \<noteq> 0"
  shows "old_lock_count (unlock_new c) = old_lock_count c"
    "new_lock_count (unlock_new c) = new_lock_count c - 1"
proof -
  let ?o = "unat (old_lock_count c)" and ?n = "unat (new_lock_count c)"
  have n: "0 < ?n" using assms by (simp add: unat_gt_0)
  have one: "unat (CheckpointLock 0 1) = 2 ^ 32"
    using unat_checkpoint_lock [of "CheckpointLock 0 1"] by simp
  have c: "unat c = ?o + 2 ^ 32 * ?n" by (rule unat_checkpoint_lock)
  with n one have "CheckpointLock 0 1 \<le> c" by (simp add: word_le_nat_alt)
  then have u: "unat (unlock_new c) = ?o + 2 ^ 32 * (?n - 1)"
    using c n one by (simp add: unlock_new_def unat_sub diff_mult_distrib2)
  have lt: "?o < 2 ^ 32" using unat_u32_less [of "old_lock_count c"] by simp
  have "unat (old_lock_count (unlock_new c)) = ?o"
    unfolding unat_old_lock_count [of "unlock_new c"] u using lt by simp
  then show "old_lock_count (unlock_new c) = old_lock_count c" by (simp add: word_unat_eq_iff)
  have "unat (new_lock_count (unlock_new c)) = ?n - 1"
    unfolding unat_new_lock_count [of "unlock_new c"] u using lt by simp
  then show "new_lock_count (unlock_new c) = new_lock_count c - 1"
    using assms by (simp add: word_unat_eq_iff unat_minus_one)
qed


lemma try_lock_old_eq:
  "try_lock_old c =
     (if new_lock_count c = 0 then (True, CheckpointLock (old_lock_count c + 1) 0) else (False, c))"
  by (simp add: try_lock_old_def try_lock_old_iter_def compare_exchange_def)

lemma try_lock_new_eq:
  "try_lock_new c =
     (if old_lock_count c = 0 then (True, CheckpointLock 0 (new_lock_count c + 1)) else (False, c))"
  by (simp add: try_lock_new_def try_lock_new_iter_def compare_exchange_def)


section \<open>The table of locks and the guard\<close>

record checkpoint_locks =
  cl_size :: u64
  cl_locks :: "checkpoint_lock list"

definition CheckpointLocks_Initialize :: "u64 \<Rightarrow> checkpoint_locks" where
  "CheckpointLocks_Initialize sz = \<lparr>cl_size = sz, cl_locks = replicate (unat sz) 0\<rparr>"

definition CheckpointLocks_Free :: checkpoint_locks where
  "CheckpointLocks_Free = \<lparr>cl_size = 0, cl_locks = []\<rparr>"

definition get_lock :: "checkpoint_locks \<Rightarrow> key_hash \<Rightarrow> nat" where
  "get_lock locks h = unat (kh_idx (cl_size locks) h)"

definition upd_lock :: "nat \<Rightarrow> (checkpoint_lock \<Rightarrow> checkpoint_lock) \<Rightarrow> checkpoint_locks \<Rightarrow>
    checkpoint_locks" where
  "upd_lock i f locks = locks\<lparr>cl_locks := (cl_locks locks)[i := f (cl_locks locks ! i)]\<rparr>"

record lock_guard =
  g_lock :: "nat option"
  g_locked_old :: bool
  g_locked_new :: bool

definition CheckpointLockGuard :: "checkpoint_locks \<Rightarrow> key_hash \<Rightarrow> lock_guard" where
  "CheckpointLockGuard locks h =
     \<lparr>g_lock = (if cl_size locks > 0 then Some (get_lock locks h) else None),
      g_locked_old = False, g_locked_new = False\<rparr>"

text \<open>The guard's lock operations require a lock (the source asserts it): None otherwise.\<close>

definition guard_try_lock_old :: "lock_guard \<Rightarrow> checkpoint_locks \<Rightarrow>
    (bool \<times> lock_guard \<times> checkpoint_locks) option" where
  "guard_try_lock_old g locks = (case g_lock g of None \<Rightarrow> None
   | Some i \<Rightarrow>
       let (ok, c) = try_lock_old (cl_locks locks ! i)
       in Some (ok, g\<lparr>g_locked_old := ok\<rparr>, upd_lock i (\<lambda>_. c) locks))"

definition guard_try_lock_new :: "lock_guard \<Rightarrow> checkpoint_locks \<Rightarrow>
    (bool \<times> lock_guard \<times> checkpoint_locks) option" where
  "guard_try_lock_new g locks = (case g_lock g of None \<Rightarrow> None
   | Some i \<Rightarrow>
       let (ok, c) = try_lock_new (cl_locks locks ! i)
       in Some (ok, g\<lparr>g_locked_new := ok\<rparr>, upd_lock i (\<lambda>_. c) locks))"

definition guard_destroy :: "lock_guard \<Rightarrow> checkpoint_locks \<Rightarrow> checkpoint_locks" where
  "guard_destroy g locks = (case g_lock g of None \<Rightarrow> locks
   | Some i \<Rightarrow>
       let locks = (if g_locked_old g then upd_lock i unlock_old locks else locks)
       in if g_locked_new g then upd_lock i unlock_new locks else locks)"

lemma get_lock_less:
  assumes "IsPowerOfTwo (cl_size locks)" "length (cl_locks locks) = unat (cl_size locks)"
  shows "get_lock locks h < length (cl_locks locks)"
  using kh_idx_less [OF assms(1), of h] assms(2) by (simp add: get_lock_def word_less_nat_alt)

lemma upd_lock_same [simp]:
  "i < length (cl_locks locks) \<Longrightarrow> upd_lock i f (upd_lock i (\<lambda>_. c) locks) = upd_lock i (\<lambda>_. f c) locks"
  by (simp add: upd_lock_def)

lemma unlock_old_after_lock:
  assumes "new_lock_count c = 0" "old_lock_count c \<noteq> - 1"
  shows "unlock_old (CheckpointLock (old_lock_count c + 1) 0) = c"
proof (rule checkpoint_lock_eqI)
  have nz: "old_lock_count (CheckpointLock (old_lock_count c + 1) 0) \<noteq> 0"
    using assms(2) by (simp add: eq_neg_iff_add_eq_0)
  show "old_lock_count (unlock_old (CheckpointLock (old_lock_count c + 1) 0)) = old_lock_count c"
    by (simp add: unlock_old_counts(1) [OF nz])
  show "new_lock_count (unlock_old (CheckpointLock (old_lock_count c + 1) 0)) = new_lock_count c"
    by (simp add: unlock_old_counts(2) [OF nz] assms(1))
qed

lemma unlock_new_after_lock:
  assumes "old_lock_count c = 0" "new_lock_count c \<noteq> - 1"
  shows "unlock_new (CheckpointLock 0 (new_lock_count c + 1)) = c"
proof (rule checkpoint_lock_eqI)
  have nz: "new_lock_count (CheckpointLock 0 (new_lock_count c + 1)) \<noteq> 0"
    using assms(2) by (simp add: eq_neg_iff_add_eq_0)
  show "old_lock_count (unlock_new (CheckpointLock 0 (new_lock_count c + 1))) = old_lock_count c"
    by (simp add: unlock_new_counts(1) [OF nz] assms(1))
  show "new_lock_count (unlock_new (CheckpointLock 0 (new_lock_count c + 1))) = new_lock_count c"
    by (simp add: unlock_new_counts(2) [OF nz])
qed


section \<open>Interleavings on one lock\<close>

datatype lock_pc = LIdle | TryOld checkpoint_lock | TryNew checkpoint_lock | HeldOld | HeldNew

record lock_sys =
  ls_cell :: checkpoint_lock
  ls_pcs :: "lock_pc list"

fun after_try :: "(checkpoint_lock \<Rightarrow> lock_pc) \<Rightarrow> lock_pc \<Rightarrow> lock_try \<Rightarrow> lock_pc" where
  "after_try again held Failed = LIdle"
| "after_try again held Locked = held"
| "after_try again held (Retry e) = again e"

inductive lock_step :: "lock_sys \<Rightarrow> lock_sys \<Rightarrow> bool" where
  load_old: "t < length (ls_pcs s) \<Longrightarrow> ls_pcs s ! t = LIdle \<Longrightarrow>
    lock_step s (s\<lparr>ls_pcs := (ls_pcs s)[t := TryOld (ls_cell s)]\<rparr>)"
| iter_old: "t < length (ls_pcs s) \<Longrightarrow> ls_pcs s ! t = TryOld e \<Longrightarrow>
    try_lock_old_iter e (ls_cell s) = (r, c) \<Longrightarrow>
    lock_step s (s\<lparr>ls_cell := c, ls_pcs := (ls_pcs s)[t := after_try TryOld HeldOld r]\<rparr>)"
| release_old: "t < length (ls_pcs s) \<Longrightarrow> ls_pcs s ! t = HeldOld \<Longrightarrow>
    lock_step s (s\<lparr>ls_cell := unlock_old (ls_cell s), ls_pcs := (ls_pcs s)[t := LIdle]\<rparr>)"
| load_new: "t < length (ls_pcs s) \<Longrightarrow> ls_pcs s ! t = LIdle \<Longrightarrow>
    lock_step s (s\<lparr>ls_pcs := (ls_pcs s)[t := TryNew (ls_cell s)]\<rparr>)"
| iter_new: "t < length (ls_pcs s) \<Longrightarrow> ls_pcs s ! t = TryNew e \<Longrightarrow>
    try_lock_new_iter e (ls_cell s) = (r, c) \<Longrightarrow>
    lock_step s (s\<lparr>ls_cell := c, ls_pcs := (ls_pcs s)[t := after_try TryNew HeldNew r]\<rparr>)"
| release_new: "t < length (ls_pcs s) \<Longrightarrow> ls_pcs s ! t = HeldNew \<Longrightarrow>
    lock_step s (s\<lparr>ls_cell := unlock_new (ls_cell s), ls_pcs := (ls_pcs s)[t := LIdle]\<rparr>)"

definition lock_initial :: "lock_sys \<Rightarrow> bool" where
  "lock_initial s \<longleftrightarrow> ls_cell s = 0 \<and> length (ls_pcs s) < 2 ^ 32 \<and> list_all (\<lambda>p. p = LIdle) (ls_pcs s)"

abbreviation holders :: "lock_pc \<Rightarrow> lock_sys \<Rightarrow> nat" where
  "holders p s \<equiv> length (filter (\<lambda>q. q = p) (ls_pcs s))"

definition lock_invar :: "lock_sys \<Rightarrow> bool" where
  "lock_invar s \<longleftrightarrow> length (ls_pcs s) < 2 ^ 32 \<and>
     unat (old_lock_count (ls_cell s)) = holders HeldOld s \<and>
     unat (new_lock_count (ls_cell s)) = holders HeldNew s \<and>
     (old_lock_count (ls_cell s) = 0 \<or> new_lock_count (ls_cell s) = 0)"

lemma holders_update:
  assumes "t < length (ls_pcs s)"
  shows "holders p (s\<lparr>ls_cell := c, ls_pcs := (ls_pcs s)[t := q]\<rparr>) + (if ls_pcs s ! t = p then 1 else 0) =
    holders p s + (if q = p then 1 else 0)"
  using filter_list_update_length [OF assms, of "\<lambda>q. q = p" q] by simp

lemma lock_invar_move:
  assumes "lock_invar s" "t < length (ls_pcs s)"
    and "unat (old_lock_count c) + (if ls_pcs s ! t = HeldOld then 1 else 0) =
      unat (old_lock_count (ls_cell s)) + (if q = HeldOld then 1 else 0)"
    and "unat (new_lock_count c) + (if ls_pcs s ! t = HeldNew then 1 else 0) =
      unat (new_lock_count (ls_cell s)) + (if q = HeldNew then 1 else 0)"
    and "old_lock_count c = 0 \<or> new_lock_count c = 0"
  shows "lock_invar (s\<lparr>ls_cell := c, ls_pcs := (ls_pcs s)[t := q]\<rparr>)"
  using assms holders_update [OF assms(2), where p = HeldOld and c = c and q = q]
    holders_update [OF assms(2), where p = HeldNew and c = c and q = q]
  by (simp add: lock_invar_def)

text \<open>The counts stay below the number of threads, so incrementing one does not wrap.\<close>

lemma count_plus_one:
  assumes "lock_invar s" "t < length (ls_pcs s)" "ls_pcs s ! t \<noteq> p"
    "unat x = holders p s"
  shows "unat (x + 1 :: u32) = unat x + 1"
proof -
  have "holders p s < length (ls_pcs s)"
    using assms(2,3) by (intro length_filter_less) (auto intro: nth_mem)
  then have "unat x + 1 < 2 ^ 32" using assms by (simp add: lock_invar_def)
  then show ?thesis by (simp add: unat_word_ariths)
qed


lemma lock_step_invar:
  assumes inv: "lock_invar s" and step: "lock_step s s'"
  shows "lock_invar s'"
  using step
proof cases
  case (load_old t)
  then have "s' = s\<lparr>ls_cell := ls_cell s, ls_pcs := (ls_pcs s)[t := TryOld (ls_cell s)]\<rparr>" by simp
  then show ?thesis using inv load_old
    by (simp only:) (rule lock_invar_move, simp_all add: lock_invar_def)
next
  case (load_new t)
  then have "s' = s\<lparr>ls_cell := ls_cell s, ls_pcs := (ls_pcs s)[t := TryNew (ls_cell s)]\<rparr>" by simp
  then show ?thesis using inv load_new
    by (simp only:) (rule lock_invar_move, simp_all add: lock_invar_def)
next
  case (iter_old t e r c)
  have plus: "unat (old_lock_count (ls_cell s) + 1) = unat (old_lock_count (ls_cell s)) + 1"
    using inv iter_old(2,3) by (intro count_plus_one [OF inv, of t HeldOld]) (auto simp: lock_invar_def)
  show ?thesis
    unfolding iter_old(1)
    using inv iter_old(2-4) plus
    by (intro lock_invar_move)
      (auto simp: try_lock_old_iter_def compare_exchange_def lock_invar_def split: if_splits)
next
  case (iter_new t e r c)
  have plus: "unat (new_lock_count (ls_cell s) + 1) = unat (new_lock_count (ls_cell s)) + 1"
    using inv iter_new(2,3) by (intro count_plus_one [OF inv, of t HeldNew]) (auto simp: lock_invar_def)
  show ?thesis
    unfolding iter_new(1)
    using inv iter_new(2-4) plus
    by (intro lock_invar_move)
      (auto simp: try_lock_new_iter_def compare_exchange_def lock_invar_def split: if_splits)
next
  case (release_old t)
  then have "filter (\<lambda>q. q = HeldOld) (ls_pcs s) \<noteq> []" by (auto simp: filter_empty_conv in_set_conv_nth)
  then have nz: "old_lock_count (ls_cell s) \<noteq> 0" using inv by (auto simp: lock_invar_def)
  then have "Suc (unat (old_lock_count (ls_cell s) - 1)) = unat (old_lock_count (ls_cell s))"
    using unat_gt_0 [of "old_lock_count (ls_cell s)"] by (simp add: unat_minus_one)
  then show ?thesis
    unfolding release_old(1)
    using inv release_old(2,3) unlock_old_counts [OF nz]
    by (intro lock_invar_move) (auto simp: lock_invar_def)
next
  case (release_new t)
  then have "filter (\<lambda>q. q = HeldNew) (ls_pcs s) \<noteq> []" by (auto simp: filter_empty_conv in_set_conv_nth)
  then have nz: "new_lock_count (ls_cell s) \<noteq> 0" using inv by (auto simp: lock_invar_def)
  then have "Suc (unat (new_lock_count (ls_cell s) - 1)) = unat (new_lock_count (ls_cell s))"
    using unat_gt_0 [of "new_lock_count (ls_cell s)"] by (simp add: unat_minus_one)
  then show ?thesis
    unfolding release_new(1)
    using inv release_new(2,3) unlock_new_counts [OF nz]
    by (intro lock_invar_move) (auto simp: lock_invar_def)
qed

interpretation lock_ts: transition_system lock_initial lock_step lock_invar
proof
  show "lock_invar s" if "lock_initial s" for s
  proof -
    have "filter (\<lambda>q. q = p) (ls_pcs s) = []" if "p \<noteq> LIdle" for p
      using \<open>lock_initial s\<close> that by (auto simp: lock_initial_def list_all_iff filter_empty_conv)
    then show ?thesis using that
      by (simp add: lock_initial_def lock_invar_def old_lock_count_def new_lock_count_def)
  qed
qed (rule lock_step_invar)


section \<open>Properties of the checkpoint locks\<close>

text \<open>
  C18: in every interleaving of the lock operations on a bucket, no thread holds the lock for
  the old version while another holds it for the new version, and the packed counts are the
  numbers of the holders.
\<close>

theorem checkpoint_lock_excludes:
  assumes "lock_initial s0" "lock_step\<^sup>*\<^sup>* s0 s"
  shows "\<not> (HeldOld \<in> set (ls_pcs s) \<and> HeldNew \<in> set (ls_pcs s)) \<and>
    unat (old_lock_count (ls_cell s)) = holders HeldOld s \<and>
    unat (new_lock_count (ls_cell s)) = holders HeldNew s"
proof -
  have inv: "lock_invar s" by (rule lock_ts.invar_reachable [OF assms])
  then have "filter (\<lambda>q. q = HeldOld) (ls_pcs s) = [] \<or> filter (\<lambda>q. q = HeldNew) (ls_pcs s) = []"
    by (auto simp: lock_invar_def)
  then show ?thesis using inv by (auto simp: lock_invar_def filter_empty_conv)
qed

text \<open>Two threads: the first holds the old version, the second has read the word.\<close>

definition lock_start :: lock_sys where
  "lock_start = \<lparr>ls_cell = 0, ls_pcs = [LIdle, LIdle]\<rparr>"

definition lock_held :: lock_sys where
  "lock_held = \<lparr>ls_cell = CheckpointLock 1 0, ls_pcs = [HeldOld, TryNew 0]\<rparr>"

lemma lock_run: "lock_step\<^sup>*\<^sup>* lock_start lock_held"
proof -
  let ?s1 = "\<lparr>ls_cell = 0, ls_pcs = [TryOld 0, LIdle]\<rparr>"
  let ?s2 = "\<lparr>ls_cell = 0, ls_pcs = [TryOld 0, TryNew 0]\<rparr>"
  have zero: "new_lock_count 0 = 0" "old_lock_count 0 = 0"
    by (simp_all add: new_lock_count_def old_lock_count_def)
  have "lock_step lock_start ?s1" using load_old [of 0 lock_start] by (simp add: lock_start_def)
  moreover have "lock_step ?s1 ?s2" using load_new [of 1 ?s1] by simp
  moreover have "lock_step ?s2 lock_held"
    using iter_old [of 0 ?s2 0 Locked "CheckpointLock 1 0"]
    by (simp add: lock_held_def try_lock_old_iter_def compare_exchange_def zero)
  ultimately show ?thesis by (meson rtranclp.rtrancl_into_rtrancl rtranclp.rtrancl_refl)
qed

theorem checkpoint_lock_excludes_witness:
  "lock_initial lock_start \<and> HeldOld \<in> set (ls_pcs lock_held) \<and> HeldNew \<notin> set (ls_pcs lock_held) \<and>
   unat (old_lock_count (ls_cell lock_held)) = 1"
proof -
  have init: "lock_initial lock_start" by (simp add: lock_initial_def lock_start_def)
  show ?thesis using init checkpoint_lock_excludes [OF init lock_run] by (simp add: lock_held_def)
qed



end
