(* ===== verification/Async.thy ===== *)
theory Async
  imports Prelude
begin

text \<open>
  \<open>status.h\<close> and \<open>async.h\<close>: the status codes, the deep copy of the contexts of asynchronous
  operations, and the bookkeeping of a batch of asynchronous requests that
  \<open>MallocFixedPageSize\<close> and \<open>InternalHashTable\<close> share for checkpoint and recovery.
\<close>

datatype status = Ok | Pending | NotFound | OutOfMemory | IOError | Corruption | Aborted


section \<open>Contexts\<close>

text \<open>
  A context with its own data, the flag \<open>from_deep_copy_\<close> and, for a context with a caller,
  the caller's context. Heap allocations take their outcomes from a stream, given as a list
  of booleans (an exhausted list fails).
\<close>

datatype 'c async_context = Context (ctx_from_deep_copy: bool) (ctx_data: 'c) (ctx_caller: "'c async_context option")

fun alloc_context :: "bool list \<Rightarrow> bool \<times> bool list" where
  "alloc_context [] = (False, [])"
| "alloc_context (b # bs) = (b, bs)"

fun DeepCopy :: "'c async_context \<Rightarrow> bool list \<Rightarrow> status \<times> 'c async_context option \<times> bool list" where
  "DeepCopy (Context True c caller) allocs = (Ok, Some (Context True c caller), allocs)"
| "DeepCopy (Context False c None) allocs =
     (let (ok, allocs) = alloc_context allocs in
      if \<not> ok then (OutOfMemory, None, allocs)
      else (Ok, Some (Context True c None), allocs))"
| "DeepCopy (Context False c (Some caller)) allocs =
     (let (ok, allocs) = alloc_context allocs in
      if \<not> ok then (OutOfMemory, None, allocs)
      else case DeepCopy caller allocs of
             (Ok, Some caller_copy, allocs) \<Rightarrow> (Ok, Some (Context True c (Some caller_copy)), allocs)
           | (result, _, allocs) \<Rightarrow> (result, None, allocs))"

text \<open>Whether \<open>CallbackContext\<close> frees its context at the end of the callback.\<close>

definition CallbackContext_frees :: "bool \<Rightarrow> 'c async_context \<Rightarrow> bool" where
  "CallbackContext_frees went_async ctxt \<longleftrightarrow> \<not> (went_async \<or> \<not> ctx_from_deep_copy ctxt)"

text \<open>The contexts that a context refers to, itself first; and the same with the flags set.\<close>

fun ctx_chain :: "'c async_context \<Rightarrow> 'c list" where
  "ctx_chain (Context d c None) = [c]"
| "ctx_chain (Context d c (Some k)) = c # ctx_chain k"

fun on_heap :: "'c async_context \<Rightarrow> bool" where
  "on_heap (Context d c None) = d"
| "on_heap (Context d c (Some k)) = (d \<and> on_heap k)"

text \<open>A context whose caller chain is on the heap above every deep-copied context.\<close>

fun ctx_ok :: "'c async_context \<Rightarrow> bool" where
  "ctx_ok (Context d c None) = True"
| "ctx_ok (Context d c (Some k)) = (ctx_ok k \<and> (d \<longrightarrow> on_heap k))"

fun num_copies :: "'c async_context \<Rightarrow> nat" where
  "num_copies (Context True c k) = 0"
| "num_copies (Context False c None) = 1"
| "num_copies (Context False c (Some k)) = Suc (num_copies k)"

lemma on_heap_no_copies: "ctx_ok x \<Longrightarrow> ctx_from_deep_copy x \<Longrightarrow> on_heap x"
  by (cases x rule: on_heap.cases) simp_all

lemma DeepCopy_Ok:
  assumes "DeepCopy x allocs = (Ok, y, allocs')" "ctx_ok x"
  shows "\<exists>x'. y = Some x' \<and> on_heap x' \<and> ctx_chain x' = ctx_chain x \<and>
    allocs' = drop (num_copies x) allocs"
  using assms
proof (induction x allocs arbitrary: y allocs' rule: DeepCopy.induct)
  case (1 c caller allocs)
  then show ?case using on_heap_no_copies [of "Context True c caller"] by auto
next
  case (2 c allocs)
  then show ?case by (cases allocs) (auto split: if_splits)
next
  case (3 c caller allocs)
  then show ?case
    by (cases allocs) (fastforce split: if_splits status.splits option.splits prod.splits)+
qed

lemma DeepCopy_fails:
  assumes "fst (DeepCopy x allocs) \<noteq> Ok"
  shows "fst (DeepCopy x allocs) = OutOfMemory \<and> fst (snd (DeepCopy x allocs)) = None"
  using assms
proof (induction x allocs rule: DeepCopy.induct)
  case (3 c caller allocs)
  then show ?case
    by (cases allocs) (auto split: status.splits option.splits prod.splits)
qed (auto simp: Let_def split: prod.splits)

lemma DeepCopy_total:
  assumes "\<forall>b \<in> set allocs. b" "num_copies x \<le> length allocs"
  shows "fst (DeepCopy x allocs) = Ok \<and> fst (snd (DeepCopy x allocs)) \<noteq> None"
  using assms
proof (induction x allocs rule: DeepCopy.induct)
  case (2 c allocs)
  then show ?case by (cases allocs) auto
next
  case (3 c caller allocs)
  then obtain bs where bs: "allocs = True # bs" by (cases allocs) auto
  have "fst (DeepCopy caller bs) = Ok \<and> fst (snd (DeepCopy caller bs)) \<noteq> None"
    using "3.IH" [of "(True, bs)" True bs] "3.prems" bs by simp
  then obtain y rest where "DeepCopy caller bs = (Ok, Some y, rest)"
    by (cases "DeepCopy caller bs") auto
  then show ?case using bs by simp
qed simp


section \<open>Batches of asynchronous requests\<close>

record async_batch =
  ab_count :: u64
  ab_pending :: bool
  ab_failed :: bool

definition batch_idle :: async_batch where
  "batch_idle = \<lparr>ab_count = 0, ab_pending = False, ab_failed = False\<rparr>"

definition batch_start :: "u64 \<Rightarrow> async_batch" where
  "batch_start n = \<lparr>ab_count = n, ab_pending = True, ab_failed = False\<rparr>"

text \<open>
  The completion of one request, with its result and the result that closing the file gives
  if this is the last one.
\<close>

definition batch_callback :: "status \<Rightarrow> status \<Rightarrow> async_batch \<Rightarrow> async_batch" where
  "batch_callback close_result result b =
     (let b = (if result \<noteq> Ok then b\<lparr>ab_failed := True\<rparr> else b);
          b = b\<lparr>ab_count := ab_count b - 1\<rparr>
      in if ab_count b = 0
         then (if close_result \<noteq> Ok then b\<lparr>ab_failed := True\<rparr> else b)\<lparr>ab_pending := False\<rparr>
         else b)"

definition batch_complete :: "async_batch \<Rightarrow> status" where
  "batch_complete b = (if ab_pending b then Pending else if ab_failed b then IOError else Ok)"

text \<open>
  Waiting for a batch spins until its completions have arrived; here they are separate steps,
  so waiting for a pending batch is None.
\<close>

definition wait_batch :: "bool \<Rightarrow> async_batch \<Rightarrow> status option" where
  "wait_batch wait b = (if wait \<and> ab_pending b then None else Some (batch_complete b))"

text \<open>
  Issuing the requests in order: the first one that is not accepted ends the loop with its
  status (\<open>RETURN_NOT_OK\<close>). The result lists the requests issued.
\<close>

fun issue_all :: "('r \<Rightarrow> status) \<Rightarrow> 'r list \<Rightarrow> status \<times> 'r list" where
  "issue_all accept [] = (Ok, [])"
| "issue_all accept (r # rs) =
     (if accept r \<noteq> Ok then (accept r, [])
      else let (st, issued) = issue_all accept rs in (st, r # issued))"

lemma batch_callbacks:
  fixes close_result :: status
  assumes "ab_pending b" "length results \<le> unat (ab_count b)" "0 < unat (ab_count b)"
  defines "b' \<equiv> fold (batch_callback close_result) results b"
  shows "ab_pending b' \<longleftrightarrow> length results < unat (ab_count b)"
    and "unat (ab_count b') = unat (ab_count b) - length results"
    and "ab_failed b' \<longleftrightarrow> ab_failed b \<or> (\<exists>r \<in> set results. r \<noteq> Ok) \<or>
      (length results = unat (ab_count b) \<and> close_result \<noteq> Ok)"
proof -
  have "(ab_pending b' \<longleftrightarrow> length results < unat (ab_count b)) \<and>
      unat (ab_count b') = unat (ab_count b) - length results \<and>
      (ab_failed b' \<longleftrightarrow> ab_failed b \<or> (\<exists>r \<in> set results. r \<noteq> Ok) \<or>
        (length results = unat (ab_count b) \<and> close_result \<noteq> Ok))"
    unfolding b'_def using assms(1-3)
  proof (induction results arbitrary: b)
    case (Cons r rs)
    have nz: "ab_count b \<noteq> 0" using Cons.prems(3) by auto
    then have u: "unat (ab_count b - 1) = unat (ab_count b) - 1" by (simp add: unat_minus_one)
    show ?case
    proof (cases "unat (ab_count b) = 1")
      case True
      then have "ab_count b = 1" "rs = []" using Cons.prems(2) by (simp_all add: word_unat_eq_iff)
      then show ?thesis by (simp add: batch_callback_def Let_def)
    next
      case False
      let ?b = "batch_callback close_result r b"
      have "ab_count b - 1 \<noteq> 0" using False u Cons.prems(3) by (metis One_nat_def Suc_pred unat_0 unat_eq_zero)
      then have b: "ab_count ?b = ab_count b - 1" "ab_pending ?b"
        "ab_failed ?b \<longleftrightarrow> ab_failed b \<or> r \<noteq> Ok"
        using Cons.prems(1) by (auto simp: batch_callback_def Let_def)
      show ?thesis
        using Cons.IH [of ?b] Cons.prems False u b by auto
    qed
  qed simp
  then show "ab_pending b' \<longleftrightarrow> length results < unat (ab_count b)"
    "unat (ab_count b') = unat (ab_count b) - length results"
    "ab_failed b' \<longleftrightarrow> ab_failed b \<or> (\<exists>r \<in> set results. r \<noteq> Ok) \<or>
      (length results = unat (ab_count b) \<and> close_result \<noteq> Ok)" by blast+
qed

lemma issue_all_Ok: "fst (issue_all accept rs) = Ok \<Longrightarrow> snd (issue_all accept rs) = rs"
  by (induction rs) (auto split: if_splits prod.splits)

lemma issue_all_accepts: "(\<And>r. r \<in> set rs \<Longrightarrow> accept r = Ok) \<Longrightarrow> issue_all accept rs = (Ok, rs)"
  by (induction rs) auto


section \<open>Properties\<close>

text \<open>
  C25: a deep copy of a context either reports success and yields a copy, entirely on the heap,
  of the same chain of contexts, or reports that memory ran out and yields nothing; with
  enough memory it succeeds, and copying a copy allocates nothing.
\<close>

theorem DeepCopy_correct:
  assumes "ctx_ok x"
  shows "(case DeepCopy x allocs of
      (Ok, Some x', rest) \<Rightarrow> on_heap x' \<and> ctx_chain x' = ctx_chain x \<and>
        rest = drop (num_copies x) allocs \<and> DeepCopy x' rest = (Ok, Some x', rest)
    | (OutOfMemory, None, _) \<Rightarrow> \<not> (num_copies x \<le> length allocs \<and> (\<forall>b \<in> set allocs. b))
    | _ \<Rightarrow> False)"
proof (cases "fst (DeepCopy x allocs) = Ok")
  case True
  then obtain y rest where r: "DeepCopy x allocs = (Ok, y, rest)" by (cases "DeepCopy x allocs") auto
  from DeepCopy_Ok [OF r assms] obtain x' where
    x': "y = Some x'" "on_heap x'" "ctx_chain x' = ctx_chain x" "rest = drop (num_copies x) allocs"
    by blast
  from x'(2) have "DeepCopy x' rest = (Ok, Some x', rest)"
    by (cases x' rule: on_heap.cases) simp_all
  then show ?thesis using r x' by simp
next
  case False
  then have "fst (DeepCopy x allocs) = OutOfMemory" "fst (snd (DeepCopy x allocs)) = None"
    using DeepCopy_fails by blast+
  moreover have "\<not> (num_copies x \<le> length allocs \<and> (\<forall>b \<in> set allocs. b))"
    using DeepCopy_total False by blast
  ultimately show ?thesis by (cases "DeepCopy x allocs") auto
qed

theorem DeepCopy_correct_witness:
  "DeepCopy (Context False (1::nat) (Some (Context False 2 None))) [True, True, True] =
     (Ok, Some (Context True 1 (Some (Context True 2 None))), [True]) \<and>
   (case DeepCopy (Context False (1::nat) (Some (Context False 2 None))) [True, True, True] of
      (Ok, Some x', rest) \<Rightarrow> on_heap x' \<and> ctx_chain x' = [1, 2] | _ \<Rightarrow> False)"
  using DeepCopy_correct [of "Context False (1::nat) (Some (Context False 2 None))"
      "[True, True, True]"] by simp

text \<open>
  C26: a batch of requests is reported pending until the last one has completed; then it is
  reported as successful exactly when every request and the closing of the file were.
\<close>

theorem batch_reports:
  assumes "0 < unat n" "length results \<le> unat n"
  shows "batch_complete (fold (batch_callback close_result) results (batch_start n)) =
    (if length results < unat n then Pending
     else if (\<forall>r \<in> set results. r = Ok) \<and> close_result = Ok then Ok else IOError)"
  using batch_callbacks [of "batch_start n" results close_result] assms
  by (auto simp: batch_start_def batch_complete_def)

theorem batch_reports_witness:
  "batch_complete (fold (batch_callback Ok) [Ok, IOError] (batch_start 3)) = Pending \<and>
   batch_complete (fold (batch_callback Ok) [Ok, IOError, Ok] (batch_start 3)) = IOError \<and>
   batch_complete (fold (batch_callback Ok) [Ok, Ok, Ok] (batch_start 3)) = Ok"
  using batch_reports [of 3 "[Ok, IOError]" Ok] batch_reports [of 3 "[Ok, IOError, Ok]" Ok]
    batch_reports [of 3 "[Ok, Ok, Ok]" Ok] by simp

end
