(* ===== verification/Fixed_Malloc.thy ===== *)
theory Fixed_Malloc
  imports Light_Epoch Utils Async
begin

text \<open>
  \<open>malloc_fixed_page_size.h\<close>: the allocator of fixed-size items (the overflow buckets of the
  hash index). Items live in pages of 2^20 items; the array of page pointers doubles when it
  is full, the old array being deleted when the epoch allows it; every thread has a list of
  freed addresses that it may reuse once their removal epoch is safe. A page is a function
  from offsets to items; a null page pointer is None. An operation that would spin forever is
  None. The asynchronous I/O of checkpoint and recovery is modelled by the requests issued
  and the completions they receive. The action that deletes an old array of \<open>n\<close> page
  pointers is \<open>del n\<close>.
\<close>

section \<open>Addresses and pages\<close>

type_synonym fpa = u64

definition fpa_offset :: "fpa \<Rightarrow> u32" where
  "fpa_offset a = ucast (bf_get 0 20 a)"

definition fpa_page :: "fpa \<Rightarrow> u64" where
  "fpa_page a = bf_get 20 28 a"

lemma unat_fpa_offset: "unat (fpa_offset a) = unat a mod 2 ^ 20"
proof -
  have "unat (bf_get 0 20 a) < 2 ^ 20" by (rule unat_bf_get_less) simp
  then show ?thesis by (simp add: fpa_offset_def unat_ucast_64_32 unat_bf_get)
qed

lemma unat_fpa_page: "unat a < 2 ^ 48 \<Longrightarrow> unat (fpa_page a) = unat a div 2 ^ 20"
proof -
  assume "unat a < 2 ^ 48"
  then have "unat a div 2 ^ 20 < 2 ^ 28" by (simp add: less_mult_imp_div_less)
  then show ?thesis by (simp add: fpa_page_def unat_bf_get)
qed

lemma fpa_eqI:
  assumes "unat a < 2 ^ 48" "unat b < 2 ^ 48" "fpa_page a = fpa_page b" "fpa_offset a = fpa_offset b"
  shows "a = b"
proof -
  have "unat a div 2 ^ 20 = unat b div 2 ^ 20" "unat a mod 2 ^ 20 = unat b mod 2 ^ 20"
    using assms unat_fpa_page unat_fpa_offset by metis+
  then have "unat a = unat b" by (metis mod_mult_div_eq)
  then show ?thesis by (simp add: word_unat_eq_iff)
qed

type_synonym 'i page = "nat \<Rightarrow> 'i"

text \<open>
  \<open>FixedPageArray\<close>: creating an array from an old one waits for every page of the old one
  (None when a page is missing); adding a page keeps a page that is already there.
\<close>

definition Array_Create :: "nat \<Rightarrow> 'i page option list \<Rightarrow> 'i page option list option" where
  "Array_Create sz old =
     (if list_all (\<lambda>p. p \<noteq> None) old then Some (old @ replicate (sz - length old) None) else None)"

definition AddPage :: "'i \<Rightarrow> nat \<Rightarrow> 'i page option list \<Rightarrow> 'i page option list" where
  "AddPage blank idx pages =
     (case pages ! idx of None \<Rightarrow> pages[idx := Some (\<lambda>_. blank)] | Some _ \<Rightarrow> pages)"

definition GetOrAdd :: "'i \<Rightarrow> nat \<Rightarrow> 'i page option list \<Rightarrow> 'i page option list" where
  "GetOrAdd blank idx pages = (if pages ! idx = None then AddPage blank idx pages else pages)"


section \<open>The allocator\<close>

record 'i fixed_malloc =
  fm_pages :: "'i page option list"
  fm_count :: fpa
  fm_free :: "nat \<Rightarrow> (fpa \<times> u64) list"
  fm_checkpoint :: async_batch
  fm_recover :: async_batch

definition fm_get :: "'i fixed_malloc \<Rightarrow> fpa \<Rightarrow> 'i option" where
  "fm_get m a =
     (let p = unat (fpa_page a) in
      if p < length (fm_pages m)
      then map_option (\<lambda>pg. pg (unat (fpa_offset a))) (fm_pages m ! p) else None)"

definition fm_set :: "fpa \<Rightarrow> 'i \<Rightarrow> 'i fixed_malloc \<Rightarrow> 'i fixed_malloc" where
  "fm_set a x m =
     (let p = unat (fpa_page a) in
      m\<lparr>fm_pages := (fm_pages m)[p :=
          map_option (\<lambda>pg. pg(unat (fpa_offset a) := x)) (fm_pages m ! p)]\<rparr>)"

definition ExpandArray :: "('a \<Rightarrow> 'z \<Rightarrow> 'z) \<Rightarrow> (nat \<Rightarrow> 'a) \<Rightarrow> nat \<Rightarrow>
    'i fixed_malloc \<times> ('a, 'z) light_epoch_scheme \<Rightarrow>
    ('i fixed_malloc \<times> ('a, 'z) light_epoch_scheme) option" where
  "ExpandArray act del new_size = (\<lambda>(m, e).
     case Array_Create new_size (fm_pages m) of
       None \<Rightarrow> None
     | Some new_array \<Rightarrow>
         (case BumpCurrentEpoch_action act (del (length (fm_pages m))) e of
            None \<Rightarrow> None
          | Some (_, e) \<Rightarrow> Some (m\<lparr>fm_pages := new_array\<rparr>, e)))"

definition Allocate_fresh :: "'i \<Rightarrow> ('a \<Rightarrow> 'z \<Rightarrow> 'z) \<Rightarrow> (nat \<Rightarrow> 'a) \<Rightarrow>
    'i fixed_malloc \<times> ('a, 'z) light_epoch_scheme \<Rightarrow>
    (fpa \<times> 'i fixed_malloc \<times> ('a, 'z) light_epoch_scheme) option" where
  "Allocate_fresh blank act del = (\<lambda>(m, e).
     let addr = fm_count m;
         page = unat (fpa_page addr);
         m = m\<lparr>fm_count := addr + 1\<rparr>
     in case (if page \<ge> length (fm_pages m)
              then ExpandArray act del (unat (next_power_of_two (fpa_page addr + 1))) (m, e)
              else Some (m, e)) of
          None \<Rightarrow> None
        | Some (m, e) \<Rightarrow>
            let pages = fm_pages m;
                pages = (if fpa_offset addr = 0 \<and> page + 1 < length pages
                         then AddPage blank (page + 1) pages else pages);
                pages = GetOrAdd blank page pages
            in Some (addr, m\<lparr>fm_pages := pages\<rparr>, e))"

definition Malloc_Allocate :: "'i \<Rightarrow> ('a \<Rightarrow> 'z \<Rightarrow> 'z) \<Rightarrow> (nat \<Rightarrow> 'a) \<Rightarrow> nat \<Rightarrow>
    'i fixed_malloc \<times> ('a, 'z) light_epoch_scheme \<Rightarrow>
    (fpa \<times> 'i fixed_malloc \<times> ('a, 'z) light_epoch_scheme) option" where
  "Malloc_Allocate blank act del t = (\<lambda>(m, e).
     case fm_free m t of
       (removed_addr, removal_epoch) # rest \<Rightarrow>
         if removal_epoch \<le> safe_to_reclaim_epoch e
         then Some (removed_addr, m\<lparr>fm_free := (fm_free m)(t := rest)\<rparr>, e)
         else Allocate_fresh blank act del (m, e)
     | [] \<Rightarrow> Allocate_fresh blank act del (m, e))"

definition FreeAtEpoch :: "nat \<Rightarrow> fpa \<Rightarrow> u64 \<Rightarrow> 'i fixed_malloc \<Rightarrow> 'i fixed_malloc" where
  "FreeAtEpoch t addr removed_epoch m =
     m\<lparr>fm_free := (fm_free m)(t := fm_free m t @ [(addr, removed_epoch)])\<rparr>"

text \<open>
  \<open>Initialize\<close> builds an array of two pages, adds the first, and allocates the null address.
  The free lists are members that it does not touch: a new allocator has empty ones, one that
  is initialised again keeps those of its earlier life.
\<close>

definition Malloc_reset :: "'i \<Rightarrow> (nat \<Rightarrow> (fpa \<times> u64) list) \<Rightarrow> 'i fixed_malloc" where
  "Malloc_reset blank free =
     \<lparr>fm_pages = AddPage blank 0 [None, None], fm_count = 0, fm_free = free,
      fm_checkpoint = batch_idle, fm_recover = batch_idle\<rparr>"

definition Malloc_Initialize :: "'i \<Rightarrow> ('a \<Rightarrow> 'z \<Rightarrow> 'z) \<Rightarrow> (nat \<Rightarrow> 'a) \<Rightarrow> nat \<Rightarrow>
    (nat \<Rightarrow> (fpa \<times> u64) list) \<Rightarrow> ('a, 'z) light_epoch_scheme \<Rightarrow>
    ('i fixed_malloc \<times> ('a, 'z) light_epoch_scheme) option" where
  "Malloc_Initialize blank act del t free e =
     map_option snd (Malloc_Allocate blank act del t (Malloc_reset blank free, e))"


section \<open>Checkpoint and recovery\<close>

text \<open>
  A request writes or reads one page at a byte offset of the file; \<open>accept\<close> is the status
  with which the file takes a request. \<open>item_size\<close> is \<open>sizeof(item_t)\<close>.
\<close>

definition fm_levels :: "fpa \<Rightarrow> nat" where
  "fm_levels c = unat (fpa_page c) + (if fpa_offset c > 0 then 1 else 0)"

definition page_file_offset :: "u64 \<Rightarrow> nat \<Rightarrow> u64" where
  "page_file_offset item_size idx = of_nat idx * (2 ^ 20 * item_size)"

definition Malloc_Checkpoint :: "u64 \<Rightarrow> (u64 \<times> 'i page option \<Rightarrow> status) \<Rightarrow> 'i fixed_malloc \<Rightarrow>
    status \<times> u64 \<times> (u64 \<times> 'i page option) list \<times> 'i fixed_malloc" where
  "Malloc_Checkpoint item_size accept m =
     (let count = fm_count m;
          num_levels = fm_levels count;
          (st, issued) = issue_all accept
            (map (\<lambda>idx. (page_file_offset item_size idx, fm_pages m ! idx)) [0..<num_levels])
      in (st, if st = Ok then count * item_size else 0, issued,
          m\<lparr>fm_checkpoint := batch_start (of_nat num_levels)\<rparr>))"

definition Malloc_checkpoint_callback :: "status \<Rightarrow> status \<Rightarrow> 'i fixed_malloc \<Rightarrow> 'i fixed_malloc" where
  "Malloc_checkpoint_callback close_result result m =
     m\<lparr>fm_checkpoint := batch_callback close_result result (fm_checkpoint m)\<rparr>"

definition Malloc_CheckpointComplete :: "bool \<Rightarrow> 'i fixed_malloc \<Rightarrow> status option" where
  "Malloc_CheckpointComplete wait m = wait_batch wait (fm_checkpoint m)"

fun recover_loop :: "'i \<Rightarrow> u64 \<Rightarrow> (u64 \<times> nat \<Rightarrow> status) \<Rightarrow> nat list \<Rightarrow> 'i page option list \<Rightarrow>
    status \<times> (u64 \<times> nat) list \<times> 'i page option list" where
  "recover_loop blank item_size accept [] pages = (Ok, [], pages)"
| "recover_loop blank item_size accept (idx # idxs) pages =
     (let pages = GetOrAdd blank idx pages;
          r = (page_file_offset item_size idx, idx)
      in if accept r \<noteq> Ok then (accept r, [], pages)
         else let (st, issued, pages) = recover_loop blank item_size accept idxs pages
              in (st, r # issued, pages))"

definition Malloc_Recover :: "'i \<Rightarrow> ('a \<Rightarrow> 'z \<Rightarrow> 'z) \<Rightarrow> (nat \<Rightarrow> 'a) \<Rightarrow> u64 \<Rightarrow>
    (u64 \<times> nat \<Rightarrow> status) \<Rightarrow> u64 \<Rightarrow> fpa \<Rightarrow> 'i fixed_malloc \<times> ('a, 'z) light_epoch_scheme \<Rightarrow>
    (status \<times> (u64 \<times> nat) list \<times> 'i fixed_malloc \<times> ('a, 'z) light_epoch_scheme) option" where
  "Malloc_Recover blank act del item_size accept file_size count = (\<lambda>(m, e).
     let num_file_levels = fm_levels (file_size div item_size);
         num_levels = fm_levels count
     in case (if length (fm_pages m) < num_levels
              then ExpandArray act del (unat (next_power_of_two (of_nat num_levels))) (m, e)
              else Some (m, e)) of
          None \<Rightarrow> None
        | Some (m, e) \<Rightarrow>
            let (st, issued, pages) =
                  recover_loop blank item_size accept [0..<num_file_levels] (fm_pages m)
            in Some (st, issued,
                 m\<lparr>fm_count := count, fm_recover := batch_start (of_nat num_file_levels),
                   fm_pages := pages\<rparr>, e))"

definition Malloc_recover_callback :: "status \<Rightarrow> status \<Rightarrow> 'i fixed_malloc \<Rightarrow> 'i fixed_malloc" where
  "Malloc_recover_callback close_result result m =
     m\<lparr>fm_recover := batch_callback close_result result (fm_recover m)\<rparr>"

definition Malloc_RecoverComplete :: "bool \<Rightarrow> 'i fixed_malloc \<Rightarrow> status option" where
  "Malloc_RecoverComplete wait m = wait_batch wait (fm_recover m)"

text \<open>The effects of the requests on a file of pages, and of the reads on the page memory.\<close>

definition write_pages :: "(u64 \<times> 'i page option) list \<Rightarrow> (u64 \<rightharpoonup> 'i page)" where
  "write_pages reqs = fold (\<lambda>(off, pg) f. f(off := pg)) reqs Map.empty"

definition read_pages :: "(u64 \<rightharpoonup> 'i page) \<Rightarrow> (u64 \<times> nat) list \<Rightarrow> 'i fixed_malloc \<Rightarrow> 'i fixed_malloc" where
  "read_pages file reqs m =
     m\<lparr>fm_pages := fold (\<lambda>(off, idx) ps. ps[idx := file off]) reqs (fm_pages m)\<rparr>"


section \<open>Well-formed allocators\<close>

text \<open>
  The array has room for, and holds, every page that contains an allocated item; its size is
  a power of two.
\<close>

definition pages_ok :: "'i fixed_malloc \<Rightarrow> bool" where
  "pages_ok m \<longleftrightarrow> (\<exists>k. length (fm_pages m) = 2 ^ k) \<and> unat (fm_count m) < 2 ^ 48 \<and>
     (\<forall>p. p * 2 ^ 20 < unat (fm_count m) \<longrightarrow> p < length (fm_pages m) \<and> fm_pages m ! p \<noteq> None)"

lemma fm_get_allocated:
  assumes "pages_ok m" "unat a < unat (fm_count m)"
  shows "fm_get m a \<noteq> None"
proof -
  have a: "unat a < 2 ^ 48" using assms by (simp add: pages_ok_def)
  have "unat (fpa_page a) * 2 ^ 20 \<le> unat a" unfolding unat_fpa_page [OF a] by simp
  then have "unat (fpa_page a) * 2 ^ 20 < unat (fm_count m)" using assms(2) by linarith
  then show ?thesis using assms(1) by (simp add: pages_ok_def fm_get_def Let_def)
qed

lemma fm_get_set_same:
  assumes "fm_get m a \<noteq> None"
  shows "fm_get (fm_set a x m) a = Some x"
  using assms by (auto simp: fm_get_def fm_set_def Let_def split: if_splits)

lemma fm_get_set_other:
  assumes "unat a < 2 ^ 48" "unat b < 2 ^ 48" "a \<noteq> b"
  shows "fm_get (fm_set a x m) b = fm_get m b"
proof (cases "fpa_page a = fpa_page b")
  case True
  then have "fpa_offset a \<noteq> fpa_offset b" using fpa_eqI [OF assms(1,2)] assms(3) by blast
  then have "unat (fpa_offset a) \<noteq> unat (fpa_offset b)" by (simp add: word_unat_eq_iff)
  then show ?thesis using True
    by (cases "fm_pages m ! unat (fpa_page b)") (simp_all add: fm_get_def fm_set_def Let_def)
next
  case False
  then have "unat (fpa_page a) \<noteq> unat (fpa_page b)" by (simp add: word_unat_eq_iff)
  then show ?thesis by (simp add: fm_get_def fm_set_def Let_def)
qed

lemma length_AddPage [simp]: "length (AddPage blank i ps) = length ps"
  by (simp add: AddPage_def split: option.split)

lemma length_GetOrAdd [simp]: "length (GetOrAdd blank i ps) = length ps"
  by (simp add: GetOrAdd_def)

lemma nth_AddPage:
  "AddPage blank i ps ! j =
     (if i = j \<and> j < length ps \<and> ps ! j = None then Some (\<lambda>_. blank) else ps ! j)"
  by (auto simp: AddPage_def nth_list_update_if split: option.split)

lemma nth_GetOrAdd:
  "GetOrAdd blank i ps ! j =
     (if i = j \<and> j < length ps \<and> ps ! j = None then Some (\<lambda>_. blank) else ps ! j)"
  by (simp add: GetOrAdd_def nth_AddPage)

text \<open>Expanding the array at the moment a fresh address needs it: no page is missing.\<close>

lemma ExpandArray_pages:
  assumes "ExpandArray act del n (m, e) = Some (m', e')"
  shows "m' = m\<lparr>fm_pages := fm_pages m @ replicate (n - length (fm_pages m)) None\<rparr>"
  using assms by (auto simp: ExpandArray_def Array_Create_def split: option.splits if_splits)

lemma ExpandArray_returns:
  assumes "\<forall>p < length (fm_pages m). fm_pages m ! p \<noteq> None"
    and "BumpCurrentEpoch_action act (del (length (fm_pages m))) e \<noteq> None"
  shows "ExpandArray act del n (m, e) \<noteq> None"
proof -
  have "list_all (\<lambda>p. p \<noteq> None) (fm_pages m)" using assms(1) by (simp add: list_all_length)
  then show ?thesis using assms(2)
    by (auto simp: ExpandArray_def Array_Create_def)
qed

lemma fresh_page_array:
  assumes "pages_ok m" "unat (fpa_page (fm_count m)) \<ge> length (fm_pages m)"
  shows "p < length (fm_pages m) \<Longrightarrow> fm_pages m ! p \<noteq> None"
    and "\<exists>k. unat (next_power_of_two (fpa_page (fm_count m) + 1)) = 2 ^ k \<and>
      unat (fpa_page (fm_count m)) < 2 ^ k"
proof -
  let ?c = "unat (fm_count m)" and ?pg = "unat (fpa_page (fm_count m))"
  have c: "?c < 2 ^ 48" using assms(1) by (simp add: pages_ok_def)
  have pg: "?pg = ?c div 2 ^ 20" by (rule unat_fpa_page [OF c])
  show "fm_pages m ! p \<noteq> None" if "p < length (fm_pages m)"
  proof -
    have "Suc p * 2 ^ 20 \<le> ?pg * 2 ^ 20" using that assms(2) by (intro mult_right_mono) auto
    also have "\<dots> \<le> ?c" unfolding pg by simp
    finally have "p * 2 ^ 20 < ?c" by simp
    then show ?thesis using assms(1) by (simp add: pages_ok_def)
  qed
  have "?pg < 2 ^ 28" using c unfolding pg by (simp add: less_mult_imp_div_less)
  then have u: "unat (fpa_page (fm_count m) + 1) = ?pg + 1" by (simp add: unat_word_ariths)
  with \<open>?pg < 2 ^ 28\<close> have le: "unat (fpa_page (fm_count m) + 1) \<le> 2 ^ 63" by simp
  obtain k where "k < 64" "next_power_of_two (fpa_page (fm_count m) + 1) = 2 ^ k" "?pg + 1 \<le> 2 ^ k"
    using unat_next_power_of_two [OF _ le] u by auto
  then show "\<exists>k. unat (next_power_of_two (fpa_page (fm_count m) + 1)) = 2 ^ k \<and> ?pg < 2 ^ k"
    by (intro exI [of _ k]) (simp add: unat_exp)
qed


text \<open>The items that were never allocated have their initial value.\<close>

definition fresh_blank :: "'i \<Rightarrow> 'i fixed_malloc \<Rightarrow> bool" where
  "fresh_blank blank m \<longleftrightarrow>
     (\<forall>a. unat a < 2 ^ 48 \<longrightarrow> unat (fm_count m) \<le> unat a \<longrightarrow> fm_get m a \<in> {None, Some blank})"

lemma Allocate_fresh_cases:
  assumes "pages_ok m" "Allocate_fresh blank act del (m, e) = Some (a, m', e')"
  obtains ps k where "a = fm_count m" "length ps = 2 ^ k" "unat (fpa_page a) < length ps"
    "\<And>p. p < length (fm_pages m) \<Longrightarrow> ps ! p = fm_pages m ! p"
    "\<And>p. length (fm_pages m) \<le> p \<Longrightarrow> p < length ps \<Longrightarrow> ps ! p = None"
    "length (fm_pages m) \<le> length ps"
    "m' = m\<lparr>fm_count := fm_count m + 1, fm_pages := GetOrAdd blank (unat (fpa_page a))
      (if fpa_offset a = 0 \<and> unat (fpa_page a) + 1 < length ps
       then AddPage blank (unat (fpa_page a) + 1) ps else ps)\<rparr>"
proof (cases "unat (fpa_page (fm_count m)) \<ge> length (fm_pages m)")
  case False
  from assms(1) obtain k where "length (fm_pages m) = 2 ^ k" by (auto simp: pages_ok_def)
  with False assms(2) that [of "fm_pages m" k] show thesis
    by (auto simp: Allocate_fresh_def Let_def)
next
  case True
  let ?n = "unat (next_power_of_two (fpa_page (fm_count m) + 1))"
  from fresh_page_array(2) [OF assms(1) True] obtain k where
    k: "?n = 2 ^ k" "unat (fpa_page (fm_count m)) < 2 ^ k" by blast
  let ?ps = "fm_pages m @ replicate (?n - length (fm_pages m)) None"
  let ?m = "m\<lparr>fm_count := fm_count m + 1\<rparr>"
  have len: "length ?ps = 2 ^ k" using k True by simp
  obtain m1 e1 where x: "ExpandArray act del ?n (?m, e) = Some (m1, e1)"
    using assms(2) True by (auto simp: Allocate_fresh_def Let_def split: option.splits)
  have m1: "m1 = ?m\<lparr>fm_pages := ?ps\<rparr>" using ExpandArray_pages [OF x] by simp
  show thesis
  proof (rule that [of ?ps k])
    show "m' = m\<lparr>fm_count := fm_count m + 1, fm_pages := GetOrAdd blank (unat (fpa_page a))
      (if fpa_offset a = 0 \<and> unat (fpa_page a) + 1 < length ?ps
       then AddPage blank (unat (fpa_page a) + 1) ?ps else ?ps)\<rparr>"
      using assms(2) True x m1 by (auto simp: Allocate_fresh_def Let_def)
  qed (use assms(2) True x m1 k len in \<open>auto simp: Allocate_fresh_def Let_def nth_append\<close>)
qed

lemma Allocate_fresh_get:
  assumes "pages_ok m" "Allocate_fresh blank act del (m, e) = Some (a, m', e')"
  shows "fm_get m' b = fm_get m b \<or> fm_get m b = None \<and> fm_get m' b \<in> {None, Some blank}"
  using assms
  by (rule Allocate_fresh_cases)
    (auto simp: fm_get_def Let_def nth_GetOrAdd nth_AddPage split: if_splits)

lemma Allocate_fresh_spec:
  assumes ok: "pages_ok m" and fb: "fresh_blank blank m" and lt: "unat (fm_count m) + 1 < 2 ^ 48"
    and r: "Allocate_fresh blank act del (m, e) = Some (a, m', e')"
  shows "a = fm_count m" "fm_count m' = fm_count m + 1" "fm_free m' = fm_free m" "pages_ok m'"
    "fresh_blank blank m'" "fm_get m' a = Some blank"
    "unat b < unat (fm_count m) \<Longrightarrow> fm_get m' b = fm_get m b"
proof -
  from Allocate_fresh_cases [OF ok r] obtain ps k where
    ps: "a = fm_count m" "length ps = 2 ^ k" "unat (fpa_page a) < length ps"
    "\<And>p. p < length (fm_pages m) \<Longrightarrow> ps ! p = fm_pages m ! p"
    "length (fm_pages m) \<le> length ps"
    "m' = m\<lparr>fm_count := fm_count m + 1, fm_pages := GetOrAdd blank (unat (fpa_page a))
      (if fpa_offset a = 0 \<and> unat (fpa_page a) + 1 < length ps
       then AddPage blank (unat (fpa_page a) + 1) ps else ps)\<rparr>" by metis
  show "a = fm_count m" "fm_count m' = fm_count m + 1" "fm_free m' = fm_free m"
    using ps(1,6) by simp_all
  have cnt: "unat (fm_count m') = unat (fm_count m) + 1" using ps(6) lt by (simp add: unat_word_ariths)
  have pg: "unat (fpa_page a) = unat (fm_count m) div 2 ^ 20"
    unfolding ps(1) using lt by (intro unat_fpa_page) simp
  show ok': "pages_ok m'"
    unfolding pages_ok_def
  proof (intro conjI allI impI)
    show "\<exists>k. length (fm_pages m') = 2 ^ k" using ps(2,6) by auto
    show "unat (fm_count m') < 2 ^ 48" using cnt lt by simp
    fix p assume p: "p * 2 ^ 20 < unat (fm_count m')"
    show "p < length (fm_pages m')" "fm_pages m' ! p \<noteq> None"
    proof -
      consider "p * 2 ^ 20 < unat (fm_count m)" | "p = unat (fpa_page a)"
        using p cnt pg by (metis add.commute less_Suc_eq mod_mult_self2_is_0
            nonzero_mult_div_cancel_right plus_1_eq_Suc power_not_zero zero_neq_numeral)
      then have "p < length (fm_pages m') \<and> fm_pages m' ! p \<noteq> None"
      proof cases
        case 1
        then have "p < length (fm_pages m)" "fm_pages m ! p \<noteq> None" using ok by (auto simp: pages_ok_def)
        then show ?thesis using ps(4,5,6) by (auto simp: nth_GetOrAdd nth_AddPage)
      next
        case 2
        then show ?thesis using ps(3,6) by (auto simp: nth_GetOrAdd nth_AddPage)
      qed
      then show "p < length (fm_pages m')" "fm_pages m' ! p \<noteq> None" by blast+
    qed
  qed
  show "fresh_blank blank m'"
    using fb Allocate_fresh_get [OF ok r] cnt unfolding fresh_blank_def by (metis Suc_eq_plus1 Suc_leD insertCI)
  have "fm_get m a \<in> {None, Some blank}" using fb ps(1) lt by (simp add: fresh_blank_def)
  moreover have "fm_get m' a \<noteq> None" using ps(1) cnt by (intro fm_get_allocated [OF ok']) simp
  ultimately show "fm_get m' a = Some blank" using Allocate_fresh_get [OF ok r, of a] by auto
  show "fm_get m' b = fm_get m b" if "unat b < unat (fm_count m)"
    using Allocate_fresh_get [OF ok r, of b] fm_get_allocated [OF ok that] by blast
qed


text \<open>A fresh allocation returns, unless the array has to grow and the epoch cannot take the action.\<close>

lemma Allocate_fresh_returns:
  assumes "pages_ok m"
    and "unat (fpa_page (fm_count m)) < length (fm_pages m) \<or>
      BumpCurrentEpoch_action act (del (length (fm_pages m))) e \<noteq> None"
  shows "Allocate_fresh blank act del (m, e) \<noteq> None"
proof (cases "unat (fpa_page (fm_count m)) \<ge> length (fm_pages m)")
  case True
  let ?m = "m\<lparr>fm_count := fm_count m + 1\<rparr>"
  let ?n = "unat (next_power_of_two (fpa_page (fm_count m) + 1))"
  have "ExpandArray act del ?n (?m, e) \<noteq> None"
    using fresh_page_array(1) [OF assms(1) True] assms(2) True
    by (intro ExpandArray_returns) auto
  then obtain m1 e1 where "ExpandArray act del ?n (?m, e) = Some (m1, e1)" by auto
  then show ?thesis using True by (simp add: Allocate_fresh_def Let_def)
qed (auto simp: Allocate_fresh_def Let_def)


section \<open>Interleavings of allocations, writes and frees\<close>

record ('i, 'a, 'z) malloc_sys =
  ms_malloc :: "'i fixed_malloc"
  ms_epoch :: "('a, 'z) light_epoch_scheme"
  ms_live :: "fpa set"

text \<open>
  Threads allocate, write and free items; a thread frees only an address it holds. The
  48-bit address space is assumed not to be exhausted.
\<close>

inductive malloc_step :: "'i \<Rightarrow> ('a \<Rightarrow> 'z \<Rightarrow> 'z) \<Rightarrow> (nat \<Rightarrow> 'a) \<Rightarrow>
    ('i, 'a, 'z) malloc_sys \<Rightarrow> ('i, 'a, 'z) malloc_sys \<Rightarrow> bool" for blank act del where
  allocate: "unat (fm_count (ms_malloc s)) + 1 < 2 ^ 48 \<Longrightarrow>
    Malloc_Allocate blank act del t (ms_malloc s, ms_epoch s) = Some (a, m, e) \<Longrightarrow>
    malloc_step blank act del s
      (s\<lparr>ms_malloc := m, ms_epoch := e, ms_live := insert a (ms_live s)\<rparr>)"
| free: "a \<in> ms_live s \<Longrightarrow>
    malloc_step blank act del s
      (s\<lparr>ms_malloc := FreeAtEpoch t a ep (ms_malloc s), ms_live := ms_live s - {a}\<rparr>)"
| store: "a \<in> ms_live s \<Longrightarrow>
    malloc_step blank act del s (s\<lparr>ms_malloc := fm_set a x (ms_malloc s)\<rparr>)"
| epoch: "epoch_step act (ms_epoch s) e \<Longrightarrow> malloc_step blank act del s (s\<lparr>ms_epoch := e\<rparr>)"

definition free_addrs :: "'i fixed_malloc \<Rightarrow> nat \<Rightarrow> fpa list" where
  "free_addrs m t = map fst (fm_free m t)"

definition free_ok :: "'i fixed_malloc \<Rightarrow> fpa set \<Rightarrow> bool" where
  "free_ok m live \<longleftrightarrow>
     (\<forall>a \<in> live. 0 < unat a \<and> unat a < unat (fm_count m)) \<and>
     (\<forall>t. distinct (free_addrs m t)) \<and>
     (\<forall>t. \<forall>a \<in> set (free_addrs m t). 0 < unat a \<and> unat a < unat (fm_count m) \<and> a \<notin> live) \<and>
     (\<forall>t u. t \<noteq> u \<longrightarrow> set (free_addrs m t) \<inter> set (free_addrs m u) = {})"

definition malloc_invar :: "'i \<Rightarrow> ('i, 'a, 'z) malloc_sys \<Rightarrow> bool" where
  "malloc_invar blank s \<longleftrightarrow> pages_ok (ms_malloc s) \<and> fresh_blank blank (ms_malloc s) \<and>
     1 \<le> unat (fm_count (ms_malloc s)) \<and> free_ok (ms_malloc s) (ms_live s)"

definition malloc_initial :: "'i \<Rightarrow> ('a \<Rightarrow> 'z \<Rightarrow> 'z) \<Rightarrow> (nat \<Rightarrow> 'a) \<Rightarrow>
    ('i, 'a, 'z) malloc_sys \<Rightarrow> bool" where
  "malloc_initial blank act del s \<longleftrightarrow> ms_live s = {} \<and> (\<exists>t e.
     Malloc_Initialize blank act del t (\<lambda>_. []) e = Some (ms_malloc s, ms_epoch s))"

lemma fm_set_fields [simp]:
  "fm_count (fm_set a x m) = fm_count m" "fm_free (fm_set a x m) = fm_free m"
  "length (fm_pages (fm_set a x m)) = length (fm_pages m)"
  by (simp_all add: fm_set_def Let_def)

lemma fm_set_page: "(fm_pages (fm_set a x m) ! p = None) = (fm_pages m ! p = None)"
  by (auto simp: fm_set_def Let_def nth_list_update_if)

lemma pages_ok_set [simp]: "pages_ok (fm_set a x m) = pages_ok m"
  by (simp add: pages_ok_def fm_set_page)

lemma free_addrs_set [simp]: "free_addrs (fm_set a x m) = free_addrs m"
  by (simp add: free_addrs_def fun_eq_iff)

lemma fresh_blank_set:
  assumes "fresh_blank blank m" "unat a < unat (fm_count m)" "pages_ok m"
  shows "fresh_blank blank (fm_set a x m)"
proof -
  have a: "unat a < 2 ^ 48" using assms(2,3) by (simp add: pages_ok_def)
  have "fm_get (fm_set a x m) b = fm_get m b" if "unat b < 2 ^ 48" "unat (fm_count m) \<le> unat b" for b
    using that assms(2) by (intro fm_get_set_other [OF a]) auto
  then show ?thesis using assms(1) by (simp add: fresh_blank_def)
qed

lemma Malloc_Allocate_cases:
  assumes "Malloc_Allocate blank act del t (m, e) = Some (a, m', e')"
  obtains (reuse) ep rest where "fm_free m t = (a, ep) # rest" "ep \<le> safe_to_reclaim_epoch e"
      "m' = m\<lparr>fm_free := (fm_free m)(t := rest)\<rparr>" "e' = e"
    | (fresh) "Allocate_fresh blank act del (m, e) = Some (a, m', e')"
  using assms by (auto simp: Malloc_Allocate_def split: list.splits prod.splits if_splits)


lemma fm_free_update [simp]:
  "fm_get (m\<lparr>fm_free := f\<rparr>) = fm_get m"
  "pages_ok (m\<lparr>fm_free := f\<rparr>) = pages_ok m"
  "fresh_blank blank (m\<lparr>fm_free := f\<rparr>) = fresh_blank blank m"
proof -
  show get: "fm_get (m\<lparr>fm_free := f\<rparr>) = fm_get m" by (rule ext) (simp add: fm_get_def Let_def)
  show "pages_ok (m\<lparr>fm_free := f\<rparr>) = pages_ok m" by (simp add: pages_ok_def)
  show "fresh_blank blank (m\<lparr>fm_free := f\<rparr>) = fresh_blank blank m"
    by (simp add: fresh_blank_def get)
qed

lemma free_ok_reuse:
  assumes "free_ok m live" "fm_free m t = (a, ep) # rest"
  shows "free_ok (m\<lparr>fm_free := (fm_free m)(t := rest)\<rparr>) (insert a live)" "a \<notin> live" "0 < unat a"
    "unat a < unat (fm_count m)"
proof -
  let ?m = "m\<lparr>fm_free := (fm_free m)(t := rest)\<rparr>"
  have t: "free_addrs m t = a # free_addrs ?m t" using assms(2) by (simp add: free_addrs_def)
  have u: "u \<noteq> t \<Longrightarrow> free_addrs ?m u = free_addrs m u" for u by (simp add: free_addrs_def)
  have a: "a \<in> set (free_addrs m t)" using t by simp
  then show "a \<notin> live" "0 < unat a" "unat a < unat (fm_count m)" using assms(1) by (auto simp: free_ok_def)
  have sub: "set (free_addrs ?m v) \<subseteq> set (free_addrs m v)" for v
    using t u by (cases "v = t") auto
  have nin: "a \<notin> set (free_addrs ?m v)" for v
  proof (cases "v = t")
    case True
    then show ?thesis using t assms(1) by (metis distinct.simps(2) free_ok_def)
  next
    case False
    then show ?thesis using u a assms(1) unfolding free_ok_def by (metis disjoint_iff)
  qed
  have "distinct (free_addrs ?m v)" for v
    using t u assms(1) by (cases "v = t") (metis distinct.simps(2) free_ok_def, simp add: free_ok_def)
  moreover have "set (free_addrs ?m v) \<inter> set (free_addrs ?m w) = {}" if "v \<noteq> w" for v w
    using that sub [of v] sub [of w] assms(1) unfolding free_ok_def by blast
  moreover have "0 < unat b \<and> unat b < unat (fm_count m) \<and> b \<notin> insert a live"
    if "b \<in> set (free_addrs ?m v)" for b v
  proof -
    have "b \<in> set (free_addrs m v)" "b \<noteq> a" using that sub [of v] nin [of v] by auto
    then show ?thesis using assms(1) by (simp add: free_ok_def)
  qed
  moreover have "\<forall>b \<in> insert a live. 0 < unat b \<and> unat b < unat (fm_count m)"
    using assms(1) \<open>0 < unat a\<close> \<open>unat a < unat (fm_count m)\<close> by (simp add: free_ok_def)
  ultimately show "free_ok ?m (insert a live)" by (simp add: free_ok_def)
qed

lemma free_ok_free:
  assumes "free_ok m live" "a \<in> live"
  shows "free_ok (FreeAtEpoch t a ep m) (live - {a})"
proof -
  have f: "free_addrs (FreeAtEpoch t a ep m) u =
      (if u = t then free_addrs m t @ [a] else free_addrs m u)" for u
    by (simp add: free_addrs_def FreeAtEpoch_def)
  have "fm_count (FreeAtEpoch t a ep m) = fm_count m" by (simp add: FreeAtEpoch_def)
  then show ?thesis using assms unfolding free_ok_def f by auto
qed

lemma malloc_step_invar:
  assumes inv: "malloc_invar blank s" and step: "malloc_step blank act del s s'"
  shows "malloc_invar blank s'"
  using step
proof cases
  case (allocate t a m e)
  from allocate(3) show ?thesis
  proof (cases rule: Malloc_Allocate_cases)
    case (reuse ep rest)
    then show ?thesis using inv allocate(1) free_ok_reuse [OF _ reuse(1)]
      by (simp add: malloc_invar_def)
  next
    case fresh
    have ok: "pages_ok (ms_malloc s)" "fresh_blank blank (ms_malloc s)"
      using inv by (simp_all add: malloc_invar_def)
    note sp = Allocate_fresh_spec [OF ok allocate(2) fresh]
    have cnt: "unat (fm_count m) = unat (fm_count (ms_malloc s)) + 1"
      using sp(2) allocate(2) by (simp add: unat_word_ariths)
    have fa: "free_addrs m = free_addrs (ms_malloc s)" using sp(3) by (simp add: free_addrs_def fun_eq_iff)
    have "free_ok m (insert a (ms_live s))"
      using inv sp(1) cnt unfolding free_ok_def fa malloc_invar_def
      by (auto dest: less_trans less_imp_neq intro: less_SucI)
    then show ?thesis using sp(4,5) cnt allocate(1) by (simp add: malloc_invar_def)
  qed
next
  case (free a t ep)
  then show ?thesis using inv free_ok_free [of "ms_malloc s" "ms_live s" a t ep]
    by (simp add: malloc_invar_def) (simp add: FreeAtEpoch_def)
next
  case (store a x)
  have "unat a < unat (fm_count (ms_malloc s))"
    using inv store(2) by (auto simp: malloc_invar_def free_ok_def)
  then show ?thesis using inv store(1) fresh_blank_set [of blank "ms_malloc s" a x]
    by (simp add: malloc_invar_def free_ok_def)
next
  case (epoch e)
  then show ?thesis using inv by (simp add: malloc_invar_def)
qed


lemma Malloc_reset_ok: "pages_ok (Malloc_reset blank free)" "fresh_blank blank (Malloc_reset blank free)"
proof -
  have len: "length (fm_pages (Malloc_reset blank free)) = 2 ^ 1" by (simp add: Malloc_reset_def)
  then show "pages_ok (Malloc_reset blank free)"
    unfolding pages_ok_def by (auto simp: Malloc_reset_def intro: exI [of _ 1])
  show "fresh_blank blank (Malloc_reset blank free)"
    by (auto simp: fresh_blank_def fm_get_def Malloc_reset_def nth_AddPage Let_def nth_Cons
        split: nat.splits)
qed

lemma malloc_initial_invar:
  assumes "malloc_initial blank act del s"
  shows "malloc_invar blank s"
proof -
  from assms obtain t e a where r:
    "Allocate_fresh blank act del (Malloc_reset blank (\<lambda>_. []), e) = Some (a, ms_malloc s, ms_epoch s)"
    by (auto simp: malloc_initial_def Malloc_Initialize_def Malloc_Allocate_def Malloc_reset_def)
  have "unat (fm_count (Malloc_reset blank (\<lambda>_. []))) + 1 < 2 ^ 48" by (simp add: Malloc_reset_def)
  note sp = Allocate_fresh_spec [OF Malloc_reset_ok this r]
  have "fm_count (ms_malloc s) = 1" "fm_free (ms_malloc s) = (\<lambda>_. [])"
    using sp(2,3) by (simp_all add: Malloc_reset_def)
  then show ?thesis using sp(4,5) assms
    by (simp add: malloc_invar_def free_ok_def free_addrs_def malloc_initial_def)
qed

lemma Malloc_Initialize_free:
  assumes "Malloc_Initialize blank act del t (\<lambda>_. []) e = Some (m, e')"
  shows "fm_free m = (\<lambda>_. [])"
proof -
  from assms obtain a where r:
    "Allocate_fresh blank act del (Malloc_reset blank (\<lambda>_. []), e) = Some (a, m, e')"
    by (auto simp: Malloc_Initialize_def Malloc_Allocate_def Malloc_reset_def)
  have "unat (fm_count (Malloc_reset blank (\<lambda>_. []))) + 1 < 2 ^ 48" by (simp add: Malloc_reset_def)
  from Allocate_fresh_spec(3) [OF Malloc_reset_ok this r] show ?thesis by (simp add: Malloc_reset_def)
qed

interpretation malloc_ts: transition_system
  "malloc_initial blank act del" "malloc_step blank act del" "malloc_invar blank"
  by unfold_locales (fact malloc_initial_invar, fact malloc_step_invar)


section \<open>The interface to the hash index\<close>

text \<open>
  What the hash index relies on: the items at the valid addresses can be read and written
  independently of each other.
\<close>

locale item_store =
  fixes valid :: "'m \<Rightarrow> fpa \<Rightarrow> bool"
    and get :: "'m \<Rightarrow> fpa \<Rightarrow> 'i option"
    and put :: "fpa \<Rightarrow> 'i \<Rightarrow> 'm \<Rightarrow> 'm"
  assumes get_valid: "valid m a \<Longrightarrow> get m a \<noteq> None"
    and valid_put: "valid (put a x m) b = valid m b"
    and get_put_same: "valid m a \<Longrightarrow> get (put a x m) a = Some x"
    and get_put_other: "valid m a \<Longrightarrow> valid m b \<Longrightarrow> a \<noteq> b \<Longrightarrow> get (put a x m) b = get m b"
    and put_put: "put a x (put a y m) = put a x m"
begin

lemma get_put: "valid m a \<Longrightarrow> valid m b \<Longrightarrow> get (put a x m) b = (if b = a then Some x else get m b)"
  by (simp add: get_put_same get_put_other)

text \<open>Changing an item through a function leaves the others alone.\<close>

definition modify :: "fpa \<Rightarrow> ('i \<Rightarrow> 'i) \<Rightarrow> 'm \<Rightarrow> 'm" where
  "modify a f m = (case get m a of None \<Rightarrow> m | Some x \<Rightarrow> put a (f x) m)"

lemma get_modify:
  "valid m a \<Longrightarrow> valid m b \<Longrightarrow>
   get (modify a f m) b = (if b = a then map_option f (get m a) else get m b)"
  using get_valid [of m a] by (auto simp: modify_def get_put split: option.split)

lemma modify_put: "valid m a \<Longrightarrow> modify a f (put a x m) = put a (f x) m"
  by (simp add: modify_def get_put_same put_put)

lemma valid_modify: "valid (modify a f m) b = valid m b"
  by (simp add: modify_def valid_put split: option.split)

end

definition fm_valid :: "'i fixed_malloc \<Rightarrow> fpa \<Rightarrow> bool" where
  "fm_valid m a \<longleftrightarrow> pages_ok m \<and> unat a < unat (fm_count m)"

interpretation fm_store: item_store fm_valid fm_get fm_set
proof
  fix m :: "'i fixed_malloc" and a b x
  show get: "fm_get m a \<noteq> None" if "fm_valid m a" for m :: "'i fixed_malloc" and a
    using that by (intro fm_get_allocated) (simp_all add: fm_valid_def)
  show "fm_valid (fm_set a x m) b = fm_valid m b" by (simp add: fm_valid_def)
  show "fm_get (fm_set a x m) a = Some x" if "fm_valid m a"
    using get [OF that] by (rule fm_get_set_same)
  show "fm_get (fm_set a x m) b = fm_get m b" if "fm_valid m a" "fm_valid m b" "a \<noteq> b"
    using that by (intro fm_get_set_other) (auto simp: fm_valid_def pages_ok_def)
  show "fm_set a x (fm_set a y m) = fm_set a x m" for y
    by (cases "unat (fpa_page a) < length (fm_pages m)")
      (simp_all add: fm_set_def Let_def option.map_comp comp_def list_update_beyond not_less)
qed


section \<open>Properties of the allocator\<close>

text \<open>
  C19: in every interleaving of allocations, frees, writes and epoch operations, an allocation
  never hands out the null address or an address that is in use, does not change the items
  in use, and hands out a freed address only when its removal epoch is safe; a fresh item
  has its initial value.
\<close>

theorem Malloc_Allocate_exclusive:
  assumes "malloc_initial blank act del s0" "(malloc_step blank act del)\<^sup>*\<^sup>* s0 s"
    and "unat (fm_count (ms_malloc s)) + 1 < 2 ^ 48"
    and "Malloc_Allocate blank act del t (ms_malloc s, ms_epoch s) = Some (a, m, e)"
  shows "a \<notin> ms_live s \<and> a \<noteq> 0 \<and> fm_get m a \<noteq> None \<and>
    (\<forall>b \<in> ms_live s. fm_get m b = fm_get (ms_malloc s) b) \<and>
    (a = fm_count (ms_malloc s) \<and> fm_get m a = Some blank \<or>
     (\<exists>ep. (a, ep) \<in> set (fm_free (ms_malloc s) t) \<and> ep \<le> safe_to_reclaim_epoch (ms_epoch s)))"
proof -
  have inv: "malloc_invar blank s" by (rule malloc_ts.invar_reachable [OF assms(1,2)])
  then have ok: "pages_ok (ms_malloc s)" "fresh_blank blank (ms_malloc s)"
    and pos: "1 \<le> unat (fm_count (ms_malloc s))" and fr: "free_ok (ms_malloc s) (ms_live s)"
    by (simp_all add: malloc_invar_def)
  from assms(4) show ?thesis
  proof (cases rule: Malloc_Allocate_cases)
    case (reuse ep rest)
    have "fm_get (ms_malloc s) a \<noteq> None"
      using fm_get_allocated [OF ok(1)] free_ok_reuse(4) [OF fr reuse(1)] by blast
    then show ?thesis using reuse free_ok_reuse(2,3) [OF fr reuse(1)] by auto
  next
    case fresh
    note sp = Allocate_fresh_spec [OF ok assms(3) fresh]
    have "a \<notin> ms_live s" using fr sp(1) by (auto simp: free_ok_def)
    moreover have "a \<noteq> 0" using pos sp(1) by auto
    moreover have "fm_get m b = fm_get (ms_malloc s) b" if "b \<in> ms_live s" for b
      using sp(7) that fr by (auto simp: free_ok_def)
    ultimately show ?thesis using sp(1,6) by simp
  qed
qed

abbreviation (input) item0 :: nat where "item0 \<equiv> 0"

definition malloc_start :: "(nat, nat, nat list) malloc_sys" where
  "malloc_start = (case Malloc_Initialize item0 log_action (\<lambda>n. n) 1 (\<lambda>_. []) epoch_start of
     None \<Rightarrow> \<lparr>ms_malloc = Malloc_reset item0 (\<lambda>_. []), ms_epoch = epoch_start, ms_live = {}\<rparr>
   | Some (m, e) \<Rightarrow> \<lparr>ms_malloc = m, ms_epoch = e, ms_live = {}\<rparr>)"

lemma malloc_start_initial: "malloc_initial item0 log_action (\<lambda>n. n) malloc_start"
proof -
  have "Malloc_Initialize item0 log_action (\<lambda>n. n) 1 (\<lambda>_. []) epoch_start \<noteq> None" by code_simp
  then obtain m e where r: "Malloc_Initialize item0 log_action (\<lambda>n. n) 1 (\<lambda>_. []) epoch_start = Some (m, e)"
    by auto
  then have "malloc_start = \<lparr>ms_malloc = m, ms_epoch = e, ms_live = {}\<rparr>" by (simp add: malloc_start_def)
  with r show ?thesis unfolding malloc_initial_def by (metis malloc_sys.select_convs)
qed

theorem Malloc_Allocate_exclusive_witness:
  "(case Malloc_Allocate item0 log_action (\<lambda>n. n) 1 (ms_malloc malloc_start, ms_epoch malloc_start) of
      None \<Rightarrow> False
    | Some (a, m, e) \<Rightarrow> a = 1 \<and> a \<notin> ms_live malloc_start \<and> fm_get m a \<noteq> None)"
proof -
  let ?r = "Malloc_Allocate item0 log_action (\<lambda>n. n) 1 (ms_malloc malloc_start, ms_epoch malloc_start)"
  have "map_option fst ?r = Some 1" by code_simp
  then obtain m e where r: "?r = Some (1, m, e)" by auto
  have "fm_count (ms_malloc malloc_start) = 1" by code_simp
  then have "unat (fm_count (ms_malloc malloc_start)) + 1 < 2 ^ 48" by simp
  from Malloc_Allocate_exclusive [OF malloc_start_initial rtranclp.rtrancl_refl this r] r
  show ?thesis by simp
qed


text \<open>
  C27: an allocation returns, unless the page array is full and no slot of the drain list can
  take the action that deletes the old array.
\<close>

theorem Malloc_Allocate_returns:
  assumes "malloc_initial blank act del s0" "(malloc_step blank act del)\<^sup>*\<^sup>* s0 s"
    and "unat (fpa_page (fm_count (ms_malloc s))) < length (fm_pages (ms_malloc s)) \<or>
      BumpCurrentEpoch_action act (del (length (fm_pages (ms_malloc s)))) (ms_epoch s) \<noteq> None"
  shows "\<exists>a m e. Malloc_Allocate blank act del t (ms_malloc s, ms_epoch s) = Some (a, m, e)"
proof -
  have "pages_ok (ms_malloc s)"
    using malloc_ts.invar_reachable [OF assms(1,2)] by (simp add: malloc_invar_def)
  then have "Allocate_fresh blank act del (ms_malloc s, ms_epoch s) \<noteq> None"
    using assms(3) by (rule Allocate_fresh_returns)
  then show ?thesis by (auto simp: Malloc_Allocate_def split: list.split)
qed

theorem Malloc_Allocate_returns_witness:
  "\<exists>a m e. Malloc_Allocate item0 log_action (\<lambda>n. n) 3 (ms_malloc malloc_start, ms_epoch malloc_start) =
     Some (a, m, e)"
proof -
  have "unat (fpa_page (fm_count (ms_malloc malloc_start))) < length (fm_pages (ms_malloc malloc_start))"
    by code_simp
  then show ?thesis
    by (intro Malloc_Allocate_returns [OF malloc_start_initial rtranclp.rtrancl_refl] disjI1)
qed

text \<open>
  C31: an allocator that is initialised again keeps its free lists. If the initialising thread
  has a freed address from the earlier life, initialisation takes that one instead of the
  null address, and the next fresh allocation hands out the null address.
\<close>

theorem Malloc_Initialize_again_gives_null:
  assumes "free t = (a, ep) # rest" "ep \<le> safe_to_reclaim_epoch e" "free u = []" "t \<noteq> u"
  shows "(case Malloc_Initialize blank act del t free e of
      None \<Rightarrow> False
    | Some (m, e) \<Rightarrow> fm_count m = 0 \<and> map_option fst (Malloc_Allocate blank act del u (m, e)) = Some 0)"
proof -
  let ?m = "Malloc_reset blank (free(t := rest))"
  have init: "Malloc_Initialize blank act del t free e = Some (?m, e)"
    using assms(1,2) by (simp add: Malloc_Initialize_def Malloc_Allocate_def Malloc_reset_def)
  have count: "fm_count ?m = 0" "fm_free ?m u = []" using assms(3,4) by (simp_all add: Malloc_reset_def)
  have "length (fm_pages ?m) = 2" by (simp add: Malloc_reset_def)
  then have "unat (fpa_page (fm_count ?m)) < length (fm_pages ?m)"
    by (simp add: count fpa_page_def)
  then obtain a' m' e' where r: "Allocate_fresh blank act del (?m, e) = Some (a', m', e')"
    using Allocate_fresh_returns [OF Malloc_reset_ok(1) disjI1] by (metis not_None_eq prod.exhaust)
  have "a' = fm_count ?m" using r by (rule Allocate_fresh_cases [OF Malloc_reset_ok(1)])
  then show ?thesis using init count r by (simp add: Malloc_Allocate_def)
qed

theorem Malloc_Initialize_again_gives_null_witness:
  "(case Malloc_Initialize item0 log_action (\<lambda>n. n) 1 ((\<lambda>_. [])(1 := [(5, 0)])) epoch_start of
      None \<Rightarrow> False
    | Some (m, e) \<Rightarrow> fm_count m = 0 \<and>
        map_option fst (Malloc_Allocate item0 log_action (\<lambda>n. n) 2 (m, e)) = Some 0)"
  by (rule Malloc_Initialize_again_gives_null [where a = 5 and ep = 0 and rest = "[]"]) simp_all


section \<open>Checkpoint and recovery restore the items\<close>

lemma fm_levels_eq:
  "unat c < 2 ^ 48 \<Longrightarrow> fm_levels c = unat c div 2 ^ 20 + (if unat c mod 2 ^ 20 > 0 then 1 else 0)"
  by (simp add: fm_levels_def unat_fpa_page word_less_nat_alt unat_fpa_offset)

lemma page_less_levels:
  assumes "unat c < 2 ^ 48" "unat a < unat c"
  shows "unat (fpa_page a) < fm_levels c"
proof -
  have "unat a < 2 ^ 48" using assms by linarith
  then have pa: "unat (fpa_page a) = unat a div 2 ^ 20" by (rule unat_fpa_page)
  show ?thesis
  proof (cases "unat c mod 2 ^ 20 > 0")
    case True
    have "unat a div 2 ^ 20 \<le> unat c div 2 ^ 20" using assms(2) by (intro div_le_mono) simp
    then show ?thesis using True by (simp add: pa fm_levels_eq [OF assms(1)])
  next
    case False
    then have "unat c = unat c div 2 ^ 20 * 2 ^ 20" by (metis div_mult_mod_eq add.right_neutral not_gr0)
    then have "unat a < unat c div 2 ^ 20 * 2 ^ 20" using assms(2) by simp
    then have "unat a div 2 ^ 20 < unat c div 2 ^ 20" by (rule less_mult_imp_div_less)
    then show ?thesis using False by (simp add: pa fm_levels_eq [OF assms(1)])
  qed
qed

lemma fm_levels_le: "unat c < 2 ^ 48 \<Longrightarrow> fm_levels c \<le> 2 ^ 28"
proof -
  assume c: "unat c < 2 ^ 48"
  then have "unat c div 2 ^ 20 < 2 ^ 28" by (simp add: less_mult_imp_div_less)
  then show ?thesis by (simp add: fm_levels_eq [OF c])
qed

lemma page_file_offset_inj:
  assumes "0 < unat sz" "unat sz \<le> 2 ^ 15" "i \<le> 2 ^ 28" "j \<le> 2 ^ 28" "page_file_offset sz i = page_file_offset sz j"
  shows "i = j"
proof -
  let ?s = "2 ^ 20 * unat sz"
  have s: "?s \<le> 2 ^ 35" using assms(2) by simp
  have unat: "unat (page_file_offset sz k) = k * ?s" if "k \<le> 2 ^ 28" for k
  proof -
    have "k * ?s \<le> 2 ^ 28 * 2 ^ 35" using that s by (rule mult_le_mono)
    then have lt: "k * ?s < 2 ^ 64" by simp
    have "unat (2 ^ 20 * sz) = ?s" using s by (simp add: unat_word_ariths)
    moreover have "unat (of_nat k :: u64) = k" using that by (intro unat_of_nat_small) simp
    ultimately have "unat (page_file_offset sz k) = k * ?s mod 2 ^ 64"
      unfolding page_file_offset_def by (simp add: unat_word_ariths)
    then show ?thesis using lt by simp
  qed
  have "i * ?s = j * ?s" unfolding unat [OF assms(3), symmetric] unat [OF assms(4), symmetric] assms(5) ..
  then show ?thesis using assms(1) by (simp only: mult_cancel2) simp
qed

lemma write_pages_lookup:
  assumes "inj_on f (set is)" "i \<in> set is" "distinct is"
  shows "write_pages (map (\<lambda>i. (f i, g i)) is) (f i) = g i"
proof -
  have "fold (\<lambda>(off, pg) h. h(off := pg)) (map (\<lambda>i. (f i, g i)) is) h (f i) =
      (if i \<in> set is then g i else h (f i))"
    if "inj_on f (insert i (set is))" "distinct is" for h
    using that
  proof (induction "is" arbitrary: h)
    case (Cons j js)
    have "f i = f j \<longleftrightarrow> i = j" using Cons.prems(1) by (auto simp: inj_on_def)
    moreover have "inj_on f (insert i (set js))"
      using Cons.prems(1) by (rule inj_on_subset) auto
    ultimately show ?case using Cons by auto
  qed simp
  then show ?thesis using assms by (simp add: write_pages_def insert_absorb)
qed

lemma read_pages_lookup:
  assumes "distinct is" "i \<in> set is" "i < length ps"
  shows "fold (\<lambda>(off, idx) ps. ps[idx := file off]) (map (\<lambda>i. (f i, i)) is) ps ! i = file (f i)"
proof -
  have len: "length (fold (\<lambda>(off, idx) ps. ps[idx := file off]) (map (\<lambda>i. (f i, i)) is) ps) = length ps"
    for "is" ps by (induction "is" arbitrary: ps) auto
  have keep: "fold (\<lambda>(off, idx) ps. ps[idx := file off]) (map (\<lambda>i. (f i, i)) is) ps ! i = ps ! i"
    if "i \<notin> set is" for "is" ps using that by (induction "is" arbitrary: ps) auto
  show ?thesis using assms by (induction "is" arbitrary: ps) (auto simp: keep)
qed

lemma length_read_loop:
  "length (fold (\<lambda>(off, idx) ps. ps[idx := file off]) reqs ps) = length ps"
  by (induction reqs arbitrary: ps) auto

lemma recover_loop_Ok:
  assumes "recover_loop blank sz accept is ps = (Ok, issued, ps')"
  shows "issued = map (\<lambda>i. (page_file_offset sz i, i)) is" "length ps' = length ps"
proof -
  have "issued = map (\<lambda>i. (page_file_offset sz i, i)) is \<and> length ps' = length ps"
    using assms
    by (induction "is" arbitrary: ps issued ps') (force simp: Let_def split: if_splits prod.splits)+
  then show "issued = map (\<lambda>i. (page_file_offset sz i, i)) is" "length ps' = length ps" by blast+
qed

lemma Malloc_Recover_Ok:
  assumes "Malloc_Recover blank act del sz accept file_size count (m, e) = Some (Ok, reads, m', e')"
    and "unat count < 2 ^ 48"
  shows "reads = map (\<lambda>i. (page_file_offset sz i, i)) [0..<fm_levels (file_size div sz)]"
    "fm_levels count \<le> length (fm_pages m')" "fm_count m' = count"
proof -
  let ?n = "fm_levels count"
  have n: "?n \<le> 2 ^ 28" using fm_levels_le [OF assms(2)] .
  obtain m1 e1 ps where r: "recover_loop blank sz accept [0..<fm_levels (file_size div sz)] (fm_pages m1) =
      (Ok, reads, ps)" and m': "fm_pages m' = ps" "fm_count m' = count"
    and m1: "length (fm_pages m) < ?n \<and>
        ExpandArray act del (unat (next_power_of_two (of_nat ?n))) (m, e) = Some (m1, e1) \<or>
      \<not> length (fm_pages m) < ?n \<and> m1 = m"
    using assms(1)
    by (auto simp: Malloc_Recover_def Let_def split: option.splits if_splits prod.splits)
  show "reads = map (\<lambda>i. (page_file_offset sz i, i)) [0..<fm_levels (file_size div sz)]"
    by (rule recover_loop_Ok(1) [OF r])
  show "fm_count m' = count" by (rule m'(2))
  have "?n \<le> length (fm_pages m1)"
  proof (cases "length (fm_pages m) < ?n")
    case True
    then have x: "ExpandArray act del (unat (next_power_of_two (of_nat ?n))) (m, e) = Some (m1, e1)"
      using m1 by blast
    have u: "unat (of_nat ?n :: u64) = ?n" using n by (intro unat_of_nat_small) simp
    obtain k where "k < 64" "next_power_of_two (of_nat ?n) = 2 ^ k" "?n \<le> 2 ^ k"
      using unat_next_power_of_two [of "of_nat ?n"] u n True by auto
    then have "?n \<le> unat (next_power_of_two (of_nat ?n))" by (simp add: unat_exp)
    then show ?thesis using ExpandArray_pages [OF x] True by simp
  qed (use m1 in auto)
  then show "?n \<le> length (fm_pages m')" using recover_loop_Ok(2) [OF r] m'(1) by simp
qed


lemma Malloc_Checkpoint_Ok:
  assumes "Malloc_Checkpoint sz accept m = (Ok, file_size, issued, m')"
  shows "issued = map (\<lambda>i. (page_file_offset sz i, fm_pages m ! i)) [0..<fm_levels (fm_count m)]"
    "file_size = fm_count m * sz" "fm_checkpoint m' = batch_start (of_nat (fm_levels (fm_count m)))"
proof -
  have *: "issued = rs" if "issue_all accept rs = (Ok, issued)" for rs issued
    using issue_all_Ok [of accept rs] that by simp
  show "issued = map (\<lambda>i. (page_file_offset sz i, fm_pages m ! i)) [0..<fm_levels (fm_count m)]"
    "file_size = fm_count m * sz" "fm_checkpoint m' = batch_start (of_nat (fm_levels (fm_count m)))"
    using assms by (auto simp: Malloc_Checkpoint_def Let_def dest: * split: prod.splits)
qed


text \<open>An allocator with one item in use, written to a file and read back into a new one.\<close>

definition malloc_one :: "nat fixed_malloc" where
  "malloc_one = fm_set 1 42 (Malloc_reset item0 (\<lambda>_. [])\<lparr>fm_count := 2\<rparr>)"

lemma malloc_one_ok: "pages_ok malloc_one"
proof -
  have "p = 0" if "p * 2 ^ 20 < (2::nat)" for p using that by (cases p) simp_all
  moreover have "length (fm_pages (Malloc_reset item0 (\<lambda>_. []))) = 2 ^ 1" by (simp add: Malloc_reset_def)
  ultimately show ?thesis
    by (auto simp: malloc_one_def pages_ok_def Malloc_reset_def AddPage_def fm_set_page
        simp del: not_None_eq intro!: exI [of _ 1])
qed


end
