(* ===== verification/Hash_Table.thy ===== *)
theory Hash_Table
  imports Hash_Buckets Async
begin

text \<open>
  \<open>hash_table.h\<close>: the array of hash buckets, its checkpoint in 256 chunks and its recovery. A
  request writes or reads a run of buckets at a byte offset of the file; the offsets are
  products of 32-bit integers, as in the source.
\<close>

definition kNumMergeChunks :: nat where "kNumMergeChunks = 256"
definition sizeof_HashBucket :: u64 where "sizeof_HashBucket = 64"

record hash_table =
  ht_size :: u64
  ht_buckets :: "hash_bucket list"
  ht_checkpoint :: async_batch
  ht_recover :: async_batch

definition InternalHashTable :: hash_table where
  "InternalHashTable = \<lparr>ht_size = 0, ht_buckets = [], ht_checkpoint = batch_idle, ht_recover = batch_idle\<rparr>"

definition HashTable_Initialize :: "u64 \<Rightarrow> hash_table \<Rightarrow> hash_table" where
  "HashTable_Initialize new_size t =
     t\<lparr>ht_size := new_size, ht_buckets := replicate (unat new_size) HashBucket\<rparr>"

definition HashTable_Uninitialize :: "hash_table \<Rightarrow> hash_table" where
  "HashTable_Uninitialize t = t\<lparr>ht_size := 0, ht_buckets := []\<rparr>"

definition ht_bucket :: "hash_table \<Rightarrow> key_hash \<Rightarrow> nat" where
  "ht_bucket t h = unat (kh_idx (ht_size t) h)"

definition HashTable_Checkpoint :: "(u64 \<times> hash_bucket list \<Rightarrow> status) \<Rightarrow> hash_table \<Rightarrow>
    status \<times> u64 \<times> (u64 \<times> hash_bucket list) list \<times> hash_table" where
  "HashTable_Checkpoint accept t =
     (let chunk_size = ucast (ht_size t div of_nat kNumMergeChunks) :: u32;
          write_size = ucast (ucast chunk_size * sizeof_HashBucket) :: u32;
          (st, issued) = issue_all accept
            (map (\<lambda>idx. (ucast (of_nat idx * write_size :: u32),
                         take (unat chunk_size) (drop (unat (of_nat idx * chunk_size)) (ht_buckets t))))
               [0..<kNumMergeChunks])
      in (st, if st = Ok then ht_size t * sizeof_HashBucket else 0, issued,
          t\<lparr>ht_checkpoint := batch_start (of_nat kNumMergeChunks)\<rparr>))"

definition HashTable_checkpoint_callback :: "status \<Rightarrow> status \<Rightarrow> hash_table \<Rightarrow> hash_table" where
  "HashTable_checkpoint_callback close_result result t =
     t\<lparr>ht_checkpoint := batch_callback close_result result (ht_checkpoint t)\<rparr>"

definition HashTable_CheckpointComplete :: "bool \<Rightarrow> hash_table \<Rightarrow> status option" where
  "HashTable_CheckpointComplete wait t = wait_batch wait (ht_checkpoint t)"

text \<open>A read request: the file offset, the first bucket and the number of buckets.\<close>

definition HashTable_Recover :: "(u64 \<times> nat \<times> nat \<Rightarrow> status) \<Rightarrow> u64 \<Rightarrow> hash_table \<Rightarrow>
    status \<times> (u64 \<times> nat \<times> nat) list \<times> hash_table" where
  "HashTable_Recover accept checkpoint_size t =
     (let read_size = ucast (checkpoint_size div of_nat kNumMergeChunks) :: u32;
          chunk_size = ucast (ucast read_size div sizeof_HashBucket) :: u32;
          t = HashTable_Initialize (checkpoint_size div sizeof_HashBucket) t;
          (st, issued) = issue_all accept
            (map (\<lambda>idx. (ucast (of_nat idx * read_size :: u32), unat (of_nat idx * chunk_size),
                         unat chunk_size)) [0..<kNumMergeChunks])
      in (st, issued, t\<lparr>ht_recover := batch_start (of_nat kNumMergeChunks)\<rparr>))"

definition HashTable_recover_callback :: "status \<Rightarrow> status \<Rightarrow> hash_table \<Rightarrow> hash_table" where
  "HashTable_recover_callback close_result result t =
     t\<lparr>ht_recover := batch_callback close_result result (ht_recover t)\<rparr>"

definition HashTable_RecoverComplete :: "bool \<Rightarrow> hash_table \<Rightarrow> status option" where
  "HashTable_RecoverComplete wait t = wait_batch wait (ht_recover t)"

text \<open>The effect of the requests: a file maps the offset of every bucket in it to the bucket.\<close>

definition write_chunk :: "u64 \<times> hash_bucket list \<Rightarrow> (u64 \<rightharpoonup> hash_bucket) \<Rightarrow> (u64 \<rightharpoonup> hash_bucket)" where
  "write_chunk = (\<lambda>(off, bs) f.
     fold (\<lambda>j f. f(off + of_nat j * sizeof_HashBucket \<mapsto> bs ! j)) [0..<length bs] f)"

definition read_chunk :: "(u64 \<rightharpoonup> hash_bucket) \<Rightarrow> u64 \<times> nat \<times> nat \<Rightarrow> hash_bucket list \<Rightarrow> hash_bucket list" where
  "read_chunk f = (\<lambda>(off, first, n) bs.
     fold (\<lambda>j bs. case f (off + of_nat j * sizeof_HashBucket) of
                    None \<Rightarrow> bs | Some b \<Rightarrow> bs[first + j := b]) [0..<n] bs)"

definition write_chunks :: "(u64 \<times> hash_bucket list) list \<Rightarrow> (u64 \<rightharpoonup> hash_bucket)" where
  "write_chunks reqs = fold write_chunk reqs Map.empty"

definition read_chunks :: "(u64 \<rightharpoonup> hash_bucket) \<Rightarrow> (u64 \<times> nat \<times> nat) list \<Rightarrow> hash_table \<Rightarrow> hash_table" where
  "read_chunks f reqs t = t\<lparr>ht_buckets := fold (read_chunk f) reqs (ht_buckets t)\<rparr>"

definition table_wf :: "hash_table \<Rightarrow> bool" where
  "table_wf t \<longleftrightarrow> IsPowerOfTwo (ht_size t) \<and> length (ht_buckets t) = unat (ht_size t)"

lemma ht_bucket_less: "table_wf t \<Longrightarrow> ht_bucket t h < length (ht_buckets t)"
  using kh_idx_less [of "ht_size t" h] by (simp add: table_wf_def ht_bucket_def word_less_nat_alt)


section \<open>Recovery restores the table\<close>

text \<open>The file offset of a bucket, by its number in the table.\<close>

definition bucket_offset :: "nat \<Rightarrow> u64" where
  "bucket_offset k = of_nat k * sizeof_HashBucket"

lemma unat_bucket_offset: "k < 2 ^ 32 \<Longrightarrow> unat (bucket_offset k) = k * 64"
proof -
  assume k: "k < 2 ^ 32"
  then have u: "unat (of_nat k :: u64) = k" by (intro unat_of_nat_small) simp
  have "k * 64 < 2 ^ 64" using k by simp
  then show ?thesis using u by (simp add: bucket_offset_def sizeof_HashBucket_def unat_word_ariths)
qed

lemma bucket_offset_inj:
  assumes "j < 2 ^ 32" "k < 2 ^ 32" "bucket_offset j = bucket_offset k"
  shows "j = k"
proof -
  have "j * 64 = k * 64"
    unfolding unat_bucket_offset [OF assms(1), symmetric] unat_bucket_offset [OF assms(2), symmetric]
    by (simp only: assms(3))
  then show ?thesis by simp
qed

lemma bucket_offset_add: "bucket_offset i + of_nat j * sizeof_HashBucket = bucket_offset (i + j)"
  by (simp add: bucket_offset_def algebra_simps)

lemma write_chunk_lookup:
  assumes "first + length bs < 2 ^ 32" "k < 2 ^ 32"
  shows "write_chunk (bucket_offset first, bs) f (bucket_offset k) =
    (if first \<le> k \<and> k < first + length bs then Some (bs ! (k - first)) else f (bucket_offset k))"
proof -
  have "fold (\<lambda>j f. f(bucket_offset (first + j) \<mapsto> bs ! j)) [0..<n] f (bucket_offset k) =
      (if first \<le> k \<and> k < first + n then Some (bs ! (k - first)) else f (bucket_offset k))"
    if "n \<le> length bs" for n
    using that
  proof (induction n)
    case (Suc n)
    have "bucket_offset k = bucket_offset (first + n) \<longleftrightarrow> k = first + n"
      using bucket_offset_inj [OF assms(2), of "first + n"] assms(1) Suc.prems by auto
    then show ?case using Suc by auto
  qed auto
  from this [of "length bs"] show ?thesis by (simp add: write_chunk_def bucket_offset_add)
qed

lemma read_chunk_nth:
  assumes "first + n \<le> length bs"
  shows "length (read_chunk f (bucket_offset first, first, n) bs) = length bs"
    and "k < length bs \<Longrightarrow> read_chunk f (bucket_offset first, first, n) bs ! k =
      (if first \<le> k \<and> k < first + n then (case f (bucket_offset k) of None \<Rightarrow> bs ! k | Some b \<Rightarrow> b)
       else bs ! k)"
proof -
  let ?g = "\<lambda>j bs. case f (bucket_offset (first + j)) of None \<Rightarrow> bs | Some b \<Rightarrow> bs[first + j := b]"
  have len: "length (fold ?g [0..<m] bs) = length bs" for m
    by (induction m) (auto split: option.split)
  have "fold ?g [0..<m] bs ! k =
      (if first \<le> k \<and> k < first + m then (case f (bucket_offset k) of None \<Rightarrow> bs ! k | Some b \<Rightarrow> b)
       else bs ! k)" if "m \<le> n" "k < length bs" for m k
    using that
  proof (induction m)
    case (Suc m)
    then show ?case using assms
      by (cases "k = first + m")
        (auto simp: nth_list_update_if len less_Suc_eq split: option.split)
  qed auto
  then show "length (read_chunk f (bucket_offset first, first, n) bs) = length bs"
    and "k < length bs \<Longrightarrow> read_chunk f (bucket_offset first, first, n) bs ! k =
      (if first \<le> k \<and> k < first + n then (case f (bucket_offset k) of None \<Rightarrow> bs ! k | Some b \<Rightarrow> b)
       else bs ! k)"
    using len [of n] by (simp_all add: read_chunk_def bucket_offset_add)
qed

lemma write_chunks_lookup:
  assumes "length bs < 2 ^ 32" "k < 2 ^ 32" "n * c \<le> length bs"
  shows "write_chunks (map (\<lambda>i. (bucket_offset (i * c), take c (drop (i * c) bs))) [0..<n])
    (bucket_offset k) = (if k < n * c then Some (bs ! k) else None)"
  using assms(3)
proof (induction n)
  case (Suc n)
  have len: "length (take c (drop (n * c) bs)) = c" using Suc.prems by simp
  have "n * c \<le> k \<Longrightarrow> k < n * c + c \<Longrightarrow> take c (drop (n * c) bs) ! (k - n * c) = bs ! k"
    using Suc.prems by simp
  then show ?case
    using Suc write_chunk_lookup [where first = "n * c" and bs = "take c (drop (n * c) bs)" and k = k]
      len assms(1,2)
    by (auto simp: write_chunks_def add.commute)
qed (simp add: write_chunks_def)

lemma read_chunks_nth:
  assumes "n * c \<le> length bs"
  shows "length (fold (read_chunk f) (map (\<lambda>i. (bucket_offset (i * c), i * c, c)) [0..<n]) bs) = length bs \<and>
    (\<forall>k < length bs. fold (read_chunk f) (map (\<lambda>i. (bucket_offset (i * c), i * c, c)) [0..<n]) bs ! k =
      (if k < n * c then (case f (bucket_offset k) of None \<Rightarrow> bs ! k | Some b \<Rightarrow> b) else bs ! k))"
  using assms
proof (induction n)
  case (Suc n)
  let ?bs = "fold (read_chunk f) (map (\<lambda>i. (bucket_offset (i * c), i * c, c)) [0..<n]) bs"
  have len: "length ?bs = length bs" using Suc by simp
  then have "n * c + c \<le> length ?bs" using Suc.prems by simp
  note r = read_chunk_nth [OF this, where f = f]
  show ?case using Suc r len by (auto split: option.split)
qed simp


text \<open>The 32-bit products of the source are exact as long as the table has at most 2^32 bytes.\<close>

lemma chunk_products:
  assumes "c \<le> 2 ^ 18" "i < 256"
  shows "ucast (of_nat i * (of_nat (c * 64) :: u32)) = bucket_offset (i * c)"
    and "unat (of_nat i * (of_nat c :: u32)) = i * c"
proof -
  have "i * (c * 64) \<le> 255 * (2 ^ 18 * 64)" using assms by (intro mult_le_mono) simp_all
  then have lt: "i * (c * 64) < 2 ^ 32" by simp
  have "i * c \<le> i * (c * 64)" by simp
  then have lt': "i * c < 2 ^ 32" using lt by (rule le_less_trans)
  have "unat (of_nat (i * (c * 64)) :: u32) = i * (c * 64)" using lt by (intro unat_of_nat_small) simp
  then have "unat (ucast (of_nat i * (of_nat (c * 64) :: u32)) :: u64) = i * c * 64"
    unfolding of_nat_mult [symmetric] unat_ucast_32_64 by (simp only: mult.assoc)
  also have "\<dots> = unat (bucket_offset (i * c))" by (rule unat_bucket_offset [OF lt', symmetric])
  finally show "ucast (of_nat i * (of_nat (c * 64) :: u32)) = bucket_offset (i * c)"
    by (simp only: word_unat_eq_iff)
  have "unat (of_nat (i * c) :: u32) = i * c" using lt' by (intro unat_of_nat_small) simp
  then show "unat (of_nat i * (of_nat c :: u32)) = i * c" unfolding of_nat_mult [symmetric] .
qed

lemma chunk_sizes:
  assumes "unat sz = 256 * c" "c \<le> 2 ^ 18"
  shows "ucast (sz div of_nat kNumMergeChunks) = (of_nat c :: u32)"
    and "ucast (ucast (of_nat c :: u32) * sizeof_HashBucket) = (of_nat (c * 64) :: u32)"
    and "ucast (sz * sizeof_HashBucket div of_nat kNumMergeChunks) = (of_nat (c * 64) :: u32)"
    and "ucast (ucast (of_nat (c * 64) :: u32) div sizeof_HashBucket) = (of_nat c :: u32)"
    and "sz * sizeof_HashBucket div sizeof_HashBucket = sz"
proof -
  have c32: "unat (of_nat c :: u32) = c" using assms(2) by (intro unat_of_nat_small) simp
  have c64: "unat (of_nat (c * 64) :: u32) = c * 64" using assms(2) by (intro unat_of_nat_small) simp
  have small: "c < 2 ^ 32" "c * 64 < 2 ^ 32" using assms(2) by simp_all
  have u32I: "ucast x = (of_nat n :: u32)" if "unat x = n" "n < 2 ^ 32" for x :: u64 and n
    using that unat_ucast_64_32 [of x] unat_of_nat_small [of n, where 'a = 32]
    by (simp add: word_unat_eq_iff)
  have sz64: "unat (sz * sizeof_HashBucket) = 256 * c * 64"
    using assms by (simp add: sizeof_HashBucket_def unat_word_ariths)
  show "ucast (sz div of_nat kNumMergeChunks) = (of_nat c :: u32)"
    using assms(1) by (intro u32I [OF _ small(1)]) (simp add: kNumMergeChunks_def unat_div)
  show "ucast (ucast (of_nat c :: u32) * sizeof_HashBucket) = (of_nat (c * 64) :: u32)"
    using c32 small by (intro u32I [OF _ small(2)]) (simp add: sizeof_HashBucket_def unat_word_ariths)
  show "ucast (sz * sizeof_HashBucket div of_nat kNumMergeChunks) = (of_nat (c * 64) :: u32)"
    using sz64 by (intro u32I [OF _ small(2)]) (simp add: kNumMergeChunks_def unat_div)
  show "ucast (ucast (of_nat (c * 64) :: u32) div sizeof_HashBucket) = (of_nat c :: u32)"
    using c64 by (intro u32I [OF _ small(1)]) (simp add: sizeof_HashBucket_def unat_div)
  show "sz * sizeof_HashBucket div sizeof_HashBucket = sz"
    using sz64 assms(1) by (simp add: word_unat_eq_iff unat_div sizeof_HashBucket_def)
qed

lemma HashTable_Checkpoint_Ok:
  assumes "HashTable_Checkpoint accept t = (Ok, file_size, issued, t')"
    and "unat (ht_size t) = 256 * c" "c \<le> 2 ^ 18"
  shows "issued = map (\<lambda>i. (bucket_offset (i * c), take c (drop (i * c) (ht_buckets t)))) [0..<256]"
    "file_size = ht_size t * sizeof_HashBucket"
proof -
  have *: "issued = rs" if "issue_all accept rs = (Ok, issued)" for rs issued
    using issue_all_Ok [of accept rs] that by simp
  have c32: "unat (of_nat c :: u32) = c" using assms(3) by (intro unat_of_nat_small) simp
  have "issued = map (\<lambda>i. (ucast (of_nat i * (of_nat (c * 64) :: u32)),
      take c (drop (unat (of_nat i * (of_nat c :: u32))) (ht_buckets t)))) [0..<256]"
    using assms(1) unfolding HashTable_Checkpoint_def chunk_sizes [OF assms(2,3)] Let_def c32
    by (auto simp: kNumMergeChunks_def dest!: * split: prod.splits)
  also have "\<dots> = map (\<lambda>i. (bucket_offset (i * c), take c (drop (i * c) (ht_buckets t)))) [0..<256]"
    using chunk_products [OF assms(3)] by (intro map_cong) simp_all
  finally show "issued = map (\<lambda>i. (bucket_offset (i * c), take c (drop (i * c) (ht_buckets t)))) [0..<256]" .
  show "file_size = ht_size t * sizeof_HashBucket"
    using assms(1) by (auto simp: HashTable_Checkpoint_def Let_def split: prod.splits)
qed

lemma HashTable_Recover_Ok:
  assumes "HashTable_Recover accept (sz * sizeof_HashBucket) t = (Ok, reads, t')"
    and "unat sz = 256 * c" "c \<le> 2 ^ 18"
  shows "reads = map (\<lambda>i. (bucket_offset (i * c), i * c, c)) [0..<256]"
    "ht_size t' = sz" "ht_buckets t' = replicate (256 * c) HashBucket"
proof -
  have *: "issued = rs" if "issue_all accept rs = (Ok, issued)" for rs issued
    using issue_all_Ok [of accept rs] that by simp
  have c32: "unat (of_nat c :: u32) = c" using assms(3) by (intro unat_of_nat_small) simp
  have "reads = map (\<lambda>i. (ucast (of_nat i * (of_nat (c * 64) :: u32)), unat (of_nat i * (of_nat c :: u32)), c)) [0..<256]"
    using assms(1) unfolding HashTable_Recover_def chunk_sizes [OF assms(2,3)] Let_def c32
    by (auto simp: kNumMergeChunks_def dest!: * split: prod.splits)
  also have "\<dots> = map (\<lambda>i. (bucket_offset (i * c), i * c, c)) [0..<256]"
    using chunk_products [OF assms(3)] by (intro map_cong) simp_all
  finally show "reads = map (\<lambda>i. (bucket_offset (i * c), i * c, c)) [0..<256]" .
  show "ht_size t' = sz" "ht_buckets t' = replicate (256 * c) HashBucket"
    using assms(1,2) unfolding HashTable_Recover_def chunk_sizes [OF assms(2,3)] Let_def
    by (auto simp: HashTable_Initialize_def split: prod.splits)
qed


section \<open>Properties\<close>

text \<open>
  C24: recovery undoes a checkpoint of the hash table: when all requests are accepted, reading
  back the chunks that the checkpoint wrote restores every bucket, for a table of at most 2^26
  buckets (4 GB).
\<close>

theorem HashTable_checkpoint_recover:
  assumes "unat (ht_size t) = 256 * c" "c \<le> 2 ^ 18" "length (ht_buckets t) = unat (ht_size t)"
    and "HashTable_Checkpoint accept t = (Ok, file_size, issued, t')"
    and "HashTable_Recover accept' file_size t0 = (Ok, reads, t1)"
  shows "ht_size t1 = ht_size t \<and>
    ht_buckets (read_chunks (write_chunks issued) reads t1) = ht_buckets t"
proof -
  note ck = HashTable_Checkpoint_Ok [OF assms(4,1,2)]
  note rc = HashTable_Recover_Ok [OF assms(5) [unfolded ck(2)] assms(1,2)]
  have len: "length (ht_buckets t) = 256 * c" using assms(1,3) by simp
  then have lt: "length (ht_buckets t) < 2 ^ 32" using assms(2) by simp
  have "ht_buckets (read_chunks (write_chunks issued) reads t1) = ht_buckets t"
  proof (rule nth_equalityI)
    let ?r = "ht_buckets (read_chunks (write_chunks issued) reads t1)"
    note rd = read_chunks_nth [where n = 256 and c = c and bs = "replicate (256 * c) HashBucket"
        and f = "write_chunks issued"]
    have r: "?r = fold (read_chunk (write_chunks issued))
        (map (\<lambda>i. (bucket_offset (i * c), i * c, c)) [0..<256]) (replicate (256 * c) HashBucket)"
      using rc by (simp add: read_chunks_def)
    then show "length ?r = length (ht_buckets t)" using rd len by simp
    fix k assume "k < length ?r"
    then have k: "k < 256 * c" using r rd by simp
    then have "write_chunks issued (bucket_offset k) = Some (ht_buckets t ! k)"
      unfolding ck(1) using write_chunks_lookup [of "ht_buckets t" k 256 c] len lt by simp
    then show "?r ! k = ht_buckets t ! k" using r rd k by simp
  qed
  then show ?thesis using rc(2) by simp
qed

definition table_256 :: hash_table where
  "table_256 = (HashTable_Initialize 256 InternalHashTable)\<lparr>ht_buckets :=
     (replicate 256 HashBucket)[3 := HashBucket\<lparr>hb_overflow := 9\<rparr>]\<rparr>"

theorem HashTable_checkpoint_recover_witness:
  "(case HashTable_Checkpoint (\<lambda>_. Ok) table_256 of
      (st, file_size, issued, _) \<Rightarrow>
        (case HashTable_Recover (\<lambda>_. Ok) file_size InternalHashTable of
           (st', reads, t1) \<Rightarrow> st = Ok \<and> st' = Ok \<and>
             ht_buckets (read_chunks (write_chunks issued) reads t1) ! 3 = HashBucket\<lparr>hb_overflow := 9\<rparr>))"
proof -
  let ?acc = "\<lambda>_ :: u64 \<times> hash_bucket list. Ok" and ?acc' = "\<lambda>_ :: u64 \<times> nat \<times> nat. Ok"
  obtain file_size issued t' where c: "HashTable_Checkpoint ?acc table_256 = (Ok, file_size, issued, t')"
    by (auto simp: HashTable_Checkpoint_def issue_all_accepts Let_def)
  obtain reads t1 where r: "HashTable_Recover ?acc' file_size InternalHashTable = (Ok, reads, t1)"
    by (auto simp: HashTable_Recover_def issue_all_accepts Let_def)
  have "unat (ht_size table_256) = 256 * 1" "length (ht_buckets table_256) = unat (ht_size table_256)"
    by (simp_all add: table_256_def HashTable_Initialize_def InternalHashTable_def)
  from HashTable_checkpoint_recover [OF this(1) _ this(2) c r]
  show ?thesis by (simp add: c r) (simp add: table_256_def)
qed



end
