(* ===== verification/Hash_Index.thy ===== *)
theory Hash_Index
  imports Hash_Table Fixed_Malloc
begin

text \<open>
  The hash index of \<open>fishstore.h\<close>: the chains of buckets that start in the hash table and
  continue in the overflow buckets, and the search, insertion and cleaning operations on
  them. A bucket pointer names a bucket of the table or an overflow bucket; an entry pointer
  adds the position in the bucket. A walk along a chain is a recursion in the option monad:
  None is a walk that does not end or meets an invalid pointer. Each operation is one atomic
  step here; \<open>Entry_Protocol\<close> has the interleaving of insertions.
\<close>

section \<open>Buckets and chains\<close>

record hash_index =
  hi_table :: hash_table
  hi_ofb :: "hash_bucket fixed_malloc"

datatype bucket_ptr = Main nat | Ovf fpa

type_synonym entry_ptr = "bucket_ptr \<times> nat"

fun get_bucket :: "hash_index \<Rightarrow> bucket_ptr \<Rightarrow> hash_bucket option" where
  "get_bucket hi (Main i) =
     (if i < length (ht_buckets (hi_table hi)) then Some (ht_buckets (hi_table hi) ! i) else None)"
| "get_bucket hi (Ovf a) = fm_get (hi_ofb hi) a"

fun set_bucket :: "bucket_ptr \<Rightarrow> hash_bucket \<Rightarrow> hash_index \<Rightarrow> hash_index" where
  "set_bucket (Main i) b hi =
     hi\<lparr>hi_table := (hi_table hi)\<lparr>ht_buckets := (ht_buckets (hi_table hi))[i := b]\<rparr>\<rparr>"
| "set_bucket (Ovf a) b hi = hi\<lparr>hi_ofb := fm_set a b (hi_ofb hi)\<rparr>"

definition load_entry :: "hash_index \<Rightarrow> entry_ptr \<Rightarrow> hb_entry option" where
  "load_entry hi = (\<lambda>(p, i). map_option (\<lambda>b. hb_entries b ! i) (get_bucket hi p))"

definition store_entry :: "entry_ptr \<Rightarrow> hb_entry \<Rightarrow> hash_index \<Rightarrow> hash_index" where
  "store_entry = (\<lambda>(p, i) e hi. case get_bucket hi p of
     None \<Rightarrow> hi | Some b \<Rightarrow> set_bucket p (b\<lparr>hb_entries := (hb_entries b)[i := e]\<rparr>) hi)"

definition store_overflow :: "bucket_ptr \<Rightarrow> ovf_entry \<Rightarrow> hash_index \<Rightarrow> hash_index" where
  "store_overflow p o_entry hi = (case get_bucket hi p of
     None \<Rightarrow> hi | Some b \<Rightarrow> set_bucket p (b\<lparr>hb_overflow := o_entry\<rparr>) hi)"

abbreviation next_ptr :: "hash_bucket \<Rightarrow> bucket_ptr" where
  "next_ptr b \<equiv> Ovf (ovf_address (hb_overflow b))"

definition hash_bucket_ptr :: "hash_index \<Rightarrow> key_hash \<Rightarrow> bucket_ptr" where
  "hash_bucket_ptr hi h = Main (ht_bucket (hi_table hi) h)"


section \<open>Searching\<close>

definition final_match :: "u16 \<Rightarrow> hb_entry \<Rightarrow> bool" where
  "final_match tag e \<longleftrightarrow> \<not> hbe_unused e \<and> tag = hbe_tag e \<and> \<not> hbe_tentative e"

definition find_in_bucket :: "(hb_entry \<Rightarrow> bool) \<Rightarrow> hash_bucket \<Rightarrow> nat option" where
  "find_in_bucket P b = List.find (\<lambda>i. P (hb_entries b ! i)) [0..<kNumEntries]"

partial_function (option) find_entry_loop :: "hash_index \<Rightarrow> u16 \<Rightarrow> bucket_ptr \<Rightarrow> entry_ptr option option" where
  "find_entry_loop hi tag p =
     (case get_bucket hi p of
        None \<Rightarrow> None
      | Some b \<Rightarrow>
          (case find_in_bucket (final_match tag) b of
             Some i \<Rightarrow> Some (Some (p, i))
           | None \<Rightarrow>
               if ovf_unused (hb_overflow b) then Some None
               else find_entry_loop hi tag (next_ptr b)))"

definition FindEntry :: "hash_index \<Rightarrow> key_hash \<Rightarrow> entry_ptr option option" where
  "FindEntry hi h = find_entry_loop hi (kh_tag h) (hash_bucket_ptr hi h)"

text \<open>
  \<open>FindTentativeEntry\<close>: the matching entry, or the first free slot of the chain, or a slot of a
  new overflow bucket. It returns the slot and the entry expected there. Allocating may use
  the epoch, so the state is the index with the epoch.
\<close>

type_synonym ('a, 'z) index_state = "hash_index \<times> ('a, 'z) light_epoch_scheme"

definition add_overflow_bucket :: "('a \<Rightarrow> 'z \<Rightarrow> 'z) \<Rightarrow> (nat \<Rightarrow> 'a) \<Rightarrow> nat \<Rightarrow> bucket_ptr \<Rightarrow>
    ovf_entry \<Rightarrow> ('a, 'z) index_state \<Rightarrow> ((entry_ptr + bucket_ptr) \<times> ('a, 'z) index_state) option" where
  "add_overflow_bucket act del t p overflow_entry = (\<lambda>(hi, e).
     case Malloc_Allocate HashBucket act del t (hi_ofb hi, e) of
       None \<Rightarrow> None
     | Some (new_bucket_addr, m, e) \<Rightarrow>
         let hi = hi\<lparr>hi_ofb := m\<rparr> in
         (case get_bucket hi p of
            None \<Rightarrow> None
          | Some b \<Rightarrow>
              (case ovf_compare_exchange_strong (hb_overflow b) overflow_entry
                  (HashBucketOverflowEntry new_bucket_addr) of
                 (True, _, cell) \<Rightarrow>
                   Some (Inl (Ovf new_bucket_addr, 0), store_overflow p cell hi, e)
               | (False, overflow_entry, _) \<Rightarrow>
                   Some (Inr (Ovf (ovf_address overflow_entry)),
                     hi\<lparr>hi_ofb := FreeAtEpoch t new_bucket_addr 0 (hi_ofb hi)\<rparr>, e))))"

partial_function (option) find_tentative_loop :: "('a \<Rightarrow> 'z \<Rightarrow> 'z) \<Rightarrow> (nat \<Rightarrow> 'a) \<Rightarrow> nat \<Rightarrow> u16 \<Rightarrow>
    bucket_ptr \<Rightarrow> entry_ptr option \<Rightarrow> ('a, 'z) index_state \<Rightarrow>
    (entry_ptr \<times> hb_entry \<times> ('a, 'z) index_state) option" where
  "find_tentative_loop act del t tag p atomic_entry st =
     (case get_bucket (fst st) p of
        None \<Rightarrow> None
      | Some b \<Rightarrow>
          (case find_in_bucket (final_match tag) b of
             Some i \<Rightarrow> Some ((p, i), hb_entries b ! i, st)
           | None \<Rightarrow>
               let atomic_entry =
                     (case atomic_entry of
                        None \<Rightarrow> map_option (\<lambda>i. (p, i)) (find_in_bucket hbe_unused b)
                      | Some ae \<Rightarrow> Some ae)
               in if ovf_unused (hb_overflow b)
                  then (case atomic_entry of
                          Some ae \<Rightarrow> Some (ae, kInvalidEntry, st)
                        | None \<Rightarrow>
                            (case add_overflow_bucket act del t p (hb_overflow b) st of
                               None \<Rightarrow> None
                             | Some (Inl ae, st) \<Rightarrow> Some (ae, kInvalidEntry, st)
                             | Some (Inr q, st) \<Rightarrow> find_tentative_loop act del t tag q None st))
                  else find_tentative_loop act del t tag (next_ptr b) atomic_entry st))"

definition FindTentativeEntry :: "('a \<Rightarrow> 'z \<Rightarrow> 'z) \<Rightarrow> (nat \<Rightarrow> 'a) \<Rightarrow> nat \<Rightarrow> key_hash \<Rightarrow> bucket_ptr \<Rightarrow>
    ('a, 'z) index_state \<Rightarrow> (entry_ptr \<times> hb_entry \<times> ('a, 'z) index_state) option" where
  "FindTentativeEntry act del t h p st = find_tentative_loop act del t (kh_tag h) p None st"

partial_function (option) conflict_loop :: "hash_index \<Rightarrow> u16 \<Rightarrow> entry_ptr \<Rightarrow> bucket_ptr \<Rightarrow> bool option" where
  "conflict_loop hi tag atomic_entry p =
     (case get_bucket hi p of
        None \<Rightarrow> None
      | Some b \<Rightarrow>
          if list_ex (\<lambda>i. hb_entries b ! i \<noteq> kInvalidEntry \<and> hbe_tag (hb_entries b ! i) = tag \<and>
               atomic_entry \<noteq> (p, i)) [0..<kNumEntries]
          then Some True
          else if ovf_unused (hb_overflow b) then Some False
          else conflict_loop hi tag atomic_entry (next_ptr b))"

definition HasConflictingEntry :: "hash_index \<Rightarrow> bucket_ptr \<Rightarrow> entry_ptr \<Rightarrow> bool option" where
  "HasConflictingEntry hi p atomic_entry =
     (case load_entry hi atomic_entry of
        None \<Rightarrow> None | Some e \<Rightarrow> conflict_loop hi (hbe_tag e) atomic_entry p)"

text \<open>
  One iteration of the loop of \<open>FindOrCreateEntry\<close>: the slot and its entry, or nothing when it
  has to be tried again.
\<close>

definition try_create_entry :: "('a \<Rightarrow> 'z \<Rightarrow> 'z) \<Rightarrow> (nat \<Rightarrow> 'a) \<Rightarrow> nat \<Rightarrow> key_hash \<Rightarrow>
    ('a, 'z) index_state \<Rightarrow> ((entry_ptr \<times> hb_entry) option \<times> ('a, 'z) index_state) option" where
  "try_create_entry act del t h st =
     (let bucket = hash_bucket_ptr (fst st) h in
      case FindTentativeEntry act del t h bucket st of
        None \<Rightarrow> None
      | Some (ae, expected_entry, hi, e) \<Rightarrow>
          if expected_entry \<noteq> kInvalidEntry then Some (Some (ae, expected_entry), hi, e)
          else
            (case load_entry hi ae of
               None \<Rightarrow> None
             | Some cell \<Rightarrow>
                 (case hbe_compare_exchange_strong cell expected_entry
                     (HashBucketEntry kInvalidAddress (kh_tag h) True) of
                    (False, _, _) \<Rightarrow> Some (None, hi, e)
                  | (True, _, cell) \<Rightarrow>
                      let hi = store_entry ae cell hi in
                      (case HasConflictingEntry hi bucket ae of
                         None \<Rightarrow> None
                       | Some True \<Rightarrow> Some (None, store_entry ae kInvalidEntry hi, e)
                       | Some False \<Rightarrow>
                           let expected_entry = HashBucketEntry kInvalidAddress (kh_tag h) False
                           in Some (Some (ae, expected_entry), store_entry ae expected_entry hi, e)))))"

partial_function (option) FindOrCreateEntry :: "('a \<Rightarrow> 'z \<Rightarrow> 'z) \<Rightarrow> (nat \<Rightarrow> 'a) \<Rightarrow> nat \<Rightarrow> key_hash \<Rightarrow>
    ('a, 'z) index_state \<Rightarrow> (entry_ptr \<times> hb_entry \<times> ('a, 'z) index_state) option" where
  "FindOrCreateEntry act del t h st =
     (case try_create_entry act del t h st of
        None \<Rightarrow> None
      | Some (r, st) \<Rightarrow>
          (case r of
             Some (ae, expected_entry) \<Rightarrow> Some (ae, expected_entry, st)
           | None \<Rightarrow> FindOrCreateEntry act del t h st))"

declare find_entry_loop.simps [code] find_tentative_loop.simps [code] conflict_loop.simps [code]
  FindOrCreateEntry.simps [code]


section \<open>Chains as lists of buckets\<close>

inductive chain :: "hash_index \<Rightarrow> bucket_ptr \<Rightarrow> (bucket_ptr \<times> hash_bucket) list \<Rightarrow> bool" for hi where
  chain_end: "get_bucket hi p = Some b \<Longrightarrow> ovf_unused (hb_overflow b) \<Longrightarrow> chain hi p [(p, b)]"
| chain_next: "get_bucket hi p = Some b \<Longrightarrow> \<not> ovf_unused (hb_overflow b) \<Longrightarrow>
    chain hi (next_ptr b) bs \<Longrightarrow> chain hi p ((p, b) # bs)"

definition bucket_slots :: "bucket_ptr \<times> hash_bucket \<Rightarrow> (entry_ptr \<times> hb_entry) list" where
  "bucket_slots = (\<lambda>(p, b). map (\<lambda>i. ((p, i), hb_entries b ! i)) [0..<kNumEntries])"

definition slots :: "(bucket_ptr \<times> hash_bucket) list \<Rightarrow> (entry_ptr \<times> hb_entry) list" where
  "slots bs = concat (map bucket_slots bs)"

definition find_slot :: "(hb_entry \<Rightarrow> bool) \<Rightarrow> (entry_ptr \<times> hb_entry) list \<Rightarrow> (entry_ptr \<times> hb_entry) option" where
  "find_slot P xs = List.find (\<lambda>x. P (snd x)) xs"

lemma slots_Cons: "slots (x # bs) = bucket_slots x @ slots bs"
  by (simp add: slots_def)

lemma find_append:
  "List.find P (xs @ ys) = (case List.find P xs of None \<Rightarrow> List.find P ys | Some x \<Rightarrow> Some x)"
  by (induction xs) auto

lemma find_map: "List.find P (map f xs) = map_option f (List.find (\<lambda>x. P (f x)) xs)"
  by (induction xs) auto

lemma find_slot_bucket:
  "find_slot P (bucket_slots (p, b) @ xs) =
     (case find_in_bucket P b of Some i \<Rightarrow> Some ((p, i), hb_entries b ! i) | None \<Rightarrow> find_slot P xs)"
  by (simp add: find_slot_def find_in_bucket_def bucket_slots_def find_append find_map split: option.split)

lemma find_slot_Nil [simp]: "find_slot P [] = None"
  by (simp add: find_slot_def)

lemma find_slot_None: "find_slot P xs = None \<longleftrightarrow> (\<forall>x \<in> set xs. \<not> P (snd x))"
  by (auto simp: find_slot_def find_None_iff)

lemma find_slot_Some: "find_slot P xs = Some x \<Longrightarrow> x \<in> set xs \<and> P (snd x)"
  by (auto simp: find_slot_def find_Some_iff)

lemma find_slot_append: "find_slot P ys = None \<Longrightarrow> find_slot P (xs @ ys) = find_slot P xs"
  by (simp add: find_slot_def find_append split: option.split)

lemma find_slot_map:
  assumes "\<And>x. x \<in> set xs \<Longrightarrow> P (snd (f x)) = P (snd x)"
  shows "find_slot P (map f xs) = map_option f (find_slot P xs)"
  using assms by (induction xs) (simp_all add: find_slot_def)

lemma chain_det: "chain hi p bs \<Longrightarrow> chain hi p bs' \<Longrightarrow> bs' = bs"
proof (induction arbitrary: bs' rule: chain.induct)
  case (chain_end p b)
  from chain_end(3,1,2) show ?case by cases auto
next
  case (chain_next p b bs)
  from chain_next(5,1,2,4) show ?case by cases auto
qed

lemma chain_get: "chain hi p bs \<Longrightarrow> (q, b) \<in> set bs \<Longrightarrow> get_bucket hi q = Some b"
  by (induction rule: chain.induct) auto

lemma chain_nonempty: "chain hi p bs \<Longrightarrow> \<exists>b bs'. bs = (p, b) # bs'"
  by (cases rule: chain.cases) auto

lemma chain_last: "chain hi p bs \<Longrightarrow> ovf_unused (hb_overflow (snd (last bs)))"
  by (induction rule: chain.induct) (auto dest: chain_nonempty)

lemma chain_butlast: "chain hi p bs \<Longrightarrow> (q, b) \<in> set (butlast bs) \<Longrightarrow> \<not> ovf_unused (hb_overflow b)"
  by (induction rule: chain.induct) (auto dest: chain_nonempty split: if_splits)

text \<open>Every pointer of a chain other than the last differs from the last.\<close>

lemma chain_last_fresh:
  assumes "chain hi p bs" "(q, b) \<in> set (butlast bs)"
  shows "q \<noteq> fst (last bs)"
proof
  assume eq: "q = fst (last bs)"
  have "last bs \<in> set bs" using chain_nonempty [OF assms(1)] by (metis last_in_set list.distinct(1))
  then have "get_bucket hi q = Some (snd (last bs))" using chain_get [OF assms(1)] eq by (metis prod.collapse)
  moreover have "get_bucket hi q = Some b" using chain_get [OF assms(1)] assms(2) by (metis in_set_butlastD)
  ultimately show False using chain_last [OF assms(1)] chain_butlast [OF assms] by simp
qed

text \<open>Changing buckets of a chain without touching their overflow entries keeps the chain.\<close>

lemma chain_map:
  assumes "chain hi p bs"
    and "\<And>q b. (q, b) \<in> set bs \<Longrightarrow> get_bucket hi' q = Some (g q b) \<and> hb_overflow (g q b) = hb_overflow b"
  shows "chain hi' p (map (\<lambda>(q, b). (q, g q b)) bs)"
  using assms
proof (induction rule: chain.induct)
  case (chain_end p b)
  then show ?case by (auto intro: chain.chain_end)
next
  case (chain_next p b bs)
  then have "chain hi' (next_ptr b) (map (\<lambda>(q, b). (q, g q b)) bs)" by simp
  moreover have "get_bucket hi' p = Some (g p b)" "hb_overflow (g p b) = hb_overflow b"
    using chain_next.prems by auto
  ultimately show ?case using chain_next(2) by (auto intro: chain.chain_next)
qed

corollary chain_same:
  assumes "chain hi p bs" "\<And>q b. (q, b) \<in> set bs \<Longrightarrow> get_bucket hi' q = Some b"
  shows "chain hi' p bs"
  using chain_map [OF assms(1), of hi' "\<lambda>_ b. b"] assms(2) by simp

text \<open>Appending an overflow bucket at the end of a chain.\<close>

lemma chain_append:
  assumes "chain hi p bs" "last bs = (q, b)"
    and "get_bucket hi' q = Some b'" "\<not> ovf_unused (hb_overflow b')"
    and "get_bucket hi' (next_ptr b') = Some nb" "ovf_unused (hb_overflow nb)"
    and "\<And>r c. (r, c) \<in> set (butlast bs) \<Longrightarrow> get_bucket hi' r = Some c"
  shows "chain hi' p (butlast bs @ [(q, b'), (next_ptr b', nb)])"
  using assms
proof (induction rule: chain.induct)
  case (chain_end p c)
  then show ?case by (auto intro!: chain.chain_next chain.chain_end)
next
  case (chain_next p c bs)
  have ne: "bs \<noteq> []" using chain_nonempty [OF chain_next(3)] by auto
  then have "chain hi' (next_ptr c) (butlast bs @ [(q, b'), (next_ptr b', nb)])"
    using chain_next by simp
  moreover have "get_bucket hi' p = Some c" using chain_next.prems(6) ne by simp
  ultimately show ?case using ne chain_next(2) by (auto intro: chain.chain_next)
qed


section \<open>The loops on a chain\<close>

lemma find_entry_chain:
  "chain hi p bs \<Longrightarrow>
   find_entry_loop hi tag p = Some (map_option fst (find_slot (final_match tag) (slots bs)))"
proof (induction rule: chain.induct)
  case (chain_end p b)
  then show ?case
    by (subst find_entry_loop.simps)
      (simp add: slots_def find_slot_bucket [where xs = "[]", simplified] split: option.split)
next
  case (chain_next p b bs)
  then show ?case
    by (subst find_entry_loop.simps) (simp add: slots_Cons find_slot_bucket split: option.split)
qed

lemma bucket_conflict:
  "list_ex (\<lambda>i. hb_entries b ! i \<noteq> 0 \<and> hbe_tag (hb_entries b ! i) = tag \<and> ae \<noteq> (p, i)) [0..<kNumEntries] \<longleftrightarrow>
   (\<exists>x \<in> set (bucket_slots (p, b)). snd x \<noteq> 0 \<and> hbe_tag (snd x) = tag \<and> fst x \<noteq> ae)"
  by (auto simp: bucket_slots_def list_ex_iff)

lemma conflict_chain:
  "chain hi p bs \<Longrightarrow>
   conflict_loop hi tag ae p =
     Some (\<exists>x \<in> set (slots bs). snd x \<noteq> 0 \<and> hbe_tag (snd x) = tag \<and> fst x \<noteq> ae)"
proof (induction rule: chain.induct)
  case (chain_end p b)
  then show ?case by (subst conflict_loop.simps) (simp add: bucket_conflict slots_def)
next
  case (chain_next p b bs)
  then show ?case
    by (subst conflict_loop.simps) (auto simp: bucket_conflict slots_Cons)
qed

text \<open>
  The slot that \<open>FindTentativeEntry\<close> picks, given a free slot found before: a match, else that
  free slot, else the first free one.
\<close>

definition pick_slot :: "u16 \<Rightarrow> entry_ptr option \<Rightarrow> (entry_ptr \<times> hb_entry) list \<Rightarrow> (entry_ptr \<times> hb_entry) option" where
  "pick_slot tag ae xs = (case find_slot (final_match tag) xs of
     Some x \<Rightarrow> Some x
   | None \<Rightarrow> (case ae of Some a \<Rightarrow> Some (a, 0)
              | None \<Rightarrow> map_option (\<lambda>x. (fst x, 0)) (find_slot hbe_unused xs)))"

lemma find_tentative_chain:
  "chain (fst st) p bs \<Longrightarrow>
   find_tentative_loop act del t tag p ae st =
     (case pick_slot tag ae (slots bs) of
        Some (x, e) \<Rightarrow> Some (x, e, st)
      | None \<Rightarrow>
          (case add_overflow_bucket act del t (fst (last bs)) (hb_overflow (snd (last bs))) st of
             None \<Rightarrow> None
           | Some (Inl x, st) \<Rightarrow> Some (x, 0, st)
           | Some (Inr q, st) \<Rightarrow> find_tentative_loop act del t tag q None st))"
proof (induction arbitrary: ae rule: chain.induct)
  case (chain_end p b)
  then show ?case
    by (subst find_tentative_loop.simps)
      (auto simp: pick_slot_def slots_def find_slot_bucket [where xs = "[]", simplified]
        split: option.split)
next
  case (chain_next p b bs)
  have ne: "bs \<noteq> []" using chain_nonempty [OF chain_next(3)] by auto
  show ?case
  proof (cases "find_in_bucket (final_match tag) b")
    case (Some i)
    then show ?thesis using chain_next(1)
      by (subst find_tentative_loop.simps) (simp add: pick_slot_def slots_Cons find_slot_bucket)
  next
    case None
    let ?ae = "case ae of None \<Rightarrow> map_option (\<lambda>i. (p, i)) (find_in_bucket hbe_unused b) | Some ae \<Rightarrow> Some ae"
    have step: "find_tentative_loop act del t tag p ae st =
        find_tentative_loop act del t tag (next_ptr b) ?ae st"
      using None chain_next(1,2) by (subst find_tentative_loop.simps) simp
    have pick: "pick_slot tag ae (slots ((p, b) # bs)) = pick_slot tag ?ae (slots bs)"
      using None by (simp add: pick_slot_def slots_Cons find_slot_bucket split: option.split)
    have lst: "last ((p, b) # bs) = last bs" using ne by simp
    show ?thesis unfolding step pick lst by (rule chain_next.IH)
  qed
qed


section \<open>Well-formed indexes\<close>

definition ovf_used :: "hash_index \<Rightarrow> fpa set" where
  "ovf_used hi = {a. \<exists>i bs b. i < length (ht_buckets (hi_table hi)) \<and> chain hi (Main i) bs \<and> (Ovf a, b) \<in> set bs}"

definition index_wf :: "hash_index \<Rightarrow> bool" where
  "index_wf hi \<longleftrightarrow>
     table_wf (hi_table hi) \<and> pages_ok (hi_ofb hi) \<and> fresh_blank HashBucket (hi_ofb hi) \<and>
     1 \<le> unat (fm_count (hi_ofb hi)) \<and> free_ok (hi_ofb hi) (ovf_used hi) \<and>
     (\<forall>t. \<forall>a \<in> set (free_addrs (hi_ofb hi) t). fm_get (hi_ofb hi) a = Some HashBucket) \<and>
     (\<forall>i < length (ht_buckets (hi_table hi)). \<exists>bs. chain hi (Main i) bs \<and>
        (\<forall>x \<in> set bs. length (hb_entries (snd x)) = kNumEntries)) \<and>
     (\<forall>i j bs cs. i \<noteq> j \<longrightarrow> chain hi (Main i) bs \<longrightarrow> chain hi (Main j) cs \<longrightarrow>
        fst ` set bs \<inter> fst ` set cs = {})"

definition ptr_ok :: "hash_index \<Rightarrow> bucket_ptr \<Rightarrow> bool" where
  "ptr_ok hi p = (case p of
     Main i \<Rightarrow> i < length (ht_buckets (hi_table hi)) | Ovf a \<Rightarrow> fm_valid (hi_ofb hi) a)"

lemma get_set_bucket:
  "ptr_ok hi p \<Longrightarrow> ptr_ok hi q \<Longrightarrow>
   get_bucket (set_bucket p b hi) q = (if q = p then Some b else get_bucket hi q)"
  by (cases p; cases q) (auto simp: ptr_ok_def fm_store.get_put_same fm_store.get_put_other)

lemma ptr_ok_set_bucket [simp]: "ptr_ok (set_bucket p b hi) q = ptr_ok hi q"
  by (cases p; cases q) (auto simp: ptr_ok_def fm_store.valid_put)

lemma length_set_bucket [simp]:
  "length (ht_buckets (hi_table (set_bucket p b hi))) = length (ht_buckets (hi_table hi))"
  "ht_size (hi_table (set_bucket p b hi)) = ht_size (hi_table hi)"
  by (cases p; simp)+

lemma chain_ptrs_ok:
  assumes "index_wf hi" "i < length (ht_buckets (hi_table hi))" "chain hi (Main i) bs" "(q, b) \<in> set bs"
  shows "ptr_ok hi q"
proof (cases q)
  case (Main j)
  then show ?thesis using chain_get [OF assms(3,4)] by (auto simp: ptr_ok_def split: if_splits)
next
  case (Ovf a)
  then have "a \<in> ovf_used hi" using assms(2-4) by (auto simp: ovf_used_def)
  then show ?thesis using assms(1) Ovf by (auto simp: index_wf_def free_ok_def ptr_ok_def fm_valid_def)
qed

lemma index_chain:
  assumes "index_wf hi" "i < length (ht_buckets (hi_table hi))"
  obtains bs where "chain hi (Main i) bs" "\<And>x. x \<in> set bs \<Longrightarrow> length (hb_entries (snd x)) = kNumEntries"
proof -
  have "\<exists>bs. chain hi (Main i) bs \<and> (\<forall>x \<in> set bs. length (hb_entries (snd x)) = kNumEntries)"
    using assms by (simp add: index_wf_def)
  then show thesis using that by blast
qed

text \<open>\<open>FindEntry\<close> always returns, and what it returns depends on the slots of the chain only.\<close>

lemma FindEntry_chain:
  assumes "chain hi (hash_bucket_ptr hi h) bs"
  shows "FindEntry hi h = Some (map_option fst (find_slot (final_match (kh_tag h)) (slots bs)))"
  using find_entry_chain [OF assms] by (simp add: FindEntry_def)

lemma hash_bucket_ptr_less:
  "index_wf hi \<Longrightarrow> hash_bucket_ptr hi h = Main i \<Longrightarrow> i < length (ht_buckets (hi_table hi))"
  using ht_bucket_less [of "hi_table hi" h] by (auto simp: index_wf_def hash_bucket_ptr_def)


text \<open>
  The chains of a well-formed index as a function of the bucket number; and the converse, to
  establish well-formedness.
\<close>

abbreviation num_buckets :: "hash_index \<Rightarrow> nat" where
  "num_buckets hi \<equiv> length (ht_buckets (hi_table hi))"

definition chains_ok :: "hash_index \<Rightarrow> (nat \<Rightarrow> (bucket_ptr \<times> hash_bucket) list) \<Rightarrow> bool" where
  "chains_ok hi cs \<longleftrightarrow>
     (\<forall>i < num_buckets hi. chain hi (Main i) (cs i) \<and>
        (\<forall>x \<in> set (cs i). length (hb_entries (snd x)) = kNumEntries)) \<and>
     (\<forall>i < num_buckets hi. \<forall>j < num_buckets hi. i \<noteq> j \<longrightarrow> fst ` set (cs i) \<inter> fst ` set (cs j) = {})"

lemma chain_Main_less: "chain hi (Main i) bs \<Longrightarrow> i < num_buckets hi"
  by (erule chain.cases) (auto split: if_splits)

lemma ovf_used_chains:
  assumes "chains_ok hi cs"
  shows "ovf_used hi = {a. \<exists>i < num_buckets hi. Ovf a \<in> fst ` set (cs i)}"
proof -
  have ch: "chain hi (Main i) (cs i)" if "i < num_buckets hi" for i using assms that by (simp add: chains_ok_def)
  have eq: "chain hi (Main i) bs \<longleftrightarrow> bs = cs i" if "i < num_buckets hi" for i bs
    using ch [OF that] chain_det by blast
  have "a \<in> ovf_used hi \<longleftrightarrow> (\<exists>i < num_buckets hi. \<exists>b. (Ovf a, b) \<in> set (cs i))" for a
    unfolding ovf_used_def using eq by simp metis
  moreover have "Ovf a \<in> fst ` set bs \<longleftrightarrow> (\<exists>b. (Ovf a, b) \<in> set bs)" for a and bs :: "(bucket_ptr \<times> hash_bucket) list"
    by force
  ultimately show ?thesis by auto
qed

lemma index_wf_chains:
  assumes "index_wf hi"
  obtains cs where "chains_ok hi cs"
proof -
  define cs where "cs i = (SOME bs. chain hi (Main i) bs \<and>
    (\<forall>x \<in> set bs. length (hb_entries (snd x)) = kNumEntries))" for i
  have "chain hi (Main i) (cs i) \<and> (\<forall>x \<in> set (cs i). length (hb_entries (snd x)) = kNumEntries)"
    if "i < num_buckets hi" for i
    unfolding cs_def
    by (rule someI_ex) (use assms that in \<open>simp add: index_wf_def\<close>)
  moreover have "fst ` set bs \<inter> fst ` set bs' = {}"
    if "i \<noteq> j" "chain hi (Main i) bs" "chain hi (Main j) bs'" for i j bs bs'
    using assms that unfolding index_wf_def by metis
  ultimately show thesis using that [of cs] by (simp add: chains_ok_def)
qed

lemma index_wfI:
  assumes "chains_ok hi cs" "table_wf (hi_table hi)" "pages_ok (hi_ofb hi)"
    "fresh_blank HashBucket (hi_ofb hi)" "1 \<le> unat (fm_count (hi_ofb hi))"
    "free_ok (hi_ofb hi) {a. \<exists>i < num_buckets hi. Ovf a \<in> fst ` set (cs i)}"
    "\<And>t a. a \<in> set (free_addrs (hi_ofb hi) t) \<Longrightarrow> fm_get (hi_ofb hi) a = Some HashBucket"
  shows "index_wf hi"
  unfolding index_wf_def
proof (intro conjI allI impI ballI)
  show "free_ok (hi_ofb hi) (ovf_used hi)" unfolding ovf_used_chains [OF assms(1)] by (rule assms(6))
  show "\<exists>bs. chain hi (Main i) bs \<and> (\<forall>x \<in> set bs. length (hb_entries (snd x)) = kNumEntries)"
    if "i < num_buckets hi" for i
    using assms(1) that by (auto simp: chains_ok_def)
  show "fst ` set bs \<inter> fst ` set bs' = {}"
    if "i \<noteq> j" "chain hi (Main i) bs" "chain hi (Main j) bs'" for i j bs bs'
  proof -
    have lt: "i < num_buckets hi" "j < num_buckets hi" using that chain_Main_less by blast+
    then have c: "chain hi (Main i) (cs i)" "chain hi (Main j) (cs j)"
      using assms(1) by (simp_all add: chains_ok_def)
    have "bs = cs i" "bs' = cs j" using chain_det [OF c(1) that(2)] chain_det [OF c(2) that(3)] .
    then show ?thesis using assms(1) lt that(1) by (simp add: chains_ok_def)
  qed
qed (fact assms(2-5) assms(7))+


section \<open>Writing an entry\<close>

definition upd_slot :: "bucket_ptr \<Rightarrow> nat \<Rightarrow> hb_entry \<Rightarrow> (bucket_ptr \<times> hash_bucket) list \<Rightarrow>
    (bucket_ptr \<times> hash_bucket) list" where
  "upd_slot p k e bs =
     map (\<lambda>(q, b). (q, if q = p then b\<lparr>hb_entries := (hb_entries b)[k := e]\<rparr> else b)) bs"

lemma slots_upd_slot:
  assumes "\<And>x. x \<in> set bs \<Longrightarrow> length (hb_entries (snd x)) = kNumEntries" "k < kNumEntries"
  shows "slots (upd_slot p k e bs) = map (\<lambda>(x, v). (x, if x = (p, k) then e else v)) (slots bs)"
  using assms(1)
proof (induction bs)
  case (Cons x bs)
  obtain q b where x: "x = (q, b)" by (cases x)
  have "length (hb_entries b) = kNumEntries" using Cons.prems [of x] x by simp
  then have "bucket_slots (q, if q = p then b\<lparr>hb_entries := (hb_entries b)[k := e]\<rparr> else b) =
      map (\<lambda>(x, v). (x, if x = (p, k) then e else v)) (bucket_slots (q, b))"
    using assms(2) by (auto simp: bucket_slots_def nth_list_update_if)
  moreover have "slots (upd_slot p k e bs) = map (\<lambda>(x, v). (x, if x = (p, k) then e else v)) (slots bs)"
    using Cons by simp
  ultimately show ?case by (simp add: upd_slot_def slots_Cons x)
qed (simp add: upd_slot_def slots_def)

lemma fst_upd_slot [simp]: "fst ` set (upd_slot p k e bs) = fst ` set bs"
  by (force simp: upd_slot_def)

lemma store_entry_wf:
  assumes wf: "index_wf hi" and cs: "chains_ok hi cs"
    and p: "i0 < num_buckets hi" "p \<in> fst ` set (cs i0)"
  shows "chains_ok (store_entry (p, k) e hi) (\<lambda>i. upd_slot p k e (cs i))"
    and "index_wf (store_entry (p, k) e hi)"
    and "ht_size (hi_table (store_entry (p, k) e hi)) = ht_size (hi_table hi)"
    and "num_buckets (store_entry (p, k) e hi) = num_buckets hi"
proof -
  let ?hi = "store_entry (p, k) e hi"
  from p(2) obtain b where b: "(p, b) \<in> set (cs i0)" by auto
  have ch: "chain hi (Main i) (cs i)" if "i < num_buckets hi" for i using cs that by (simp add: chains_ok_def)
  have get: "get_bucket hi p = Some b" using chain_get [OF ch [OF p(1)] b] .
  have pok: "ptr_ok hi p" using chain_ptrs_ok [OF wf p(1) ch [OF p(1)] b] .
  let ?b = "b\<lparr>hb_entries := (hb_entries b)[k := e]\<rparr>"
  have hi': "?hi = set_bucket p ?b hi" using get by (simp add: store_entry_def)
  have n: "num_buckets ?hi = num_buckets hi" by (simp add: hi')
  have get': "get_bucket ?hi q = (if q = p then Some ?b else get_bucket hi q)" if "ptr_ok hi q" for q
    unfolding hi' using get_set_bucket [OF pok that] .
  have ch': "chain ?hi (Main i) (upd_slot p k e (cs i))" if i: "i < num_buckets hi" for i
    unfolding upd_slot_def
  proof (rule chain_map [OF ch [OF i]])
    fix q c assume qc: "(q, c) \<in> set (cs i)"
    have "ptr_ok hi q" using chain_ptrs_ok [OF wf i ch [OF i] qc] .
    moreover have "get_bucket hi q = Some c" using chain_get [OF ch [OF i] qc] .
    ultimately show "get_bucket ?hi q = Some (if q = p then c\<lparr>hb_entries := (hb_entries c)[k := e]\<rparr> else c) \<and>
        hb_overflow (if q = p then c\<lparr>hb_entries := (hb_entries c)[k := e]\<rparr> else c) = hb_overflow c"
      using get get' by auto
  qed
  show cs': "chains_ok ?hi (\<lambda>i. upd_slot p k e (cs i))"
    unfolding chains_ok_def n
  proof (intro conjI allI impI ballI)
    show "length (hb_entries (snd x)) = kNumEntries" if "i < num_buckets hi" "x \<in> set (upd_slot p k e (cs i))" for i x
    proof -
      from that(2) obtain q c where "(q, c) \<in> set (cs i)"
        "x = (q, if q = p then c\<lparr>hb_entries := (hb_entries c)[k := e]\<rparr> else c)"
        by (auto simp: upd_slot_def)
      moreover have "\<forall>x \<in> set (cs i). length (hb_entries (snd x)) = kNumEntries"
        using cs that(1) by (simp add: chains_ok_def)
      ultimately show ?thesis by auto
    qed
    show "fst ` set (upd_slot p k e (cs i)) \<inter> fst ` set (upd_slot p k e (cs j)) = {}"
      if "i < num_buckets hi" "j < num_buckets hi" "i \<noteq> j" for i j
      using cs that by (simp add: chains_ok_def)
  qed (rule ch')
  have used: "{a. \<exists>i < num_buckets hi. Ovf a \<in> fst ` set (cs i)} = ovf_used hi"
    by (rule ovf_used_chains [OF cs, symmetric])
  show "index_wf ?hi"
  proof (rule index_wfI [OF cs'])
    show "table_wf (hi_table ?hi)"
      unfolding hi' using wf by (cases p) (simp_all add: index_wf_def table_wf_def)
    show "pages_ok (hi_ofb ?hi)" "1 \<le> unat (fm_count (hi_ofb ?hi))"
      unfolding hi' using wf by (cases p; simp add: index_wf_def)+
    show "fresh_blank HashBucket (hi_ofb ?hi)"
      unfolding hi' using wf pok
      by (cases p) (simp_all add: index_wf_def ptr_ok_def fm_valid_def fresh_blank_set)
    show "free_ok (hi_ofb ?hi) {a. \<exists>i < num_buckets ?hi. Ovf a \<in> fst ` set (upd_slot p k e (cs i))}"
      unfolding n fst_upd_slot used unfolding hi' using wf
      by (cases p) (simp_all add: index_wf_def free_ok_def)
    fix t a assume a: "a \<in> set (free_addrs (hi_ofb ?hi) t)"
    then have a': "a \<in> set (free_addrs (hi_ofb hi) t)" unfolding hi' by (cases p) simp_all
    then have *: "a \<notin> ovf_used hi" "ptr_ok hi (Ovf a)" "fm_get (hi_ofb hi) a = Some HashBucket"
      using wf by (auto simp: index_wf_def free_ok_def ptr_ok_def fm_valid_def)
    have "p \<noteq> Ovf a" using *(1) p unfolding used [symmetric] by blast
    then show "fm_get (hi_ofb ?hi) a = Some HashBucket" using get' [OF *(2)] *(3) by simp
  qed
  show "ht_size (hi_table ?hi) = ht_size (hi_table hi)" "num_buckets ?hi = num_buckets hi"
    by (simp_all add: hi')
qed


section \<open>Adding an overflow bucket\<close>

text \<open>What the index relies on when it allocates: a fresh, empty bucket; the others untouched.\<close>

definition alloc_ok :: "hash_bucket fixed_malloc \<Rightarrow> fpa set \<Rightarrow> bool" where
  "alloc_ok m used \<longleftrightarrow> pages_ok m \<and> fresh_blank HashBucket m \<and> 1 \<le> unat (fm_count m) \<and> free_ok m used \<and>
     (\<forall>t. \<forall>a \<in> set (free_addrs m t). fm_get m a = Some HashBucket)"

lemma index_wf_alloc_ok: "index_wf hi \<Longrightarrow> alloc_ok (hi_ofb hi) (ovf_used hi)"
  by (simp add: index_wf_def alloc_ok_def)

lemma Malloc_Allocate_contract:
  assumes ok: "alloc_ok m used" and lt: "unat (fm_count m) + 1 < 2 ^ 48"
    and r: "Malloc_Allocate HashBucket act del t (m, e) = Some (a, m', e')"
  shows "alloc_ok m' (insert a used)" "a \<notin> used" "a \<noteq> 0" "unat a < 2 ^ 48"
    "fm_get m' a = Some HashBucket" "fm_valid m' a"
    "\<And>b. fm_valid m b \<Longrightarrow> fm_valid m' b \<and> fm_get m' b = fm_get m b"
proof -
  have m: "pages_ok m" "fresh_blank HashBucket m" "1 \<le> unat (fm_count m)" "free_ok m used"
    "\<And>t a. a \<in> set (free_addrs m t) \<Longrightarrow> fm_get m a = Some HashBucket"
    using ok by (simp_all add: alloc_ok_def)
  have "alloc_ok m' (insert a used) \<and> a \<notin> used \<and> a \<noteq> 0 \<and> fm_get m' a = Some HashBucket \<and>
      fm_valid m' a \<and> (\<forall>b. fm_valid m b \<longrightarrow> fm_valid m' b \<and> fm_get m' b = fm_get m b)"
    using r
  proof (cases rule: Malloc_Allocate_cases)
    case (reuse ep rest)
    note fr = free_ok_reuse [OF m(4) reuse(1)]
    have fa: "set (free_addrs m' u) \<subseteq> set (free_addrs m u)" for u
      using reuse(1,3) by (auto simp: free_addrs_def split: if_splits)
    have "a \<in> set (free_addrs m t)" using reuse(1) by (simp add: free_addrs_def)
    then have "fm_get m a = Some HashBucket" by (rule m(5))
    moreover have "\<forall>u. \<forall>b \<in> set (free_addrs m' u). fm_get m b = Some HashBucket" using fa m(5) by blast
    ultimately show ?thesis using reuse(3) fr m by (auto simp: alloc_ok_def fm_valid_def)
  next
    case fresh
    note sp = Allocate_fresh_spec [OF m(1,2) lt fresh]
    have cnt: "unat (fm_count m') = unat (fm_count m) + 1" using sp(2) lt by (simp add: unat_word_ariths)
    have fa: "free_addrs m' = free_addrs m" using sp(3) by (simp add: free_addrs_def fun_eq_iff)
    have lt_cnt: "unat b < unat (fm_count m)" if "b \<in> used \<or> b \<in> set (free_addrs m u)" for b u
      using m(4) that by (auto simp: free_ok_def)
    have "a \<notin> used" "a \<notin> set (free_addrs m u)" for u using lt_cnt [of a] sp(1) by auto
    then have "free_ok m' (insert a used)"
      using m(3,4) sp(1) cnt unfolding free_ok_def fa by (auto intro: less_SucI)
    moreover have "fm_get m' b = Some HashBucket" if "b \<in> set (free_addrs m u)" for b u
      using sp(7) [of b] m(5) that lt_cnt by auto
    ultimately show ?thesis
      using sp cnt m(3) fa \<open>a \<notin> used\<close> by (auto simp: alloc_ok_def fm_valid_def)
  qed
  then show "alloc_ok m' (insert a used)" "a \<notin> used" "a \<noteq> 0" "fm_get m' a = Some HashBucket"
    "fm_valid m' a" "\<And>b. fm_valid m b \<Longrightarrow> fm_valid m' b \<and> fm_get m' b = fm_get m b"
    by blast+
  from \<open>fm_valid m' a\<close> show "unat a < 2 ^ 48" by (simp add: fm_valid_def pages_ok_def)
qed


text \<open>The chains after a new bucket is linked to the end of one of them.\<close>

lemma chains_ok_extend:
  assumes cs: "chains_ok hi cs" and i0: "i0 < num_buckets hi" and lst: "last (cs i0) = (q, b)"
    and n: "num_buckets hi' = num_buckets hi"
    and nb: "get_bucket hi' q = Some nb" "\<not> ovf_unused (hb_overflow nb)" "next_ptr nb = Ovf a"
      "hb_entries nb = hb_entries b"
    and new: "get_bucket hi' (Ovf a) = Some HashBucket"
      "\<And>i. i < num_buckets hi \<Longrightarrow> Ovf a \<notin> fst ` set (cs i)"
    and old: "\<And>i p c. i < num_buckets hi \<Longrightarrow> (p, c) \<in> set (cs i) \<Longrightarrow> p \<noteq> q \<Longrightarrow> get_bucket hi' p = Some c"
  defines "cs' \<equiv> cs(i0 := butlast (cs i0) @ [(q, nb), (Ovf a, HashBucket)])"
  shows "chains_ok hi' cs'"
    "fst ` set (cs' i) = fst ` set (cs i) \<union> (if i = i0 then {Ovf a} else {})"
proof -
  let ?len = "\<lambda>bs. \<forall>x \<in> set bs. length (hb_entries (snd x)) = kNumEntries"
  have ch: "chain hi (Main i) (cs i)" "?len (cs i)" if "i < num_buckets hi" for i
    using cs that by (simp_all add: chains_ok_def)
  have ne: "cs i0 \<noteq> []" using chain_nonempty [OF ch(1) [OF i0]] by auto
  then have qb: "(q, b) \<in> set (cs i0)" using lst by (metis last_in_set)
  have "chain hi' (Main i0) (butlast (cs i0) @ [(q, nb), (next_ptr nb, HashBucket)])"
  proof (rule chain_append [OF ch(1) [OF i0] lst nb(1,2)])
    show "get_bucket hi' p = Some c" if "(p, c) \<in> set (butlast (cs i0))" for p c
      using old [OF i0 in_set_butlastD [OF that]] chain_last_fresh [OF ch(1) [OF i0] that] lst by simp
    show "get_bucket hi' (next_ptr nb) = Some HashBucket" unfolding nb(3) by (rule new(1))
  qed simp
  then have c0: "chain hi' (Main i0) (cs' i0)" unfolding nb(3) by (simp add: cs'_def)
  have ci: "chain hi' (Main i) (cs' i)" if "i < num_buckets hi" "i \<noteq> i0" for i
  proof -
    have "fst ` set (cs i) \<inter> fst ` set (cs i0) = {}" using cs that i0 by (simp add: chains_ok_def)
    then have "p \<noteq> q" if "(p, c) \<in> set (cs i)" for p c using that qb by force
    then have "chain hi' (Main i) (cs i)" using old [OF that(1)]
      by (intro chain_same [OF ch(1) [OF that(1)]]) blast
    then show ?thesis using that(2) by (simp add: cs'_def)
  qed
  have "fst ` set (cs i0) = fst ` set (butlast (cs i0)) \<union> {q}"
    using arg_cong [OF append_butlast_last_id [OF ne, symmetric], of "\<lambda>l. fst ` set l"] lst by simp
  then show fsts: "fst ` set (cs' i) = fst ` set (cs i) \<union> (if i = i0 then {Ovf a} else {})" for i
    by (auto simp: cs'_def)
  show "chains_ok hi' cs'"
    unfolding chains_ok_def n
  proof (intro conjI allI impI ballI)
    show "chain hi' (Main i) (cs' i)" if "i < num_buckets hi" for i
      using c0 ci [OF that] by (cases "i = i0") simp_all
    show "length (hb_entries (snd x)) = kNumEntries" if "i < num_buckets hi" "x \<in> set (cs' i)" for i x
      using that ch(2) [OF that(1)] ch(2) [OF i0] qb nb(4)
      by (auto simp: cs'_def split: if_splits dest: in_set_butlastD)
    show "fst ` set (cs' i) \<inter> fst ` set (cs' j) = {}"
      if "i < num_buckets hi" "j < num_buckets hi" "i \<noteq> j" for i j
      using cs that new(2) unfolding fsts chains_ok_def by auto
  qed
qed

text \<open>Writing an overflow bucket that is in use keeps the allocator well-formed.\<close>

lemma alloc_ok_set:
  assumes "alloc_ok m used" "c \<in> used"
  shows "alloc_ok (fm_set c x m) used"
proof -
  have cv: "fm_valid m c" using assms by (auto simp: alloc_ok_def free_ok_def fm_valid_def)
  have "fm_get (fm_set c x m) y = Some HashBucket" if y: "y \<in> set (free_addrs m u)" for y u
  proof -
    have "y \<noteq> c" "fm_valid m y" "fm_get m y = Some HashBucket"
      using assms y by (auto simp: alloc_ok_def free_ok_def fm_valid_def)
    then show ?thesis using fm_store.get_put_other [OF cv, of y x] by simp
  qed
  then show ?thesis using assms(1) cv
    by (auto simp: alloc_ok_def free_ok_def fm_valid_def intro!: fresh_blank_set)
qed

lemma add_overflow_bucket_spec:
  assumes wf: "index_wf hi" and cs: "chains_ok hi cs" and i0: "i0 < num_buckets hi"
    and lst: "last (cs i0) = (q, b)" and lt: "unat (fm_count (hi_ofb hi)) + 1 < 2 ^ 48"
    and r: "add_overflow_bucket act del t q (hb_overflow b) (hi, e) = Some (r, hi', e')"
  obtains a where "r = Inl (Ovf a, 0)" "Ovf a \<notin> fst ` set (cs i0)"
    "chains_ok hi' (cs(i0 := butlast (cs i0) @
      [(q, b\<lparr>hb_overflow := HashBucketOverflowEntry a\<rparr>), (Ovf a, HashBucket)]))"
    "index_wf hi'" "ht_size (hi_table hi') = ht_size (hi_table hi)" "num_buckets hi' = num_buckets hi"
proof -
  have ch: "chain hi (Main i) (cs i)" if "i < num_buckets hi" for i using cs that by (simp add: chains_ok_def)
  have "cs i0 \<noteq> []" using chain_nonempty [OF ch [OF i0]] by auto
  then have qb: "(q, b) \<in> set (cs i0)" using lst by (metis last_in_set)
  from r obtain a m where al: "Malloc_Allocate HashBucket act del t (hi_ofb hi, e) = Some (a, m, e')"
    by (auto simp: add_overflow_bucket_def Let_def split: option.splits prod.splits bool.splits)
  note ac = Malloc_Allocate_contract [OF index_wf_alloc_ok [OF wf] lt al]
  let ?hi = "hi\<lparr>hi_ofb := m\<rparr>" and ?nb = "b\<lparr>hb_overflow := HashBucketOverflowEntry a\<rparr>"
  have ptr: "ptr_ok ?hi p \<and> get_bucket ?hi p = Some c" if "i < num_buckets hi" "(p, c) \<in> set (cs i)" for i p c
    using chain_ptrs_ok [OF wf that(1) ch [OF that(1)] that(2)] chain_get [OF ch [OF that(1)] that(2)] ac(7)
    by (cases p) (auto simp: ptr_ok_def)
  note q = ptr [OF i0 qb]
  have res: "r = Inl (Ovf a, 0)" "hi' = set_bucket q ?nb ?hi"
    using r al q by (auto simp: add_overflow_bucket_def Let_def ovf_compare_exchange_strong_def
        compare_exchange_def store_overflow_def)
  have n: "num_buckets hi' = num_buckets hi" "ht_size (hi_table hi') = ht_size (hi_table hi)"
    by (simp_all add: res(2))
  have used: "{a. \<exists>i < num_buckets hi. Ovf a \<in> fst ` set (cs i)} = ovf_used hi"
    by (rule ovf_used_chains [OF cs, symmetric])
  have anew: "Ovf a \<notin> fst ` set (cs i)" if "i < num_buckets hi" for i using ac(2) that used by blast
  then have qa: "q \<noteq> Ovf a" using i0 qb by force
  have get': "get_bucket hi' p = (if p = q then Some ?nb else get_bucket ?hi p)" if "ptr_ok ?hi p" for p
    unfolding res(2) using get_set_bucket [of ?hi q p] q that by simp
  have gnew: "get_bucket hi' (Ovf a) = Some HashBucket"
    using get' [of "Ovf a"] qa ac(5,6) by (simp add: ptr_ok_def)
  have old: "get_bucket hi' p = Some c" if "i < num_buckets hi" "(p, c) \<in> set (cs i)" "p \<noteq> q" for i p c
    using get' ptr [OF that(1,2)] that(3) by simp
  have nb: "get_bucket hi' q = Some ?nb" "\<not> ovf_unused (hb_overflow ?nb)" "next_ptr ?nb = Ovf a"
    "hb_entries ?nb = hb_entries b"
    using get' q ac(3,4) by (simp_all add: ovf_unused_def)
  note cs' = chains_ok_extend [OF cs i0 lst n(1) nb gnew anew old]
  let ?cs = "cs(i0 := butlast (cs i0) @ [(q, ?nb), (Ovf a, HashBucket)])"
  have fsts: "fst ` set (?cs i) = fst ` set (cs i) \<union> (if i = i0 then {Ovf a} else {})" for i
    by (rule cs'(2))
  have ofb: "alloc_ok (hi_ofb hi') (insert a (ovf_used hi))"
  proof (cases q)
    case (Ovf c)
    have "c \<in> ovf_used hi" using Ovf qb i0 used by force
    then show ?thesis using alloc_ok_set [OF ac(1)] by (simp add: res(2) Ovf)
  qed (use ac(1) in \<open>simp add: res(2)\<close>)
  have used': "{x. \<exists>i < num_buckets hi'. Ovf x \<in> fst ` set (?cs i)} = insert a (ovf_used hi)"
    unfolding n used [symmetric] fsts using i0 by auto
  have wf': "index_wf hi'"
  proof (rule index_wfI [OF cs'(1)])
    show "table_wf (hi_table hi')" using wf n by (simp add: index_wf_def table_wf_def)
    show "free_ok (hi_ofb hi') {x. \<exists>i < num_buckets hi'. Ovf x \<in> fst ` set (?cs i)}"
      unfolding used' using ofb by (simp add: alloc_ok_def)
  qed (use ofb in \<open>auto simp: alloc_ok_def\<close>)
  show thesis by (rule that [OF res(1) anew [OF i0] cs'(1) wf' n(2,1)])
qed

end
