(* ===== verification/Index_Create.thy ===== *)
theory Index_Create
  imports Hash_Index
begin

text \<open>
  What \<open>FindEntry\<close> and \<open>FindOrCreateEntry\<close> of \<open>fishstore.h\<close> promise, in terms of an abstract
  map: a hash is looked up by its bucket and its tag. Creating an entry adds it to the map,
  or returns the one that is there, and changes nothing else.
\<close>

section \<open>The index as a map\<close>

definition index_map :: "hash_index \<Rightarrow> key_hash \<Rightarrow> hb_entry option" where
  "index_map hi h = (case FindEntry hi h of Some (Some ae) \<Rightarrow> load_entry hi ae | _ \<Rightarrow> None)"

definition same_slot :: "hash_index \<Rightarrow> key_hash \<Rightarrow> key_hash \<Rightarrow> bool" where
  "same_slot hi h h' \<longleftrightarrow> hash_bucket_ptr hi h = hash_bucket_ptr hi h' \<and> kh_tag h = kh_tag h'"

definition no_tentative :: "hash_index \<Rightarrow> bool" where
  "no_tentative hi \<longleftrightarrow> (\<forall>i bs. chain hi (Main i) bs \<longrightarrow> (\<forall>x \<in> set (slots bs). \<not> hbe_tentative (snd x)))"

text \<open>The slot of the map for a hash, in a list of chains.\<close>

definition slot_of :: "(nat \<Rightarrow> (bucket_ptr \<times> hash_bucket) list) \<Rightarrow> hash_index \<Rightarrow> key_hash \<Rightarrow>
    (entry_ptr \<times> hb_entry) option" where
  "slot_of cs hi h = find_slot (final_match (kh_tag h)) (slots (cs (ht_bucket (hi_table hi) h)))"

lemma bucket_slots_memb:
  "((p, k), v) \<in> set (bucket_slots (q, b)) \<longleftrightarrow> q = p \<and> k < kNumEntries \<and> v = hb_entries b ! k"
  by (auto simp: bucket_slots_def)

lemma slots_memb: "((p, k), v) \<in> set (slots bs) \<longleftrightarrow> (\<exists>b. (p, b) \<in> set bs \<and> k < kNumEntries \<and> v = hb_entries b ! k)"
proof (induction bs)
  case (Cons x bs)
  then show ?case by (cases x) (auto simp: slots_Cons bucket_slots_memb)
qed (simp add: slots_def)

lemma load_slot: "chain hi q bs \<Longrightarrow> (x, v) \<in> set (slots bs) \<Longrightarrow> load_entry hi x = Some v"
  by (cases x) (auto simp: slots_memb load_entry_def dest: chain_get)

lemma ht_bucket_num: "index_wf hi \<Longrightarrow> ht_bucket (hi_table hi) h < num_buckets hi"
  by (rule hash_bucket_ptr_less [of hi h]) (simp_all add: hash_bucket_ptr_def)

lemma chains_okD:
  assumes "chains_ok hi cs" "i < num_buckets hi"
  shows "chain hi (Main i) (cs i)" "\<And>x. x \<in> set (cs i) \<Longrightarrow> length (hb_entries (snd x)) = kNumEntries"
  using assms by (simp_all add: chains_ok_def)

lemma lookup_slot_of:
  assumes wf: "index_wf hi" and cs: "chains_ok hi cs"
  shows "FindEntry hi h = Some (map_option fst (slot_of cs hi h))"
    and "index_map hi h = map_option snd (slot_of cs hi h)"
proof -
  note ch = chains_okD(1) [OF cs ht_bucket_num [OF wf, of h]]
  show *: "FindEntry hi h = Some (map_option fst (slot_of cs hi h))"
    using FindEntry_chain [of hi h] ch by (simp add: hash_bucket_ptr_def slot_of_def)
  show "index_map hi h = map_option snd (slot_of cs hi h)"
  proof (cases "slot_of cs hi h")
    case (Some x)
    then have "x \<in> set (slots (cs (ht_bucket (hi_table hi) h)))"
      by (auto simp: slot_of_def dest: find_slot_Some)
    then have "load_entry hi (fst x) = Some (snd x)" using load_slot [OF ch, of "fst x" "snd x"] by simp
    then show ?thesis using * Some by (simp add: index_map_def)
  qed (use * in \<open>simp add: index_map_def\<close>)
qed

lemma FindEntry_returns: "index_wf hi \<Longrightarrow> \<exists>r. FindEntry hi h = Some r"
  using lookup_slot_of(1) by (metis index_wf_chains)

lemma index_map_entry:
  assumes "index_wf hi" "index_map hi h = Some e"
  shows "final_match (kh_tag h) e"
proof -
  obtain cs where cs: "chains_ok hi cs" using index_wf_chains [OF assms(1)] .
  obtain x where "slot_of cs hi h = Some x" "e = snd x"
    using lookup_slot_of(2) [OF assms(1) cs, of h] assms(2) by (cases "slot_of cs hi h") simp_all
  then show ?thesis by (auto simp: slot_of_def dest: find_slot_Some)
qed

lemma no_tentative_chains:
  assumes "chains_ok hi cs"
  shows "no_tentative hi \<longleftrightarrow> (\<forall>i < num_buckets hi. \<forall>x \<in> set (slots (cs i)). \<not> hbe_tentative (snd x))"
proof -
  have "chain hi (Main i) bs \<longleftrightarrow> i < num_buckets hi \<and> bs = cs i" for i bs
    using chains_okD(1) [OF assms] chain_Main_less chain_det by metis
  then show ?thesis by (simp add: no_tentative_def)
qed


section \<open>Filling a slot\<close>

lemma set_bucket_twice: "ptr_ok hi p \<Longrightarrow> set_bucket p b (set_bucket p b' hi) = set_bucket p b hi"
  by (cases p) (auto simp: ptr_ok_def fm_store.put_put)

text \<open>What the slots of all chains look like when one of them gets a new value.\<close>

lemma slots_store:
  assumes "chains_ok hi cs" "i < num_buckets hi" "k < kNumEntries"
  shows "slots (upd_slot p k e (cs i)) = map (\<lambda>(x, v). (x, if x = (p, k) then e else v)) (slots (cs i))"
  using slots_upd_slot chains_okD(2) [OF assms(1,2)] assms(3) by blast

lemma upd_slot_twice:
  assumes "k < kNumEntries"
  shows "upd_slot p k e (upd_slot p k e' bs) = upd_slot p k e bs"
  by (auto simp: upd_slot_def)

lemma find_slot_unique:
  assumes "x \<in> set xs" "P (snd x)" "\<And>y. y \<in> set xs \<Longrightarrow> P (snd y) \<Longrightarrow> y = x"
  shows "find_slot P xs = Some x"
proof -
  have "find_slot P xs \<noteq> None" using assms(1,2) by (auto simp: find_slot_None)
  then obtain y where y: "find_slot P xs = Some y" by blast
  then have "y = x" using find_slot_Some [OF y] assms(3) [of y] by simp
  with y show ?thesis by simp
qed

text \<open>
  A free slot \<open>(p, k)\<close> of the chain of \<open>h\<close> gets an entry with the tag of \<open>h\<close>, which no final
  entry of the chain has: \<open>h\<close> is found there, all other hashes where they were.
\<close>

lemma fill_slot:
  assumes wf: "index_wf hi" and cs: "chains_ok hi cs"
    and slot: "((p, k), 0) \<in> set (slots (cs (ht_bucket (hi_table hi) h)))"
    and none: "slot_of cs hi h = None"
    and e: "final_match (kh_tag h) e"
  defines "hi' \<equiv> store_entry (p, k) e hi" and "cs' \<equiv> \<lambda>i. upd_slot p k e (cs i)"
  shows "slot_of cs' hi' h = Some ((p, k), e)"
    and "\<not> same_slot hi h h' \<Longrightarrow> slot_of cs' hi' h' = slot_of cs hi h'"
proof -
  let ?i = "ht_bucket (hi_table hi) h"
  note i = ht_bucket_num [OF wf, of h] and i' = ht_bucket_num [OF wf, of h']
  from slot have k: "k < kNumEntries" and p: "p \<in> fst ` set (cs ?i)" by (force simp: slots_memb)+
  note st = store_entry_wf [OF wf cs i p, of k e]
  have b: "ht_bucket (hi_table hi') g = ht_bucket (hi_table hi) g" for g
    using st(3) by (simp add: hi'_def ht_bucket_def)
  have sl: "slots (cs' (ht_bucket (hi_table hi) g)) =
      map (\<lambda>(x, v). (x, if x = (p, k) then e else v)) (slots (cs (ht_bucket (hi_table hi) g)))" for g
    unfolding cs'_def by (rule slots_store [OF cs ht_bucket_num [OF wf] k])
  have nm: "\<not> final_match (kh_tag h) v" if "(x, v) \<in> set (slots (cs ?i))" for x v
    using none that by (auto simp: slot_of_def find_slot_None)
  have x: "((p, k), e) \<in> set (slots (cs' ?i))" unfolding sl using slot by force
  have u: "y = ((p, k), e)" if "y \<in> set (slots (cs' ?i))" "final_match (kh_tag h) (snd y)" for y
    using that nm unfolding sl by (auto split: if_splits)
  show "slot_of cs' hi' h = Some ((p, k), e)"
    unfolding slot_of_def b by (rule find_slot_unique [OF x]) (use e in simp, rule u)
  assume ns: "\<not> same_slot hi h h'"
  have keep: "final_match (kh_tag h') (if x = (p, k) then e else v) = final_match (kh_tag h') v \<and>
      (final_match (kh_tag h') v \<longrightarrow> x \<noteq> (p, k))"
    if xv: "(x, v) \<in> set (slots (cs (ht_bucket (hi_table hi) h')))" for x v
  proof (cases "x = (p, k)")
    case True
    have "ht_bucket (hi_table hi) h' = ?i"
    proof (rule ccontr)
      assume "ht_bucket (hi_table hi) h' \<noteq> ?i"
      then have "fst ` set (cs (ht_bucket (hi_table hi) h')) \<inter> fst ` set (cs ?i) = {}"
        using cs i i' by (simp add: chains_ok_def)
      moreover have "p \<in> fst ` set (cs (ht_bucket (hi_table hi) h'))"
        using xv True by (force simp: slots_memb)
      ultimately show False using p by blast
    qed
    then have "kh_tag h' \<noteq> kh_tag h" "((p, k), v) \<in> set (slots (cs ?i))"
      using ns xv True by (auto simp: same_slot_def hash_bucket_ptr_def)
    moreover from this(2) have "v = 0"
      using load_slot [OF chains_okD(1) [OF cs i]] slot by (metis option.inject)
    ultimately have "kh_tag h' \<noteq> kh_tag h" "v = 0" by blast+
    then show ?thesis using e True by (auto simp: final_match_def hbe_unused_def)
  qed simp
  have "slot_of cs' hi' h' = map_option (\<lambda>(x, v). (x, if x = (p, k) then e else v)) (slot_of cs hi h')"
    unfolding slot_of_def b sl
  proof (rule find_slot_map)
    fix y assume y: "y \<in> set (slots (cs (ht_bucket (hi_table hi) h')))"
    obtain x v where "y = (x, v)" by (cases y)
    then show "final_match (kh_tag h') (snd (case y of (x, v) \<Rightarrow> (x, if x = (p, k) then e else v))) =
        final_match (kh_tag h') (snd y)" using keep [of x v] y by simp
  qed
  also have "\<dots> = slot_of cs hi h'"
  proof (cases "slot_of cs hi h'")
    case (Some y)
    obtain x v where y: "y = (x, v)" by (cases y)
    have "x \<noteq> (p, k)"
      using keep [of x v] find_slot_Some [OF Some [unfolded slot_of_def]] by (simp add: y)
    then show ?thesis using Some y by simp
  qed simp
  finally show "slot_of cs' hi' h' = slot_of cs hi h'" .
qed


section \<open>Creating an entry\<close>

lemma hash_bucket_ptr_cong:
  "ht_size (hi_table hi') = ht_size (hi_table hi) \<Longrightarrow> hash_bucket_ptr hi' h = hash_bucket_ptr hi h"
  by (simp add: hash_bucket_ptr_def ht_bucket_def)

lemma no_tentative_store:
  assumes wf: "index_wf hi" and cs: "chains_ok hi cs" and p: "i0 < num_buckets hi" "p \<in> fst ` set (cs i0)"
    and k: "k < kNumEntries" and nt: "no_tentative hi" "\<not> hbe_tentative e"
  shows "no_tentative (store_entry (p, k) e hi)"
proof -
  note st = store_entry_wf [OF wf cs p, of k e]
  have "\<forall>x \<in> set (slots (upd_slot p k e (cs i))). \<not> hbe_tentative (snd x)" if "i < num_buckets hi" for i
    using nt that unfolding slots_store [OF cs that k] no_tentative_chains [OF cs]
    by (fastforce split: if_splits)
  then show ?thesis unfolding no_tentative_chains [OF st(1)] st(4) by blast
qed

text \<open>
  The second half of an iteration of \<open>FindOrCreateEntry\<close>, from a free slot on: the tentative
  entry is installed, has no conflict, and is made final.
\<close>

lemma create_in_slot:
  assumes wf: "index_wf hi" and cs: "chains_ok hi cs" and nt: "no_tentative hi"
    and slot: "((p, k), 0) \<in> set (slots (cs (ht_bucket (hi_table hi) h)))"
    and none: "slot_of cs hi h = None"
  defines "tent \<equiv> HashBucketEntry kInvalidAddress (kh_tag h) True"
    and "final \<equiv> HashBucketEntry kInvalidAddress (kh_tag h) False"
  shows "load_entry hi (p, k) = Some 0"
    and "HasConflictingEntry (store_entry (p, k) tent hi) (hash_bucket_ptr hi h) (p, k) = Some False"
    and "store_entry (p, k) final (store_entry (p, k) tent hi) = store_entry (p, k) final hi"
proof -
  let ?i = "ht_bucket (hi_table hi) h" and ?hi = "store_entry (p, k) tent hi"
  note i = ht_bucket_num [OF wf, of h]
  from slot obtain b where k: "k < kNumEntries" and b: "(p, b) \<in> set (cs ?i)" by (auto simp: slots_memb)
  then have p: "p \<in> fst ` set (cs ?i)" by force
  note ch = chains_okD(1) [OF cs i]
  show ld: "load_entry hi (p, k) = Some 0" using load_slot [OF ch slot] .
  note st = store_entry_wf [OF wf cs i p, of k tent]
  note ch' = chains_okD(1) [OF st(1), of ?i, unfolded st(4), OF i]
  have sl: "slots (upd_slot p k tent (cs ?i)) =
      map (\<lambda>(x, v). (x, if x = (p, k) then tent else v)) (slots (cs ?i))"
    by (rule slots_store [OF cs i k])
  have "((p, k), tent) \<in> set (slots (upd_slot p k tent (cs ?i)))" unfolding sl using slot by force
  then have ld': "load_entry ?hi (p, k) = Some tent" using load_slot [OF ch'] by blast
  have "\<not> (snd x \<noteq> 0 \<and> hbe_tag (snd x) = kh_tag h \<and> fst x \<noteq> (p, k))"
    if "x \<in> set (slots (upd_slot p k tent (cs ?i)))" for x
  proof (cases "fst x = (p, k)")
    case False
    then have x: "x \<in> set (slots (cs ?i))" using that unfolding sl by auto
    then have "\<not> hbe_tentative (snd x)" using nt i by (simp add: no_tentative_chains [OF cs])
    moreover have "\<not> final_match (kh_tag h) (snd x)" using none x by (simp add: slot_of_def find_slot_None)
    ultimately show ?thesis by (auto simp: final_match_def hbe_unused_def)
  qed simp
  then show "HasConflictingEntry ?hi (hash_bucket_ptr hi h) (p, k) = Some False"
    using ld' conflict_chain [OF ch', of "kh_tag h" "(p, k)"]
    by (simp add: HasConflictingEntry_def hash_bucket_ptr_def tent_def)
  have g: "get_bucket hi p = Some b" using chain_get [OF ch b] .
  have pok: "ptr_ok hi p" using chain_ptrs_ok [OF wf i ch b] .
  show "store_entry (p, k) final ?hi = store_entry (p, k) final hi"
    using g get_set_bucket [OF pok pok] by (simp add: store_entry_def set_bucket_twice [OF pok])
qed


text \<open>What the caller of \<open>FindOrCreateEntry\<close> relies on, for the outcome of a call.\<close>

definition create_post :: "hash_index \<Rightarrow> key_hash \<Rightarrow> entry_ptr \<Rightarrow> hb_entry \<Rightarrow> hash_index \<Rightarrow> bool" where
  "create_post hi h ae en hi' \<longleftrightarrow>
     index_wf hi' \<and> no_tentative hi' \<and> FindEntry hi' h = Some (Some ae) \<and> load_entry hi' ae = Some en \<and>
     en = (case index_map hi h of Some e \<Rightarrow> e | None \<Rightarrow> HashBucketEntry kInvalidAddress (kh_tag h) False) \<and>
     (\<forall>h'. same_slot hi h h' \<or> FindEntry hi' h' = FindEntry hi h' \<and> index_map hi' h' = index_map hi h')"

lemma create_post_fill:
  assumes wf: "index_wf hi" and cs: "chains_ok hi cs" and nt: "no_tentative hi"
    and slot: "((p, k), 0) \<in> set (slots (cs (ht_bucket (hi_table hi) h)))"
    and none: "slot_of cs hi h = None"
  defines "final \<equiv> HashBucketEntry kInvalidAddress (kh_tag h) False"
  shows "create_post hi h (p, k) final (store_entry (p, k) final hi)"
proof -
  let ?hi = "store_entry (p, k) final hi"
  note i = ht_bucket_num [OF wf, of h]
  from slot have k: "k < kNumEntries" and p: "p \<in> fst ` set (cs (ht_bucket (hi_table hi) h))"
    by (force simp: slots_memb)+
  note st = store_entry_wf [OF wf cs i p, of k final]
  have fm: "final_match (kh_tag h) final" by (simp add: final_def final_match_def hbe_unused_def)
  note fill = fill_slot [OF wf cs slot none fm]
  note look = lookup_slot_of [OF st(2,1)] and look0 = lookup_slot_of [OF wf cs]
  have "no_tentative ?hi" by (rule no_tentative_store [OF wf cs i p k nt]) (simp add: final_def)
  moreover have f: "FindEntry ?hi h = Some (Some (p, k))" "index_map ?hi h = Some final"
    unfolding look fill(1) by simp_all
  moreover from f have "load_entry ?hi (p, k) = Some final" by (simp add: index_map_def)
  moreover have "index_map hi h = None" unfolding look0 none by simp
  moreover have "same_slot hi h h' \<or> FindEntry ?hi h' = FindEntry hi h' \<and> index_map ?hi h' = index_map hi h'" for h'
    unfolding look look0 using fill(2) [of h'] by auto
  ultimately show ?thesis using st(2) by (simp add: create_post_def final_def)
qed

lemma create_post_trans:
  assumes "\<And>h'. FindEntry hi1 h' = FindEntry hi h'" "\<And>h'. index_map hi1 h' = index_map hi h'"
    "ht_size (hi_table hi1) = ht_size (hi_table hi)" "create_post hi1 h ae en hi'"
  shows "create_post hi h ae en hi'"
  using assms by (simp add: create_post_def same_slot_def hash_bucket_ptr_def ht_bucket_def)

text \<open>Linking an empty overflow bucket to a chain changes no lookup.\<close>

lemma slots_HashBucket: "x \<in> set (slots [(q, HashBucket)]) \<Longrightarrow> snd x = 0"
  by (auto simp: slots_def bucket_slots_def HashBucket_def)

lemma slots_HashBucket_final: "x \<in> set (slots [(q, HashBucket)]) \<Longrightarrow> \<not> hbe_tentative (snd x)"
  by (simp add: slots_HashBucket hbe_tentative_def)

lemma slots_overflow [simp]: "slots [(q, b\<lparr>hb_overflow := x\<rparr>)] = slots [(q, b)]"
  by (simp add: slots_def bucket_slots_def)

lemma slots_append: "slots (xs @ ys) = slots xs @ slots ys"
  by (simp add: slots_def)

lemma slots_extend:
  assumes "bs \<noteq> []" "last bs = (q, b)"
  shows "slots (butlast bs @ [(q, b\<lparr>hb_overflow := x\<rparr>), (Ovf a, HashBucket)]) =
    slots bs @ slots [(Ovf a, HashBucket)]"
proof -
  have "slots bs = slots (butlast bs) @ slots [(q, b)]"
    using append_butlast_last_id [OF assms(1)] assms(2) by (metis slots_append)
  moreover have "[(q, b\<lparr>hb_overflow := x\<rparr>), (Ovf a, HashBucket)] =
      [(q, b\<lparr>hb_overflow := x\<rparr>)] @ [(Ovf a, HashBucket)]" by simp
  ultimately show ?thesis by (simp only: slots_append slots_overflow append_assoc)
qed

lemma slot_of_extend:
  fixes x :: ovf_entry and a :: fpa
  assumes ne: "cs i0 \<noteq> []" "last (cs i0) = (q, b)" and sz: "ht_size (hi_table hi') = ht_size (hi_table hi)"
  defines "cs' \<equiv> cs(i0 := butlast (cs i0) @ [(q, b\<lparr>hb_overflow := x\<rparr>), (Ovf a, HashBucket)])"
  shows "slot_of cs' hi' h = slot_of cs hi h"
proof -
  have "find_slot (final_match tag) (slots [(Ovf a, HashBucket)]) = None" for tag
    using slots_HashBucket [of _ "Ovf a"] by (auto simp: find_slot_None final_match_def hbe_unused_def)
  then have "find_slot (final_match tag) (slots (cs' i)) = find_slot (final_match tag) (slots (cs i))" for tag i
    using slots_extend [OF ne, of x a] by (simp add: cs'_def find_slot_append)
  then show ?thesis using sz by (simp add: slot_of_def ht_bucket_def)
qed


lemma FindTentativeEntry_chain:
  assumes wf: "index_wf hi" and cs: "chains_ok hi cs"
  shows "FindTentativeEntry act del t h (hash_bucket_ptr hi h) (hi, e) =
    (case pick_slot (kh_tag h) None (slots (cs (ht_bucket (hi_table hi) h))) of
       Some (x, en) \<Rightarrow> Some (x, en, hi, e)
     | None \<Rightarrow>
         (case add_overflow_bucket act del t (fst (last (cs (ht_bucket (hi_table hi) h))))
            (hb_overflow (snd (last (cs (ht_bucket (hi_table hi) h))))) (hi, e) of
            None \<Rightarrow> None
          | Some (Inl x, st) \<Rightarrow> Some (x, 0, st)
          | Some (Inr q, st) \<Rightarrow> find_tentative_loop act del t (kh_tag h) q None st))"
proof -
  have "chain (fst (hi, e)) (hash_bucket_ptr hi h) (cs (ht_bucket (hi_table hi) h))"
    using chains_okD(1) [OF cs ht_bucket_num [OF wf]] by (simp add: hash_bucket_ptr_def)
  from find_tentative_chain [OF this] show ?thesis by (simp add: FindTentativeEntry_def)
qed

lemma FindOrCreateEntry_found:
  assumes wf: "index_wf hi" and cs: "chains_ok hi cs" and s: "slot_of cs hi h = Some (ae, en)"
  shows "FindOrCreateEntry act del t h (hi, e) = Some (ae, en, hi, e)"
proof -
  have "en \<noteq> 0" using find_slot_Some [OF s [unfolded slot_of_def]] by (simp add: final_match_def hbe_unused_def)
  moreover have "FindTentativeEntry act del t h (hash_bucket_ptr hi h) (hi, e) = Some (ae, en, hi, e)"
    using s by (simp add: FindTentativeEntry_chain [OF wf cs] pick_slot_def slot_of_def)
  ultimately show ?thesis by (subst FindOrCreateEntry.simps) (simp add: try_create_entry_def)
qed

lemma FindOrCreateEntry_new:
  assumes ft: "FindTentativeEntry act del t h (hash_bucket_ptr hi h) (hi, e) = Some ((p, k), 0, hi1, e1)"
    and wf: "index_wf hi1" and cs: "chains_ok hi1 cs" and nt: "no_tentative hi1"
    and slot: "((p, k), 0) \<in> set (slots (cs (ht_bucket (hi_table hi1) h)))"
    and none: "slot_of cs hi1 h = None" and sz: "ht_size (hi_table hi1) = ht_size (hi_table hi)"
  defines "final \<equiv> HashBucketEntry kInvalidAddress (kh_tag h) False"
  shows "FindOrCreateEntry act del t h (hi, e) = Some ((p, k), final, store_entry (p, k) final hi1, e1)"
proof -
  note cr = create_in_slot [OF wf cs nt slot none]
  have "hash_bucket_ptr hi h = hash_bucket_ptr hi1 h" using hash_bucket_ptr_cong [OF sz] by simp
  then have "try_create_entry act del t h (hi, e) =
      Some (Some ((p, k), final), store_entry (p, k) final hi1, e1)"
    using ft cr by (simp add: try_create_entry_def hbe_compare_exchange_strong_def compare_exchange_def final_def Let_def)
  then show ?thesis by (subst FindOrCreateEntry.simps) simp
qed

lemma FindOrCreateEntry_free:
  assumes wf: "index_wf hi" and cs: "chains_ok hi cs" and nt: "no_tentative hi"
    and none: "slot_of cs hi h = None"
    and f: "find_slot hbe_unused (slots (cs (ht_bucket (hi_table hi) h))) = Some (ae, v)"
  shows "\<exists>en hi'. FindOrCreateEntry act del t h (hi, e) = Some (ae, en, hi', e) \<and> create_post hi h ae en hi'"
proof -
  obtain p k where ae: "ae = (p, k)" by (cases ae)
  have slot: "((p, k), 0) \<in> set (slots (cs (ht_bucket (hi_table hi) h)))"
    using find_slot_Some [OF f] ae by (auto simp: hbe_unused_def)
  have "FindTentativeEntry act del t h (hash_bucket_ptr hi h) (hi, e) = Some ((p, k), 0, hi, e)"
    using none f by (simp add: FindTentativeEntry_chain [OF wf cs] pick_slot_def slot_of_def ae)
  from FindOrCreateEntry_new [OF this wf cs nt slot none] create_post_fill [OF wf cs nt slot none]
  show ?thesis by (simp add: ae)
qed

lemma FindOrCreateEntry_overflow:
  assumes wf: "index_wf hi" and cs: "chains_ok hi cs" and nt: "no_tentative hi"
    and none: "slot_of cs hi h = None"
    and f: "find_slot hbe_unused (slots (cs (ht_bucket (hi_table hi) h))) = None"
    and lt: "unat (fm_count (hi_ofb hi)) + 1 < 2 ^ 48"
    and al: "Malloc_Allocate HashBucket act del t (hi_ofb hi, e) = Some (a0, m0, e1)"
  shows "\<exists>ae en hi'. FindOrCreateEntry act del t h (hi, e) = Some (ae, en, hi', e1) \<and> create_post hi h ae en hi'"
proof -
  let ?i = "ht_bucket (hi_table hi) h"
  note i = ht_bucket_num [OF wf, of h]
  note ch = chains_okD(1) [OF cs i]
  obtain q b where lst: "last (cs ?i) = (q, b)" by (cases "last (cs ?i)")
  have ne: "cs ?i \<noteq> []" using chain_nonempty [OF ch] by auto
  then have qb: "(q, b) \<in> set (cs ?i)" using lst by (metis last_in_set)
  note ac = Malloc_Allocate_contract [OF index_wf_alloc_ok [OF wf] lt al]
  have "get_bucket (hi\<lparr>hi_ofb := m0\<rparr>) q = Some b"
    using chain_ptrs_ok [OF wf i ch qb] chain_get [OF ch qb] ac(7) by (cases q) (auto simp: ptr_ok_def)
  then obtain r hi1 where ov: "add_overflow_bucket act del t q (hb_overflow b) (hi, e) = Some (r, hi1, e1)"
    using al by (auto simp: add_overflow_bucket_def Let_def ovf_compare_exchange_strong_def compare_exchange_def)
  from add_overflow_bucket_spec [OF wf cs i lst lt ov] obtain a where a: "r = Inl (Ovf a, 0)"
    and cs1: "chains_ok hi1 (cs(?i := butlast (cs ?i) @
      [(q, b\<lparr>hb_overflow := HashBucketOverflowEntry a\<rparr>), (Ovf a, HashBucket)]))"
    and wf1: "index_wf hi1" and sz: "ht_size (hi_table hi1) = ht_size (hi_table hi)"
    and n: "num_buckets hi1 = num_buckets hi" .
  let ?cs = "cs(?i := butlast (cs ?i) @
      [(q, b\<lparr>hb_overflow := HashBucketOverflowEntry a\<rparr>), (Ovf a, HashBucket)])"
  have so: "slot_of ?cs hi1 g = slot_of cs hi g" for g by (rule slot_of_extend) (fact ne lst sz)+
  have b1: "ht_bucket (hi_table hi1) h = ?i" using sz by (simp add: ht_bucket_def)
  have sl: "slots (?cs ?i) = slots (cs ?i) @ slots [(Ovf a, HashBucket)]" using slots_extend [OF ne lst] by simp
  have slot: "((Ovf a, 0), 0) \<in> set (slots (?cs (ht_bucket (hi_table hi1) h)))"
    unfolding b1 sl by (simp add: slots_memb HashBucket_def kNumEntries_def)
  have nt1: "no_tentative hi1"
    unfolding no_tentative_chains [OF cs1] n
  proof (intro allI impI ballI)
    fix j x assume j: "j < num_buckets hi" and x: "x \<in> set (slots (?cs j))"
    then have "x \<in> set (slots (cs j)) \<or> x \<in> set (slots [(Ovf a, HashBucket)])"
      using sl by (cases "j = ?i") auto
    then show "\<not> hbe_tentative (snd x)"
      using nt j slots_HashBucket_final unfolding no_tentative_chains [OF cs] by blast
  qed
  have ft: "FindTentativeEntry act del t h (hash_bucket_ptr hi h) (hi, e) = Some ((Ovf a, 0), 0, hi1, e1)"
    using none f ov by (simp add: FindTentativeEntry_chain [OF wf cs] pick_slot_def slot_of_def lst a)
  have none1: "slot_of ?cs hi1 h = None" using none so by simp
  have "create_post hi h (Ovf a, 0) (HashBucketEntry kInvalidAddress (kh_tag h) False)
      (store_entry (Ovf a, 0) (HashBucketEntry kInvalidAddress (kh_tag h) False) hi1)"
    by (rule create_post_trans [OF _ _ sz create_post_fill [OF wf1 cs1 nt1 slot none1]])
      (simp_all add: lookup_slot_of [OF wf1 cs1] lookup_slot_of [OF wf cs] so)
  with FindOrCreateEntry_new [OF ft wf1 cs1 nt1 slot none1 sz] show ?thesis by blast
qed



section \<open>The contract of \<open>FindOrCreateEntry\<close>\<close>

text \<open>
  C11: on a well-formed index without tentative entries, \<open>FindOrCreateEntry\<close> returns (an allocation
  being possible). The slot it returns is the one \<open>FindEntry\<close> then finds for the hash and
  holds the entry it returns: the existing entry of the hash if there was one, otherwise a
  new final entry with its tag and the invalid address. The index stays well-formed without
  tentative entries, and no other pair of bucket and tag is affected.
\<close>

theorem FindOrCreateEntry_correct:
  assumes wf: "index_wf hi" and nt: "no_tentative hi" and lt: "unat (fm_count (hi_ofb hi)) + 1 < 2 ^ 48"
    and al: "Malloc_Allocate HashBucket act del t (hi_ofb hi, e) \<noteq> None"
  shows "\<exists>ae en hi' e'. FindOrCreateEntry act del t h (hi, e) = Some (ae, en, hi', e') \<and>
    index_wf hi' \<and> no_tentative hi' \<and> FindEntry hi' h = Some (Some ae) \<and> load_entry hi' ae = Some en \<and>
    en = (case index_map hi h of Some e \<Rightarrow> e | None \<Rightarrow> HashBucketEntry kInvalidAddress (kh_tag h) False) \<and>
    (\<forall>h'. same_slot hi h h' \<or> FindEntry hi' h' = FindEntry hi h' \<and> index_map hi' h' = index_map hi h')"
  unfolding create_post_def [symmetric]
proof -
  obtain cs where cs: "chains_ok hi cs" using index_wf_chains [OF wf] .
  show "\<exists>ae en hi' e'. FindOrCreateEntry act del t h (hi, e) = Some (ae, en, hi', e') \<and>
    create_post hi h ae en hi'"
  proof (cases "slot_of cs hi h")
    case (Some x)
    obtain ae en where x: "x = (ae, en)" by (cases x)
    note look = lookup_slot_of [OF wf cs, of h, unfolded Some x]
    then have "load_entry hi ae = Some en" by (simp add: index_map_def)
    then have "create_post hi h ae en hi" using wf nt look by (simp add: create_post_def)
    then show ?thesis using FindOrCreateEntry_found [OF wf cs] Some x by blast
  next
    case None
    show ?thesis
    proof (cases "find_slot hbe_unused (slots (cs (ht_bucket (hi_table hi) h)))")
      case (Some x)
      obtain ae v where "x = (ae, v)" by (cases x)
      then show ?thesis using FindOrCreateEntry_free [OF wf cs nt None] Some by blast
    next
      case full: None
      obtain a m e1 where "Malloc_Allocate HashBucket act del t (hi_ofb hi, e) = Some (a, m, e1)"
        using al by auto
      then show ?thesis using FindOrCreateEntry_overflow [OF wf cs nt None full lt] by blast
    qed
  qed
qed

text \<open>A fresh index: an empty table and an allocator that holds the null address only.\<close>

definition fresh_index :: "u64 \<Rightarrow> hash_bucket fixed_malloc \<Rightarrow> hash_index" where
  "fresh_index sz m = \<lparr>hi_table = HashTable_Initialize sz InternalHashTable, hi_ofb = m\<rparr>"

lemma fresh_index_chains: "chains_ok (fresh_index sz m) (\<lambda>i. [(Main i, HashBucket)])"
  by (auto simp: chains_ok_def fresh_index_def HashTable_Initialize_def intro!: chain.chain_end)

lemma fresh_index_wf:
  assumes "IsPowerOfTwo sz" "Malloc_Initialize HashBucket act del t (\<lambda>_. []) e = Some (m, e')"
  shows "index_wf (fresh_index sz m)" "no_tentative (fresh_index sz m)"
proof -
  let ?s = "\<lparr>ms_malloc = m, ms_epoch = e', ms_live = {}\<rparr>"
  have "malloc_initial HashBucket act del ?s" using assms(2) by (auto simp: malloc_initial_def)
  then have inv: "malloc_invar HashBucket ?s" by (rule malloc_initial_invar)
  have fr: "fm_free m = (\<lambda>_. [])" using assms(2) by (rule Malloc_Initialize_free)
  show "index_wf (fresh_index sz m)"
  proof (rule index_wfI [OF fresh_index_chains])
    show "table_wf (hi_table (fresh_index sz m))"
      using assms(1) by (simp add: fresh_index_def table_wf_def HashTable_Initialize_def)
  qed (use inv fr in \<open>auto simp: malloc_invar_def fresh_index_def free_addrs_def\<close>)
  show "no_tentative (fresh_index sz m)"
    unfolding no_tentative_chains [OF fresh_index_chains]
    using slots_HashBucket_final by blast
qed


definition index_start :: "(nat, nat list) index_state" where
  "index_start = (case Malloc_Initialize HashBucket log_action (\<lambda>n. n) 1 (\<lambda>_. []) epoch_start of
     None \<Rightarrow> (fresh_index 2 (Malloc_reset HashBucket (\<lambda>_. [])), epoch_start)
   | Some (m, e) \<Rightarrow> (fresh_index 2 m, e))"

lemma index_start_wf: "index_wf (fst index_start)" "no_tentative (fst index_start)"
proof -
  have "Malloc_Initialize HashBucket log_action (\<lambda>n. n) 1 (\<lambda>_. []) epoch_start \<noteq> None" by code_simp
  then obtain m e where r: "Malloc_Initialize HashBucket log_action (\<lambda>n. n) 1 (\<lambda>_. []) epoch_start = Some (m, e)"
    by auto
  have "IsPowerOfTwo 2" by code_simp
  from fresh_index_wf [OF this r] r show "index_wf (fst index_start)" "no_tentative (fst index_start)"
    by (simp_all add: index_start_def)
qed

theorem FindOrCreateEntry_correct_witness:
  "case FindOrCreateEntry log_action (\<lambda>n. n) 1 5 index_start of
     None \<Rightarrow> False
   | Some (ae, en, hi', e') \<Rightarrow> index_wf hi' \<and> FindEntry hi' 5 = Some (Some ae) \<and>
       load_entry hi' ae = Some en \<and> en = HashBucketEntry kInvalidAddress (kh_tag 5) False"
proof -
  obtain hi e where st: "index_start = (hi, e)" by (cases index_start)
  have "fm_count (hi_ofb (fst index_start)) = 1" by code_simp
  then have lt: "unat (fm_count (hi_ofb hi)) + 1 < 2 ^ 48" unfolding st fst_conv by simp
  have "Malloc_Allocate HashBucket log_action (\<lambda>n. n) 1 (hi_ofb (fst index_start), snd index_start) \<noteq> None"
    by code_simp
  then have al: "Malloc_Allocate HashBucket log_action (\<lambda>n. n) 1 (hi_ofb hi, e) \<noteq> None" unfolding st by simp
  have "index_map (fst index_start) 5 = None" by code_simp
  then have im: "index_map hi 5 = None" unfolding st by simp
  from FindOrCreateEntry_correct [OF index_start_wf [unfolded st fst_conv] lt al, of 5] im
  show ?thesis unfolding st by auto
qed

end
