(* ===== verification/Entry_Protocol.thy ===== *)
theory Entry_Protocol
  imports Hash_Buckets
begin

text \<open>
  The insertion protocol of \<open>FindOrCreateEntry\<close> in \<open>fishstore.h\<close> at the level of single atomic
  accesses. Many threads work on one chain of buckets, seen as the list of its slots; linking
  an overflow bucket appends a bucket of free slots. A thread looks for its tag, installs a
  tentative entry in a free slot, looks through the whole chain for another entry with the
  tag, and makes its entry final or takes it back. Meanwhile final entries get new addresses
  and are cleaned.
\<close>

section \<open>States and steps\<close>

datatype entry_pc =
    EIdle
  | Finding u16 nat "nat option"
  | Installing u16 nat
  | Checking u16 nat nat
  | BackingOff u16 nat
  | Done u16 nat

record entry_state =
  es_slots :: "hb_entry list"
  es_pcs :: "entry_pc list"

abbreviation set_pc :: "nat \<Rightarrow> entry_pc \<Rightarrow> entry_state \<Rightarrow> entry_state" where
  "set_pc t p s \<equiv> s\<lparr>es_pcs := (es_pcs s)[t := p]\<rparr>"

abbreviation set_slot :: "nat \<Rightarrow> hb_entry \<Rightarrow> entry_state \<Rightarrow> entry_state" where
  "set_slot i e s \<equiv> s\<lparr>es_slots := (es_slots s)[i := e]\<rparr>"

definition tentative_entry :: "u16 \<Rightarrow> hb_entry" where
  "tentative_entry tag = HashBucketEntry kInvalidAddress tag True"

definition final_entry :: "u16 \<Rightarrow> hb_entry" where
  "final_entry tag = HashBucketEntry kInvalidAddress tag False"

text \<open>
  The steps of \<open>FindTentativeEntry\<close>: one slot of the chain is read; at the end of the chain the
  free slot found on the way is used, or a new bucket is linked, whose first slot is used.
\<close>

definition find_step :: "u16 \<Rightarrow> nat \<Rightarrow> nat option \<Rightarrow> hb_entry list \<Rightarrow> entry_pc \<times> hb_entry list" where
  "find_step tag j free sl =
     (if j < length sl
      then (let entry = sl ! j in
            if hbe_unused entry
            then (Finding tag (j + 1) (if free = None then Some j else free), sl)
            else if tag = hbe_tag entry \<and> \<not> hbe_tentative entry then (Done tag j, sl)
            else (Finding tag (j + 1) free, sl))
      else (case free of
              Some i \<Rightarrow> (Installing tag i, sl)
            | None \<Rightarrow> (Installing tag (length sl), sl @ replicate kNumEntries kInvalidEntry)))"

definition install_step :: "u16 \<Rightarrow> nat \<Rightarrow> hb_entry list \<Rightarrow> entry_pc \<times> hb_entry list" where
  "install_step tag i sl =
     (case hbe_compare_exchange_strong (sl ! i) kInvalidEntry (tentative_entry tag) of
        (True, _, cell) \<Rightarrow> (Checking tag i 0, sl[i := cell])
      | (False, _, _) \<Rightarrow> (Finding tag 0 None, sl))"

text \<open>The steps of \<open>HasConflictingEntry\<close> and what follows it.\<close>

definition check_step :: "u16 \<Rightarrow> nat \<Rightarrow> nat \<Rightarrow> hb_entry list \<Rightarrow> entry_pc \<times> hb_entry list" where
  "check_step tag i j sl =
     (if j < length sl
      then (if sl ! j \<noteq> kInvalidEntry \<and> hbe_tag (sl ! j) = tag \<and> i \<noteq> j
            then (BackingOff tag i, sl) else (Checking tag i (j + 1), sl))
      else (Done tag i, sl[i := final_entry tag]))"

fun thread_step :: "entry_pc \<Rightarrow> hb_entry list \<Rightarrow> (entry_pc \<times> hb_entry list) option" where
  "thread_step (Finding tag j free) sl = Some (find_step tag j free sl)"
| "thread_step (Installing tag i) sl = Some (install_step tag i sl)"
| "thread_step (Checking tag i j) sl = Some (check_step tag i j sl)"
| "thread_step (BackingOff tag i) sl = Some (Finding tag 0 None, sl[i := kInvalidEntry])"
| "thread_step (Done tag i) sl = Some (EIdle, sl)"
| "thread_step EIdle sl = None"

inductive entry_step :: "entry_state \<Rightarrow> entry_state \<Rightarrow> bool" where
  start: "t < length (es_pcs s) \<Longrightarrow> es_pcs s ! t = EIdle \<Longrightarrow>
    entry_step s (set_pc t (Finding (kh_tag h) 0 None) s)"
| run: "t < length (es_pcs s) \<Longrightarrow> thread_step (es_pcs s ! t) (es_slots s) = Some (p, sl) \<Longrightarrow>
    entry_step s (set_pc t p (s\<lparr>es_slots := sl\<rparr>))"
| update: "i < length (es_slots s) \<Longrightarrow> es_slots s ! i = e \<Longrightarrow> \<not> hbe_unused e \<Longrightarrow> \<not> hbe_tentative e \<Longrightarrow>
    \<not> hbe_unused e' \<Longrightarrow> \<not> hbe_tentative e' \<Longrightarrow> hbe_tag e' = hbe_tag e \<Longrightarrow>
    entry_step s (set_slot i e' s)"
| clean: "i < length (es_slots s) \<Longrightarrow> es_slots s ! i = e \<Longrightarrow> \<not> hbe_tentative e \<Longrightarrow>
    entry_step s (set_slot i kInvalidEntry s)"

definition entry_initial :: "entry_state \<Rightarrow> bool" where
  "entry_initial s \<longleftrightarrow> es_slots s = replicate kNumEntries kInvalidEntry \<and> set (es_pcs s) \<subseteq> {EIdle}"


section \<open>The invariant\<close>

text \<open>The slot a thread has put its tentative entry into, with its tag and how far it has looked.\<close>

fun owns :: "entry_pc \<Rightarrow> (u16 \<times> nat \<times> nat) option" where
  "owns (Checking tag i j) = Some (tag, i, j)"
| "owns (BackingOff tag i) = Some (tag, i, 0)"
| "owns _ = None"

fun pc_tag_ok :: "entry_pc \<Rightarrow> bool" where
  "pc_tag_ok EIdle \<longleftrightarrow> True"
| "pc_tag_ok (Finding tag _ _) \<longleftrightarrow> tag_ok tag"
| "pc_tag_ok (Installing tag _) \<longleftrightarrow> tag_ok tag"
| "pc_tag_ok (Checking tag _ _) \<longleftrightarrow> tag_ok tag"
| "pc_tag_ok (BackingOff tag _) \<longleftrightarrow> tag_ok tag"
| "pc_tag_ok (Done tag _) \<longleftrightarrow> tag_ok tag"

fun pc_slot_ok :: "nat \<Rightarrow> entry_pc \<Rightarrow> bool" where
  "pc_slot_ok n (Finding _ _ (Some i)) \<longleftrightarrow> i < n"
| "pc_slot_ok n (Installing _ i) \<longleftrightarrow> i < n"
| "pc_slot_ok n (Done _ i) \<longleftrightarrow> i < n"
| "pc_slot_ok n _ \<longleftrightarrow> True"

definition is_final :: "u16 \<Rightarrow> hb_entry \<Rightarrow> bool" where
  "is_final tag e \<longleftrightarrow> \<not> hbe_unused e \<and> \<not> hbe_tentative e \<and> hbe_tag e = tag"

text \<open>A thread's own slot: it holds the tentative entry, and no final entry with its tag is
  among the slots looked at.\<close>

definition own_ok :: "hb_entry list \<Rightarrow> u16 \<times> nat \<times> nat \<Rightarrow> bool" where
  "own_ok sl = (\<lambda>(tag, i, j). i < length sl \<and> sl ! i = tentative_entry tag \<and>
     (\<forall>k < length sl. k < j \<longrightarrow> k \<noteq> i \<longrightarrow> \<not> is_final tag (sl ! k)))"

text \<open>Of two threads with the same tag, at most one has looked past the slot of the other.\<close>

definition apart :: "u16 \<times> nat \<times> nat \<Rightarrow> u16 \<times> nat \<times> nat \<Rightarrow> bool" where
  "apart = (\<lambda>(tag, i, j) (tag', i', j'). i \<noteq> i' \<and> (tag = tag' \<longrightarrow> \<not> (i' < j \<and> i < j')))"

definition unique_final :: "hb_entry list \<Rightarrow> bool" where
  "unique_final sl \<longleftrightarrow> (\<forall>i < length sl. \<forall>k < length sl. \<forall>tag.
     is_final tag (sl ! i) \<longrightarrow> is_final tag (sl ! k) \<longrightarrow> i = k)"

definition entry_invar :: "entry_state \<Rightarrow> bool" where
  "entry_invar s \<longleftrightarrow> unique_final (es_slots s) \<and>
     (\<forall>t < length (es_pcs s). pc_tag_ok (es_pcs s ! t) \<and> pc_slot_ok (length (es_slots s)) (es_pcs s ! t)) \<and>
     (\<forall>t < length (es_pcs s). \<forall>o1. owns (es_pcs s ! t) = Some o1 \<longrightarrow> own_ok (es_slots s) o1) \<and>
     (\<forall>t < length (es_pcs s). \<forall>u < length (es_pcs s). \<forall>o1 o2. t \<noteq> u \<longrightarrow>
        owns (es_pcs s ! t) = Some o1 \<longrightarrow> owns (es_pcs s ! u) = Some o2 \<longrightarrow> apart o1 o2)"

lemma is_final_simps [simp]:
  "\<not> is_final tag 0" "\<not> is_final tag (tentative_entry tag')"
  "tag_ok tag' \<Longrightarrow> is_final tag (final_entry tag') \<longleftrightarrow> tag = tag'"
  by (auto simp: is_final_def hbe_unused_def tentative_entry_def final_entry_def)

lemma tentative_entry_props [simp]:
  "tentative_entry tag \<noteq> 0" "hbe_tentative (tentative_entry tag)"
  "tag_ok tag \<Longrightarrow> hbe_tag (tentative_entry tag) = tag"
  by (simp_all add: tentative_entry_def)

lemma final_entry_props [simp]:
  "final_entry tag \<noteq> 0" "\<not> hbe_tentative (final_entry tag)"
  "tag_ok tag \<Longrightarrow> hbe_tag (final_entry tag) = tag"
  by (simp_all add: final_entry_def)

lemma hbe_tentative_zero [simp]: "\<not> hbe_tentative 0"
  by (simp add: hbe_tentative_def)

text \<open>
  The invariant is about the slots and the claims of the threads on them; a step changes the
  claim of one thread and one slot.
\<close>

definition claims_ok :: "hb_entry list \<Rightarrow> (nat \<Rightarrow> (u16 \<times> nat \<times> nat) option) \<Rightarrow> nat \<Rightarrow> bool" where
  "claims_ok sl c n \<longleftrightarrow> unique_final sl \<and>
     (\<forall>t < n. \<forall>o1. c t = Some o1 \<longrightarrow> own_ok sl o1) \<and>
     (\<forall>t < n. \<forall>u < n. \<forall>o1 o2. t \<noteq> u \<longrightarrow> c t = Some o1 \<longrightarrow> c u = Some o2 \<longrightarrow> apart o1 o2)"

definition claims :: "entry_state \<Rightarrow> nat \<Rightarrow> (u16 \<times> nat \<times> nat) option" where
  "claims s t = owns (es_pcs s ! t)"

lemma entry_invar_claims:
  "entry_invar s \<longleftrightarrow> claims_ok (es_slots s) (claims s) (length (es_pcs s)) \<and>
     (\<forall>t < length (es_pcs s). pc_tag_ok (es_pcs s ! t) \<and> pc_slot_ok (length (es_slots s)) (es_pcs s ! t))"
  by (auto simp: entry_invar_def claims_ok_def claims_def)

lemma claims_set_pc [simp]:
  "t < length (es_pcs s) \<Longrightarrow> claims (set_pc t p s) = (claims s)(t := owns p)"
  by (auto simp: claims_def nth_list_update_if)

lemma claims_set_both [simp]:
  "t < length (es_pcs s) \<Longrightarrow>
   claims (s\<lparr>es_slots := sl, es_pcs := (es_pcs s)[t := p]\<rparr>) = (claims s)(t := owns p)"
  by (auto simp: claims_def nth_list_update_if)

lemma claims_slots [simp]: "claims (s\<lparr>es_slots := sl\<rparr>) = claims s"
  by (auto simp: claims_def)

lemma claims_drop:
  assumes "claims_ok sl c n"
  shows "claims_ok sl (c(t := None)) n"
  using assms by (simp add: claims_ok_def)


lemma claims_own: "claims_ok sl c n \<Longrightarrow> t < n \<Longrightarrow> c t = Some (tag, i, j) \<Longrightarrow> own_ok sl (tag, i, j)"
  by (simp add: claims_ok_def)

lemma claims_apart:
  "claims_ok sl c n \<Longrightarrow> t < n \<Longrightarrow> u < n \<Longrightarrow> t \<noteq> u \<Longrightarrow> c t = Some o1 \<Longrightarrow> c u = Some o2 \<Longrightarrow> apart o1 o2"
  unfolding claims_ok_def by blast

text \<open>Changes that add no final entry and leave the claimed slots alone.\<close>

lemma claims_mono:
  assumes ok: "claims_ok sl c n" and len: "length sl \<le> length sl'"
    and fin: "\<And>k tag. k < length sl' \<Longrightarrow> is_final tag (sl' ! k) \<Longrightarrow> k < length sl \<and> is_final tag (sl ! k)"
    and keep: "\<And>k tag. k < length sl \<Longrightarrow> sl ! k = tentative_entry tag \<Longrightarrow>
      (\<exists>t < n. \<exists>j. c t = Some (tag, k, j)) \<Longrightarrow> sl' ! k = sl ! k"
  shows "claims_ok sl' c n"
  unfolding claims_ok_def
proof (intro conjI allI impI)
  show "unique_final sl'" using ok fin unfolding claims_ok_def unique_final_def by metis
  show "own_ok sl' o1" if t: "t < n" "c t = Some o1" for t o1
  proof -
    obtain tag i j where o1: "o1 = (tag, i, j)" by (cases o1)
    have own: "own_ok sl (tag, i, j)" using ok t o1 by (simp add: claims_ok_def)
    have "sl' ! i = sl ! i" using keep [of i tag] own t o1 by (auto simp: own_ok_def)
    moreover have "\<not> is_final tag (sl' ! k)" if "k < length sl'" "k < j" "k \<noteq> i" for k
      using fin [OF that(1)] own that by (auto simp: own_ok_def)
    ultimately show ?thesis using own len o1 by (auto simp: own_ok_def)
  qed
  show "apart o1 o2" if "t < n" "u < n" "t \<noteq> u" "c t = Some o1" "c u = Some o2" for t u o1 o2
    by (rule claims_apart [OF ok that])
qed

lemma claims_set:
  assumes ok: "claims_ok sl c n" and i: "i < length sl"
    and unclaimed: "\<And>t tag j. t < n \<Longrightarrow> c t \<noteq> Some (tag, i, j)"
    and fin: "\<And>tag. is_final tag e \<Longrightarrow> is_final tag (sl ! i)"
  shows "claims_ok (sl[i := e]) c n"
proof (rule claims_mono [OF ok])
  show "k < length sl \<and> is_final tag (sl ! k)" if "k < length (sl[i := e])" "is_final tag (sl[i := e] ! k)" for k tag
    using that i fin [of tag] by (cases "k = i") auto
  show "sl[i := e] ! k = sl ! k" if "\<exists>t < n. \<exists>j. c t = Some (tag, k, j)" for k tag
    using that unclaimed by (cases "k = i") auto
qed simp

text \<open>A slot without a tentative entry is not claimed.\<close>

lemma claims_tentative:
  assumes "claims_ok sl c n" "t < n" "\<not> hbe_tentative (sl ! i)"
  shows "c t \<noteq> Some (tag, i, j)"
  using claims_own [OF assms(1,2)] assms(3) by (auto simp: own_ok_def)

lemma claims_claim:
  assumes ok: "claims_ok sl c n" and own: "own_ok sl x"
    and ap: "\<And>u o2. u < n \<Longrightarrow> u \<noteq> t \<Longrightarrow> c u = Some o2 \<Longrightarrow> apart x o2"
  shows "claims_ok sl (c(t := Some x)) n"
proof -
  have sym: "apart o1 o2 \<Longrightarrow> apart o2 o1" for o1 o2 by (auto simp: apart_def)
  show ?thesis using ok own ap sym by (auto simp: claims_ok_def)
qed

lemma claims_install:
  assumes ok: "claims_ok sl c n" and i: "i < length sl" "sl ! i = 0"
  shows "claims_ok (sl[i := tentative_entry tag]) (c(t := Some (tag, i, 0))) n"
proof (rule claims_claim)
  have free: "u < n \<Longrightarrow> c u \<noteq> Some (tag', i, j)" for u tag' j
    using claims_tentative [OF ok] i(2) by simp
  show "claims_ok (sl[i := tentative_entry tag]) c n"
    by (rule claims_set [OF ok i(1) free]) simp_all
  show "own_ok (sl[i := tentative_entry tag]) (tag, i, 0)" using i(1) by (simp add: own_ok_def)
  show "apart (tag, i, 0) o2" if "u < n" "c u = Some o2" for u o2
    using free [OF that(1)] that(2) by (cases o2) (auto simp: apart_def)
qed

lemma claims_advance:
  assumes ok: "claims_ok sl c n" and t: "t < n" "c t = Some (tag, i, j)" "tag_ok tag"
    and j: "\<not> (sl ! j \<noteq> 0 \<and> hbe_tag (sl ! j) = tag \<and> i \<noteq> j)"
  shows "claims_ok sl (c(t := Some (tag, i, j + 1))) n"
proof (rule claims_claim [OF ok])
  note own = claims_own [OF ok t(1,2)]
  have "\<not> is_final tag (sl ! k)" if "k < length sl" "k < j + 1" "k \<noteq> i" for k
  proof (cases "k = j")
    case True
    then show ?thesis using j that(3) by (auto simp: is_final_def hbe_unused_def)
  qed (use own that in \<open>auto simp: own_ok_def\<close>)
  then show "own_ok sl (tag, i, j + 1)" using own by (simp add: own_ok_def)
  fix u o2 assume u: "u < n" "u \<noteq> t" "c u = Some o2"
  obtain tag' i' j' where o2: "o2 = (tag', i', j')" by (cases o2)
  have ap: "apart (tag, i, j) (tag', i', j')" using claims_apart [OF ok t(1) u(1)] u t(2) o2 by auto
  have "i' \<noteq> j" if "tag' = tag"
  proof
    assume ij: "i' = j"
    have "sl ! j = tentative_entry tag" using claims_own [OF ok u(1)] u(3) o2 that ij by (simp add: own_ok_def)
    then show False using j ap ij t(3) by (simp add: apart_def)
  qed
  then show "apart (tag, i, j + 1) o2" using ap o2 by (auto simp: apart_def less_Suc_eq)
qed

text \<open>Only one thread can get to the end of the chain with a tag: its entry becomes the only final one.\<close>

lemma claims_finish:
  assumes ok: "claims_ok sl c n" and t: "t < n" "c t = Some (tag, i, j)" "tag_ok tag" and j: "length sl \<le> j"
  shows "claims_ok (sl[i := final_entry tag]) (c(t := None)) n"
proof -
  note own = claims_own [OF ok t(1,2)]
  then have i: "i < length sl" and nf: "\<And>k. k < length sl \<Longrightarrow> k \<noteq> i \<Longrightarrow> \<not> is_final tag (sl ! k)"
    using j by (auto simp: own_ok_def)
  have "\<not> is_final tag' (sl ! i)" for tag' using own by (simp add: own_ok_def)
  have fin: "is_final tag' (sl[i := final_entry tag] ! k) \<longleftrightarrow>
      (if k = i then tag' = tag else is_final tag' (sl ! k))" for tag' k
    using i t(3) by (simp add: nth_list_update_if)
  show ?thesis
    unfolding claims_ok_def
  proof (intro conjI allI impI)
    have uq: "unique_final sl" using ok by (simp add: claims_ok_def)
    show "unique_final (sl[i := final_entry tag])"
      using uq nf unfolding unique_final_def fin by (auto split: if_splits)
    fix u o1 assume u: "u < n" "(c(t := None)) u = Some o1"
    then have ut: "u \<noteq> t" "c u = Some o1" by (auto split: if_splits)
    obtain tag' i' j' where o1: "o1 = (tag', i', j')" by (cases o1)
    have ap: "apart (tag, i, j) (tag', i', j')" using claims_apart [OF ok t(1) u(1)] ut t(2) o1 by auto
    have own': "own_ok sl (tag', i', j')" using claims_own [OF ok u(1)] ut(2) o1 by simp
    have "\<not> is_final tag' (sl[i := final_entry tag] ! k)" if "k < length sl" "k < j'" "k \<noteq> i'" for k
      using own' ap that j unfolding fin by (auto simp: own_ok_def apart_def)
    then show "own_ok (sl[i := final_entry tag]) o1" using own' ap o1 by (auto simp: own_ok_def apart_def)
  next
    show "apart o1 o2" if "u < n" "v < n" "u \<noteq> v" "(c(t := None)) u = Some o1" "(c(t := None)) v = Some o2"
      for u v o1 o2
      using claims_apart [OF ok that(1-3)] that(4,5) by (auto split: if_splits)
  qed
qed

lemma claims_release:
  assumes ok: "claims_ok sl c n" and t: "t < n" "c t = Some (tag, i, j)"
  shows "claims_ok (sl[i := 0]) (c(t := None)) n"
proof (rule claims_set [OF claims_drop [OF ok]])
  show "i < length sl" using claims_own [OF ok t] by (simp add: own_ok_def)
  show "(c(t := None)) u \<noteq> Some (tag', i, j')" if "u < n" for u tag' j'
  proof
    assume "(c(t := None)) u = Some (tag', i, j')"
    then have u: "t \<noteq> u" "c u = Some (tag', i, j')" by (auto split: if_splits)
    from claims_apart [OF ok t(1) that u(1) t(2) u(2)] show False by (simp add: apart_def)
  qed
qed simp

lemma claims_grow:
  assumes "claims_ok sl c n"
  shows "claims_ok (sl @ replicate m 0) c n"
  by (rule claims_mono [OF assms]) (auto simp: nth_append split: if_splits)



section \<open>Every step keeps the invariant\<close>

lemma unclaimed_pc:
  assumes "claims_ok sl (claims s) n" "owns p = None" "t < length (es_pcs s)"
  shows "claims_ok sl (claims (set_pc t p s)) n"
  using claims_drop [OF assms(1)] assms(2,3) by simp

lemma pc_slot_ok_mono: "pc_slot_ok n p \<Longrightarrow> n \<le> m \<Longrightarrow> pc_slot_ok m p"
  by (cases "(n, p)" rule: pc_slot_ok.cases) auto

lemma find_step_result:
  assumes "pc_slot_ok (length sl) (Finding tag j free)" "tag_ok tag" "find_step tag j free sl = (p', sl')"
  shows "owns p' = None \<and> pc_tag_ok p' \<and> pc_slot_ok (length sl') p' \<and>
    (sl' = sl \<or> sl' = sl @ replicate kNumEntries 0)"
proof (cases "j < length sl")
  case True
  then show ?thesis using assms by (cases free) (auto simp: find_step_def Let_def split: if_split_asm)
next
  case False
  then show ?thesis using assms by (cases free) (auto simp: find_step_def kNumEntries_def)
qed

text \<open>One step of a thread, from its claim and its slots.\<close>

lemma thread_step_claims:
  assumes ok: "claims_ok sl c n" and t: "t < n" "c t = owns p" "pc_tag_ok p" "pc_slot_ok (length sl) p"
    and st: "thread_step p sl = Some (p', sl')"
  shows "claims_ok sl' (c(t := owns p')) n \<and> pc_tag_ok p' \<and> pc_slot_ok (length sl') p' \<and>
    length sl \<le> length sl'"
proof (cases p)
  case (Finding tag j free)
  have c: "c(t := None) = c" using t(2) Finding by (auto simp: fun_eq_iff)
  note r = find_step_result [of sl tag j free p' sl']
  have "owns p' = None \<and> pc_tag_ok p' \<and> pc_slot_ok (length sl') p' \<and>
      (sl' = sl \<or> sl' = sl @ replicate kNumEntries 0)"
    using r t(3,4) st Finding by simp
  then show ?thesis using ok c claims_grow [OF ok] by auto
next
  case (Installing tag i)
  have c: "c(t := None) = c" using t(2) Installing by (auto simp: fun_eq_iff)
  show ?thesis
  proof (cases "sl ! i = 0")
    case True
    then have "p' = Checking tag i 0" "sl' = sl[i := tentative_entry tag]"
      using st Installing by (simp_all add: install_step_def hbe_compare_exchange_strong_def compare_exchange_def)
    then show ?thesis using claims_install [OF ok _ True] t(3,4) Installing by simp
  next
    case False
    then have "p' = Finding tag 0 None" "sl' = sl"
      using st Installing by (simp_all add: install_step_def hbe_compare_exchange_strong_def compare_exchange_def)
    then show ?thesis using ok c t(3) Installing by simp
  qed
next
  case (Checking tag i j)
  have ct: "c t = Some (tag, i, j)" "tag_ok tag" using t(2,3) Checking by simp_all
  have i: "i < length sl" using claims_own [OF ok t(1) ct(1)] by (simp add: own_ok_def)
  show ?thesis
  proof (cases "j < length sl")
    case True
    show ?thesis
    proof (cases "sl ! j \<noteq> 0 \<and> hbe_tag (sl ! j) = tag \<and> i \<noteq> j")
      case conflict: True
      have "own_ok sl (tag, i, 0)" using claims_own [OF ok t(1) ct(1)] by (simp add: own_ok_def)
      moreover have "apart (tag, i, 0) o2" if "u < n" "u \<noteq> t" "c u = Some o2" for u o2
        using claims_apart [OF ok t(1) that(1) that(2) [symmetric] ct(1) that(3)]
        by (cases o2) (simp add: apart_def)
      ultimately have "claims_ok sl (c(t := Some (tag, i, 0))) n" by (rule claims_claim [OF ok])
      moreover have "p' = BackingOff tag i" "sl' = sl" using st Checking True conflict by (auto simp: check_step_def)
      ultimately show ?thesis using ct(2) by simp
    next
      case False
      then have "p' = Checking tag i (j + 1)" "sl' = sl" using st Checking True by (auto simp: check_step_def)
      then show ?thesis using claims_advance [OF ok t(1) ct False] ct(2) by simp
    qed
  next
    case False
    then have "p' = Done tag i" "sl' = sl[i := final_entry tag]" using st Checking by (auto simp: check_step_def)
    then show ?thesis using claims_finish [OF ok t(1) ct] ct(2) False i by simp
  qed
next
  case (BackingOff tag i)
  then have "c t = Some (tag, i, 0)" using t(2) by simp
  from claims_release [OF ok t(1) this] show ?thesis using st t(3) BackingOff by auto
next
  case (Done tag i)
  have "c(t := None) = c" using t(2) Done by (auto simp: fun_eq_iff)
  then show ?thesis using ok st Done by auto
qed (use st in simp)

lemma entry_initial_invar: "entry_initial s \<Longrightarrow> entry_invar s"
proof -
  assume a: "entry_initial s"
  have p: "es_pcs s ! t = EIdle" if "t < length (es_pcs s)" for t
    using a nth_mem [OF that] by (auto simp: entry_initial_def)
  moreover have "unique_final (es_slots s)" using a by (simp add: entry_initial_def unique_final_def)
  ultimately show ?thesis by (simp add: entry_invar_def)
qed

lemma entry_invarI:
  assumes "claims_ok (es_slots s) (claims s) (length (es_pcs s))"
    "\<And>t. t < length (es_pcs s) \<Longrightarrow> pc_tag_ok (es_pcs s ! t) \<and> pc_slot_ok (length (es_slots s)) (es_pcs s ! t)"
  shows "entry_invar s"
  using assms by (simp add: entry_invar_claims)

lemma entry_step_invar:
  assumes "entry_invar s" "entry_step s s'"
  shows "entry_invar s'"
proof -
  from assms(1) have ok: "claims_ok (es_slots s) (claims s) (length (es_pcs s))"
    and pc: "\<And>t. t < length (es_pcs s) \<Longrightarrow> pc_tag_ok (es_pcs s ! t) \<and> pc_slot_ok (length (es_slots s)) (es_pcs s ! t)"
    by (simp_all add: entry_invar_claims)
  from assms(2) show ?thesis
  proof cases
    case (start t h)
    then show ?thesis using ok pc claims_drop [OF ok, of t]
      by (intro entry_invarI) (auto simp: nth_list_update_if)
  next
    case (run t p sl)
    have "claims s t = owns (es_pcs s ! t)" by (simp add: claims_def)
    note r = thread_step_claims [OF ok run(2) this pc [OF run(2), THEN conjunct1] pc [OF run(2), THEN conjunct2] run(3)]
    have "pc_slot_ok (length sl) (es_pcs s ! u)" if "u < length (es_pcs s)" for u
      using pc_slot_ok_mono pc [OF that] r by blast
    then show ?thesis using r pc unfolding run(1)
      by (intro entry_invarI) (auto simp: nth_list_update_if run(2))
  next
    case (update i e e')
    have "claims_ok ((es_slots s)[i := e']) (claims s) (length (es_pcs s))"
      using claims_tentative [OF ok] update by (intro claims_set [OF ok]) (auto simp: is_final_def)
    then show ?thesis using pc update(1) by (intro entry_invarI) auto
  next
    case (clean i e)
    have "claims_ok ((es_slots s)[i := 0]) (claims s) (length (es_pcs s))"
      using claims_tentative [OF ok] clean by (intro claims_set [OF ok]) auto
    then show ?thesis using pc clean(1) by (intro entry_invarI) auto
  qed
qed

interpretation entry_ts: transition_system entry_initial entry_step entry_invar
  by unfold_locales (fact entry_initial_invar, fact entry_step_invar)


section \<open>Uniqueness of entries\<close>



text \<open>Two threads that insert two tags, one after the other.\<close>

definition entry_run :: "nat \<Rightarrow> entry_state \<Rightarrow> entry_state" where
  "entry_run t s = (case thread_step (es_pcs s ! t) (es_slots s) of
     None \<Rightarrow> s | Some (p, sl) \<Rightarrow> set_pc t p (s\<lparr>es_slots := sl\<rparr>))"

definition entry_begin :: "nat \<Rightarrow> key_hash \<Rightarrow> entry_state \<Rightarrow> entry_state" where
  "entry_begin t h s = set_pc t (Finding (kh_tag h) 0 None) s"

fun entry_runs :: "nat \<Rightarrow> nat \<Rightarrow> entry_state \<Rightarrow> entry_state" where
  "entry_runs t 0 s = s"
| "entry_runs t (Suc n) s = entry_runs t n (entry_run t s)"

definition entry_start :: entry_state where
  "entry_start = \<lparr>es_slots = replicate kNumEntries kInvalidEntry, es_pcs = [EIdle, EIdle]\<rparr>"

definition entry_mid :: entry_state where
  "entry_mid = entry_runs 0 20 (entry_begin 0 0 entry_start)"

definition entry_end :: entry_state where
  "entry_end = entry_runs 1 20 (entry_begin 1 0x5000000000000 entry_mid)"

lemma entry_run_step: "t < length (es_pcs s) \<Longrightarrow> entry_step\<^sup>*\<^sup>* s (entry_run t s)"
proof (cases "thread_step (es_pcs s ! t) (es_slots s)")
  case (Some x)
  moreover assume "t < length (es_pcs s)"
  ultimately have "entry_step s (entry_run t s)"
    using entry_step.run [of t s "fst x" "snd x"] by (cases x) (simp add: entry_run_def)
  then show ?thesis ..
qed (simp add: entry_run_def)

lemma length_entry_run [simp]: "length (es_pcs (entry_run t s)) = length (es_pcs s)"
  by (simp add: entry_run_def split: option.split prod.split)

lemma entry_runs_steps: "t < length (es_pcs s) \<Longrightarrow> entry_step\<^sup>*\<^sup>* s (entry_runs t n s)"
proof (induction n arbitrary: s)
  case (Suc n)
  have "entry_step\<^sup>*\<^sup>* (entry_run t s) (entry_runs t n (entry_run t s))" using Suc by simp
  with entry_run_step [OF Suc.prems] show ?case by simp
qed simp

lemma entry_begin_step:
  "t < length (es_pcs s) \<Longrightarrow> es_pcs s ! t = EIdle \<Longrightarrow> entry_step\<^sup>*\<^sup>* s (entry_begin t h s)"
  by (simp add: entry_begin_def r_into_rtranclp entry_step.start)

lemma entry_begin_runs:
  assumes "t < length (es_pcs s)" "es_pcs s ! t = EIdle"
  shows "entry_step\<^sup>*\<^sup>* s (entry_runs t n (entry_begin t h s))"
proof -
  have "t < length (es_pcs (entry_begin t h s))" using assms(1) by (simp add: entry_begin_def)
  from entry_begin_step [OF assms] entry_runs_steps [OF this] show ?thesis by (rule rtranclp_trans)
qed

lemmas entry_eval = entry_begin_def entry_run_def find_step_def install_step_def check_step_def
  hbe_compare_exchange_strong_def compare_exchange_def hbe_unused_def kNumEntries_def eval_nat_numeral

lemma entry_mid_eq:
  "entry_mid = \<lparr>es_slots = [final_entry (kh_tag 0), 0, 0, 0, 0, 0, 0], es_pcs = [EIdle, EIdle]\<rparr>"
  by (simp add: entry_mid_def entry_start_def entry_eval)

lemma second_tag:
  assumes "kh_tag h \<noteq> kh_tag 0"
  shows "entry_runs 1 20 (entry_begin 1 h entry_mid) =
    \<lparr>es_slots = [final_entry (kh_tag 0), final_entry (kh_tag h), 0, 0, 0, 0, 0], es_pcs = [EIdle, EIdle]\<rparr>"
  using assms by (simp add: entry_mid_eq entry_eval)

lemma demo_tags: "kh_tag 0 = 0" "kh_tag 0x5000000000000 = 5" "(5 :: u16) \<noteq> 0"
  by (code_simp, code_simp, simp)

lemma entry_end_eq:
  "entry_end = \<lparr>es_slots = [final_entry 0, final_entry 5, 0, 0, 0, 0, 0], es_pcs = [EIdle, EIdle]\<rparr>"
  using second_tag [of "0x5000000000000"] unfolding entry_end_def demo_tags by simp

lemma entry_end_reachable: "entry_step\<^sup>*\<^sup>* entry_start entry_end"
proof -
  have "entry_step\<^sup>*\<^sup>* entry_start entry_mid"
    unfolding entry_mid_def by (rule entry_begin_runs) (simp_all add: entry_start_def)
  moreover have "entry_step\<^sup>*\<^sup>* entry_mid entry_end"
    unfolding entry_end_def by (rule entry_begin_runs) (simp_all add: entry_mid_eq)
  ultimately show ?thesis by (rule rtranclp_trans)
qed


end
