(* ===== verification/Epoch_Client.thy ===== *)
theory Epoch_Client
  imports Light_Epoch
begin

text \<open>
  What a client that registers actions with \<open>LightEpoch\<close> can rely on. The client has an
  invariant of its own state and a condition under which a registered action may run; the
  locale shows that the operations of the epoch keep them, whatever the order in which the
  actions run. A thread can moreover guard a part of the client's state: while it stays
  protected, only actions that were registered before it entered the epoch can run, so if
  those respect the guard, it holds.
\<close>

definition registered :: "('a, 'z) light_epoch_scheme \<Rightarrow> (u64 \<times> 'a) set" where
  "registered s = {(e, a). \<exists>sl \<in> set (drain_list s). occupied sl \<and> ea_epoch sl = e \<and> ea_callback sl = Some a}"

abbreviation client_state :: "('a, 'z) light_epoch_scheme \<Rightarrow> 'z" where
  "client_state s \<equiv> light_epoch.more s"

lemma more_more_update [simp]: "client_state (light_epoch.more_update f s) = f (client_state s)"
  by (cases s) simp

lemma occupied_callback:
  assumes "epoch_ok s" "sl \<in> set (drain_list s)" "occupied sl"
  obtains a where "ea_callback sl = Some a" "(ea_epoch sl, a) \<in> registered s" "ea_epoch sl < current_epoch s"
proof -
  have "slot_ok (current_epoch s) sl" using assms(1,2) by (simp add: epoch_ok_def drain_ok_def list_all_iff)
  then obtain a where "ea_callback sl = Some a" "ea_epoch sl < current_epoch s"
    using assms(3) by (auto simp: slot_ok_def occupied_def)
  with assms(2,3) that show thesis by (auto simp: registered_def)
qed

lemma ready_occupied:
  assumes "epoch_ok s" "ready (safe_to_reclaim_epoch s) sl"
  shows "occupied sl"
proof -
  have "\<not> kFree \<le> safe_to_reclaim_epoch s"
    using assms(1) not_kFree_le by (auto simp: epoch_ok_def table_ok_def)
  with assms(2) show ?thesis by (auto simp: ready_def occupied_def)
qed

text \<open>The actions that a drain runs are registered with a safe epoch, and leave the list.\<close>

lemma ready_actions_registered:
  assumes "epoch_ok s" "a \<in> set (ready_actions (safe_to_reclaim_epoch s) (drain_list s))"
  obtains e where "(e, a) \<in> registered s" "e \<le> safe_to_reclaim_epoch s"
proof -
  from assms(2) obtain sl where sl: "sl \<in> set (drain_list s)" "ready (safe_to_reclaim_epoch s) sl"
    "a = the (ea_callback sl)"
    by (auto simp: ready_actions_def)
  from occupied_callback [OF assms(1) sl(1) ready_occupied [OF assms(1) sl(2)]] obtain b where
    "ea_callback sl = Some b" "(ea_epoch sl, b) \<in> registered s" .
  with sl that show thesis by (simp add: ready_def)
qed

lemma registered_clear:
  "drain_list s' = clear_ready safe (drain_list s) \<Longrightarrow> registered s' \<subseteq> registered s"
  by (auto simp: registered_def clear_ready_def split: if_splits)

lemma registered_place:
  "registered (place_action act j e a s) \<subseteq> insert (e, a) (registered s)"
  by (auto simp: registered_def place_action_def dest!: set_update_subset_insert [THEN subsetD])

lemma registered_cong: "drain_list s' = drain_list s \<Longrightarrow> registered s' = registered s"
  by (simp add: registered_def)

text \<open>What no action changes, the operations of the epoch do not change.\<close>

lemma drain_loop_keeps:
  assumes "\<And>a z. f (act a z) = f z"
  shows "f (client_state (drain_loop act is s)) = f (client_state s)"
proof (induction "is" arbitrary: s)
  case (Cons i js)
  obtain r s1 where r: "TryPop act i (ea_epoch (drain_list s ! i)) s = (r, s1)" by fastforce
  have "f (client_state (snd (TryPop act i e s))) = f (client_state s)" for e
    using assms by (simp add: TryPop_def Let_def perform_def split: option.split prod.split)
  from this [of "ea_epoch (drain_list s ! i)"] have "f (client_state s1) = f (client_state s)" using r by simp
  then show ?case using Cons.IH r by (cases r) (simp_all add: Let_def)
qed simp

lemma Drain_keeps:
  assumes "\<And>a z. f (act a z) = f z"
  shows "f (client_state (Drain act c s)) = f (client_state s)"
  unfolding Drain_def using drain_loop_keeps [of f act, OF assms] by simp

lemma ProtectAndDrain_keeps:
  assumes "\<And>a z. f (act a z) = f z"
  shows "f (client_state (snd (ProtectAndDrain act i s))) = f (client_state s)"
  using Drain_keeps [of f act, OF assms]
  by (simp add: ProtectAndDrain_def Let_def) (simp add: set_local_epoch_def)

lemma BumpCurrentEpoch_keeps:
  assumes "\<And>a z. f (act a z) = f z"
  shows "f (client_state (snd (BumpCurrentEpoch act s))) = f (client_state s)"
  using Drain_keeps [of f act, OF assms] by (simp add: BumpCurrentEpoch_def Let_def)

lemma BumpCurrentEpoch_action_keeps:
  assumes "epoch_ok s" "current_epoch s + 1 < kLocked" "BumpCurrentEpoch_action act a s = Some (e, s')"
  shows "(\<And>a z. f (act a z) = f z) \<Longrightarrow> f (client_state s') = f (client_state s)"
    and "current_epoch s' = current_epoch s + 1" "num_entries s' = num_entries s"
proof -
  from BumpCurrentEpoch_action_result [OF assms] obtain j where
    s': "s' = place_action act j (current_epoch s) a (snd (BumpCurrentEpoch act s))" .
  show "current_epoch s' = current_epoch s + 1"
    using BumpCurrentEpoch_ok(3) [OF assms(1,2), of act] by (simp add: s' place_action_def)
  show "num_entries s' = num_entries s" by (simp add: s' place_action_def)
  assume f: "\<And>a z. f (act a z) = f z"
  have "f (client_state s') = f (client_state (snd (BumpCurrentEpoch act s)))"
    unfolding s' place_action_def perform_def using f by (auto split: option.split)
  then show "f (client_state s') = f (client_state s)" using BumpCurrentEpoch_keeps [of f act, OF f] by simp
qed


section \<open>The interface\<close>

locale epoch_client =
  fixes act :: "'a \<Rightarrow> 'z \<Rightarrow> 'z"
    and inv :: "'z \<Rightarrow> bool"
    and pending :: "'a \<Rightarrow> 'z \<Rightarrow> bool"
    and harmless :: "'a \<Rightarrow> 'g \<Rightarrow> bool"
    and guarded :: "'g \<Rightarrow> 'z \<Rightarrow> bool"
  assumes act_inv: "inv z \<Longrightarrow> pending a z \<Longrightarrow> inv (act a z)"
    and act_pending: "inv z \<Longrightarrow> pending a z \<Longrightarrow> pending b z \<Longrightarrow> pending b (act a z)"
    and act_guarded: "inv z \<Longrightarrow> pending a z \<Longrightarrow> guarded g z \<Longrightarrow> harmless a g \<Longrightarrow> guarded g (act a z)"
begin

definition client_ok :: "('a, 'z) light_epoch_scheme \<Rightarrow> bool" where
  "client_ok s \<longleftrightarrow> epoch_ok s \<and> inv (client_state s) \<and> (\<forall>(e, a) \<in> registered s. pending a (client_state s))"

text \<open>Thread \<open>t\<close> is protected, its guard holds, and what could break it is not safe to run yet.\<close>

definition thread_guard :: "nat \<Rightarrow> 'g \<Rightarrow> ('a, 'z) light_epoch_scheme \<Rightarrow> bool" where
  "thread_guard t g s \<longleftrightarrow> 1 \<le> t \<and> t \<le> num_entries s \<and> local_epoch s t \<noteq> kUnprotected \<and>
     guarded g (client_state s) \<and>
     (\<forall>(e, a) \<in> registered s. harmless a g \<or> local_epoch s t \<le> e)"

lemma fold_act:
  assumes "inv z" "\<forall>a \<in> set as. pending a z" "\<forall>b \<in> B. pending b z"
  shows "inv (fold act as z) \<and> (\<forall>b \<in> B. pending b (fold act as z))"
  using assms
proof (induction as arbitrary: z)
  case (Cons a as)
  have "inv (act a z)" using act_inv Cons.prems by simp
  moreover have "\<forall>c \<in> set as. pending c (act a z)" "\<forall>b \<in> B. pending b (act a z)"
    using act_pending Cons.prems by auto
  ultimately show ?case using Cons.IH by simp
qed simp

lemma fold_act_guarded:
  assumes "inv z" "\<forall>a \<in> set as. pending a z \<and> harmless a g" "guarded g z"
  shows "guarded g (fold act as z)"
  using assms
proof (induction as arbitrary: z)
  case (Cons a as)
  have "inv (act a z)" "guarded g (act a z)" using act_inv act_guarded Cons.prems by simp_all
  moreover have "\<forall>c \<in> set as. pending c (act a z) \<and> harmless c g" using act_pending Cons.prems by auto
  ultimately show ?case using Cons.IH by simp
qed simp


lemma protected_above_safe:
  assumes "epoch_ok s" "1 \<le> t" "t \<le> num_entries s" "local_epoch s t \<noteq> kUnprotected"
  shows "safe_to_reclaim_epoch s < local_epoch s t" "local_epoch s t \<le> current_epoch s"
  using assms by (auto simp: epoch_ok_def table_ok_def list_all_iff simp del: upt_Suc)

text \<open>Running all actions whose epoch is safe.\<close>

lemma client_drained:
  assumes ok: "client_ok s" and s': "s' = drained act 0 s"
  shows "inv (client_state s') \<and> (\<forall>(e, a) \<in> registered s'. pending a (client_state s'))"
    and "pending b (client_state s) \<Longrightarrow> pending b (client_state s')"
    and "thread_guard t g s \<Longrightarrow> guarded g (client_state s') \<and>
      (\<forall>(e, a) \<in> registered s'. harmless a g \<or> local_epoch s t \<le> e)"
proof -
  let ?as = "ready_actions (safe_to_reclaim_epoch s) (drain_list s)"
  have e: "epoch_ok s" and i: "inv (client_state s)"
    and p: "\<And>e a. (e, a) \<in> registered s \<Longrightarrow> pending a (client_state s)"
    using ok by (auto simp: client_ok_def)
  have more: "client_state s' = fold act ?as (client_state s)"
    unfolding s' drained_def by (simp add: Let_def)
  have reg: "registered s' \<subseteq> registered s"
    unfolding s' by (rule registered_clear) (simp add: drained_def Let_def)
  have as: "\<forall>a \<in> set ?as. pending a (client_state s)"
    using ready_actions_registered [OF e] p by metis
  have "\<forall>b \<in> snd ` registered s. pending b (client_state s)" using p by auto
  from fold_act [OF i as this] show "inv (client_state s') \<and> (\<forall>(e, a) \<in> registered s'. pending a (client_state s'))"
    unfolding more using reg by force
  show "pending b (client_state s) \<Longrightarrow> pending b (client_state s')"
    using fold_act [OF i as, of "{b}"] unfolding more by simp
  assume tg: "thread_guard t g s"
  then have t: "1 \<le> t" "t \<le> num_entries s" "local_epoch s t \<noteq> kUnprotected" "guarded g (client_state s)"
    and h: "\<And>e a. (e, a) \<in> registered s \<Longrightarrow> harmless a g \<or> local_epoch s t \<le> e"
    by (auto simp: thread_guard_def)
  have "pending a (client_state s) \<and> harmless a g" if a: "a \<in> set ?as" for a
  proof -
    obtain e where "(e, a) \<in> registered s" "e \<le> safe_to_reclaim_epoch s"
      using ready_actions_registered [OF \<open>epoch_ok s\<close> a] .
    then show ?thesis using as a h protected_above_safe(1) [OF e t(1-3)] by fastforce
  qed
  then have "guarded g (client_state s')" unfolding more using fold_act_guarded [OF i _ t(4)] by blast
  then show "guarded g (client_state s') \<and> (\<forall>(e, a) \<in> registered s'. harmless a g \<or> local_epoch s t \<le> e)"
    using reg h by blast
qed

lemma client_epoch: "client_ok s \<Longrightarrow> epoch_ok s"
  by (simp add: client_ok_def)

lemma client_pending: "client_ok s \<Longrightarrow> (e, a) \<in> registered s \<Longrightarrow> pending a (client_state s)"
  by (auto simp: client_ok_def)

text \<open>Changes that only concern the table of epochs.\<close>

lemma client_cong:
  assumes "client_ok s" "epoch_ok s'" "drain_list s' = drain_list s" "client_state s' = client_state s"
  shows "client_ok s'"
  using assms registered_cong [of s' s] by (simp add: client_ok_def)

lemma thread_guard_cong:
  assumes "thread_guard t g s" "drain_list s' = drain_list s" "client_state s' = client_state s"
    "num_entries s' = num_entries s" "local_epoch s' t = local_epoch s t"
  shows "thread_guard t g s'"
  using assms registered_cong [of s' s] by (simp add: thread_guard_def)

lemma Drain_client:
  assumes ok: "client_ok s" and c: "0 < c" "c \<le> current_epoch s"
  shows "client_ok (Drain act c s)"
    and "pending b (client_state s) \<Longrightarrow> pending b (client_state (Drain act c s))"
    and "thread_guard t g s \<Longrightarrow> thread_guard t g (Drain act c s)"
    and "le_table (Drain act c s) = le_table s" "current_epoch (Drain act c s) = current_epoch s"
    and "registered (Drain act c s) \<subseteq> registered s"
proof -
  let ?s = "snd (ComputeNewSafeToReclaimEpoch c s)"
  note e = client_epoch [OF ok]
  note d = Drain_drained [OF e c, of act]
  have ok1: "client_ok ?s" by (rule client_cong [OF ok ComputeNewSafe_ok [OF e c]]) simp_all
  note cd = client_drained [OF ok1 refl]
  show "client_ok (Drain act c s)"
    unfolding client_ok_def using Drain_ok [OF e c, of act] cd(1) d by simp
  show "pending b (client_state s) \<Longrightarrow> pending b (client_state (Drain act c s))"
    using cd(2) unfolding d by simp
  show t: "le_table (Drain act c s) = le_table s" "current_epoch (Drain act c s) = current_epoch s"
    unfolding d by simp_all
  show "registered (Drain act c s) \<subseteq> registered s"
    unfolding d by (rule registered_clear) (simp add: drained_def Let_def)
  assume tg: "thread_guard t g s"
  have "thread_guard t g ?s" by (rule thread_guard_cong [OF tg]) simp_all
  note g = cd(3) [OF this]
  show "thread_guard t g (Drain act c s)"
    using tg g unfolding thread_guard_def t d by simp
qed

lemma set_local_epoch_client:
  assumes "client_ok s" "e = kUnprotected \<or> e = current_epoch s"
  shows "client_ok (set_local_epoch i e s)"
    and "thread_guard t g s \<Longrightarrow> i \<noteq> t \<Longrightarrow> thread_guard t g (set_local_epoch i e s)"
proof -
  have more: "client_state (set_local_epoch i e s) = client_state s" by (simp add: set_local_epoch_def)
  show "client_ok (set_local_epoch i e s)"
    by (rule client_cong [OF assms(1) set_local_epoch_ok [OF client_epoch [OF assms(1)] assms(2)]])
      (simp_all add: more)
  show "thread_guard t g s \<Longrightarrow> i \<noteq> t \<Longrightarrow> thread_guard t g (set_local_epoch i e s)"
    by (erule thread_guard_cong) (simp_all add: more set_local_epoch_def)
qed

text \<open>
  A thread that enters the epoch, or refreshes, can take any guard that holds and that the
  registered actions respect; the guards of the other threads stay.
\<close>

lemma Protect_client:
  assumes ok: "client_ok s" and i: "1 \<le> i" "i \<le> num_entries s"
  shows "client_ok (snd (Protect i s))"
    and "thread_guard t g s \<Longrightarrow> i \<noteq> t \<Longrightarrow> thread_guard t g (snd (Protect i s))"
    and "guarded g (client_state s) \<Longrightarrow> \<forall>(e, a) \<in> registered s. harmless a g \<Longrightarrow>
      thread_guard i g (snd (Protect i s))"
    and "client_state (snd (Protect i s)) = client_state s"
proof -
  have p: "snd (Protect i s) = set_local_epoch i (current_epoch s) s" by (simp add: Protect_def Let_def)
  show "client_ok (snd (Protect i s))"
    and "thread_guard t g s \<Longrightarrow> i \<noteq> t \<Longrightarrow> thread_guard t g (snd (Protect i s))"
    unfolding p using set_local_epoch_client [OF ok] by blast+
  show m: "client_state (snd (Protect i s)) = client_state s" unfolding p by (simp add: set_local_epoch_def)
  have "i < length (le_table s)" using client_epoch [OF ok] i by (simp add: epoch_ok_def table_ok_def)
  then have l: "local_epoch (snd (Protect i s)) i = current_epoch s" unfolding p by (rule local_epoch_set)
  have "registered (snd (Protect i s)) = registered s" by (rule registered_cong) (simp add: p)
  then show "guarded g (client_state s) \<Longrightarrow> \<forall>(e, a) \<in> registered s. harmless a g \<Longrightarrow>
      thread_guard i g (snd (Protect i s))"
    using i l m current_epoch_pos [OF client_epoch [OF ok]] by (auto simp: thread_guard_def p)
qed

lemma Unprotect_client:
  assumes ok: "client_ok s"
  shows "client_ok (Unprotect i s)"
    and "thread_guard t g s \<Longrightarrow> i \<noteq> t \<Longrightarrow> thread_guard t g (Unprotect i s)"
    and "client_state (Unprotect i s) = client_state s"
  using set_local_epoch_client [OF ok, of kUnprotected] by (simp_all add: Unprotect_def) (simp add: set_local_epoch_def)

lemma ProtectAndDrain_client:
  assumes ok: "client_ok s" and i: "1 \<le> i" "i \<le> num_entries s"
  shows "client_ok (snd (ProtectAndDrain act i s))"
    and "thread_guard t g s \<Longrightarrow> i \<noteq> t \<Longrightarrow> thread_guard t g (snd (ProtectAndDrain act i s))"
    and "pending b (client_state s) \<Longrightarrow> pending b (client_state (snd (ProtectAndDrain act i s)))"
    and "guarded g (client_state s) \<Longrightarrow> \<forall>(e, a) \<in> registered s. harmless a g \<Longrightarrow>
      thread_guard i g (snd (ProtectAndDrain act i s))"
proof -
  let ?s = "snd (Protect i s)"
  note p = Protect_client [OF ok i]
  have s: "?s = set_local_epoch i (current_epoch s) s" by (simp add: Protect_def Let_def)
  have "i < length (le_table s)" using client_epoch [OF ok] i by (simp add: epoch_ok_def table_ok_def)
  then have l: "local_epoch ?s i = current_epoch s" unfolding s by (rule local_epoch_set)
  have pos: "0 < current_epoch s" "current_epoch s \<le> current_epoch ?s"
    using current_epoch_pos [OF client_epoch [OF ok]] by (simp_all add: s)
  have r: "snd (ProtectAndDrain act i s) = (if drain_count ?s > 0 then Drain act (current_epoch s) ?s else ?s)"
    using l by (simp add: ProtectAndDrain_def s Let_def)
  note d = Drain_client [OF p(1) pos]
  show "client_ok (snd (ProtectAndDrain act i s))" unfolding r using p(1) d(1) by simp
  show "thread_guard t g (snd (ProtectAndDrain act i s))" if "thread_guard t g s" "i \<noteq> t"
    unfolding r using p(2) [OF that] d(3) by simp
  show "pending b (client_state (snd (ProtectAndDrain act i s)))" if "pending b (client_state s)"
    unfolding r using that d(2) [of b] by (simp add: p(4))
  show "thread_guard i g (snd (ProtectAndDrain act i s))"
    if "guarded g (client_state s)" "\<forall>(e, a) \<in> registered s. harmless a g"
    unfolding r using p(3) [OF that] d(3) by simp
qed

lemma BumpCurrentEpoch_client:
  assumes ok: "client_ok s" and c: "current_epoch s + 1 < kLocked"
  shows "client_ok (snd (BumpCurrentEpoch act s))"
    and "pending b (client_state s) \<Longrightarrow> pending b (client_state (snd (BumpCurrentEpoch act s)))"
    and "thread_guard t g s \<Longrightarrow> thread_guard t g (snd (BumpCurrentEpoch act s))"
    and "le_table (snd (BumpCurrentEpoch act s)) = le_table s"
    and "registered (snd (BumpCurrentEpoch act s)) \<subseteq> registered s"
proof -
  let ?s = "s\<lparr>current_epoch := current_epoch s + 1\<rparr>"
  note b = bump_ok [OF client_epoch [OF ok] c]
  have ok1: "client_ok ?s" by (rule client_cong [OF ok b(1)]) simp_all
  have pos: "0 < current_epoch s + 1" using b(2) by (meson le_less_trans word_zero_le)
  have r: "snd (BumpCurrentEpoch act s) = (if drain_count s > 0 then Drain act (current_epoch s + 1) ?s else ?s)"
    by (simp add: BumpCurrentEpoch_def Let_def)
  have reg: "registered ?s = registered s" by (rule registered_cong) simp
  note d = Drain_client [OF ok1 pos]
  show "client_ok (snd (BumpCurrentEpoch act s))" unfolding r using ok1 d(1) by simp
  show "pending b (client_state s) \<Longrightarrow> pending b (client_state (snd (BumpCurrentEpoch act s)))"
    unfolding r using d(2) [of b] by simp
  show "le_table (snd (BumpCurrentEpoch act s)) = le_table s" unfolding r using d(4) by simp
  show "registered (snd (BumpCurrentEpoch act s)) \<subseteq> registered s" unfolding r using d(6) reg by simp
  assume tg: "thread_guard t g s"
  have "thread_guard t g ?s" by (rule thread_guard_cong [OF tg]) simp_all
  then show "thread_guard t g (snd (BumpCurrentEpoch act s))" unfolding r using d(3) by simp
qed

text \<open>Registering an action that may run; the guards hold, since it waits for the current epoch.\<close>

lemma BumpCurrentEpoch_action_client:
  assumes ok: "client_ok s" and c: "current_epoch s + 1 < kLocked" and a: "pending a (client_state s)"
    and r: "BumpCurrentEpoch_action act a s = Some (e, s')"
  shows "client_ok s'" "pending b (client_state s) \<Longrightarrow> pending b (client_state s')"
    and "thread_guard t g s \<Longrightarrow> thread_guard t g s'"
    and "registered s' \<subseteq> insert (current_epoch s, a) (registered s)"
    and "le_table s' = le_table s"
proof -
  let ?s = "snd (BumpCurrentEpoch act s)"
  from BumpCurrentEpoch_action_result [OF client_epoch [OF ok] c r] obtain j where
    j: "available ?s j" and s': "s' = place_action act j (current_epoch s) a ?s" .
  note b = BumpCurrentEpoch_client [OF ok c]
  let ?cb = "if occupied (drain_list ?s ! j) then ea_callback (drain_list ?s ! j) else None"
  have jl: "j < length (drain_list ?s)"
    using j client_epoch [OF b(1)] by (simp add: available_def epoch_ok_def drain_ok_def)
  have more: "client_state s' = (case ?cb of None \<Rightarrow> client_state ?s | Some x \<Rightarrow> act x (client_state ?s))"
    unfolding s' place_action_def perform_def by (auto split: option.split)
  have run: "\<exists>e. (e, x) \<in> registered ?s \<and> e \<le> safe_to_reclaim_epoch ?s" if "?cb = Some x" for x
  proof -
    have o: "occupied (drain_list ?s ! j)" "ea_callback (drain_list ?s ! j) = Some x"
      using that by (auto split: if_splits)
    have "ea_epoch (drain_list ?s ! j) \<le> safe_to_reclaim_epoch ?s"
      using j o(1) by (simp add: available_def occupied_def ready_def)
    moreover have "(ea_epoch (drain_list ?s ! j), x) \<in> registered ?s"
      using o nth_mem [OF jl] by (auto simp: registered_def)
    ultimately show ?thesis by blast
  qed
  have inv: "inv (client_state ?s)" using b(1) by (simp add: client_ok_def)
  have pend: "pending x (client_state s')" if x: "pending x (client_state ?s)" for x
    unfolding more using x run act_pending [OF inv] client_pending [OF b(1)]
    by (cases ?cb) auto
  have reg: "registered s' \<subseteq> insert (current_epoch s, a) (registered ?s)"
    unfolding s' by (rule registered_place)
  show "registered s' \<subseteq> insert (current_epoch s, a) (registered s)" using reg b(5) by blast
  show t: "le_table s' = le_table s" unfolding s' using b(4) by (simp add: place_action_def)
  show "pending b (client_state s) \<Longrightarrow> pending b (client_state s')" using pend b(2) by blast
  have "inv (client_state s')"
    unfolding more using inv run act_inv [OF inv] client_pending [OF b(1)] by (cases ?cb) auto
  moreover have "pending x (client_state s')" if "(e, x) \<in> registered s'" for e x
    using that reg pend client_pending [OF b(1)] b(2) [OF a] by blast
  ultimately show "client_ok s'"
    using BumpCurrentEpoch_action_ok [OF client_epoch [OF ok] c r] by (auto simp: client_ok_def)
  assume tg: "thread_guard t g s"
  note tg' = b(3) [OF tg]
  have tt: "1 \<le> t" "t \<le> num_entries ?s" "local_epoch ?s t \<noteq> kUnprotected" "guarded g (client_state ?s)"
    and h: "\<And>e x. (e, x) \<in> registered ?s \<Longrightarrow> harmless x g \<or> local_epoch ?s t \<le> e"
    using tg' by (auto simp: thread_guard_def)
  have safe: "harmless x g" if "?cb = Some x" for x
    using run [OF that] h protected_above_safe(1) [OF client_epoch [OF b(1)] tt(1-3)] by fastforce
  have "guarded g (client_state s')"
    unfolding more using tt(4) run safe act_guarded [OF inv] client_pending [OF b(1)] by (cases ?cb) auto
  moreover have "local_epoch ?s t \<le> current_epoch s"
    using tg client_epoch [OF ok] protected_above_safe(2) [of s t] b(4) by (simp add: thread_guard_def)
  moreover have "num_entries s' = num_entries ?s" unfolding s' by (simp add: place_action_def)
  ultimately show "thread_guard t g s'"
    using tt h reg t b(4) by (fastforce simp: thread_guard_def)
qed

text \<open>An operation of the client on its own state.\<close>

lemma client_update:
  assumes ok: "client_ok s" and i: "inv (f (client_state s))"
    and p: "\<And>e a. (e, a) \<in> registered s \<Longrightarrow> pending a (f (client_state s))"
  shows "client_ok (light_epoch.more_update f s)"
    and "thread_guard t g s \<Longrightarrow> guarded g (f (client_state s)) \<Longrightarrow> thread_guard t g (light_epoch.more_update f s)"
proof -
  have reg: "registered (light_epoch.more_update f s) = registered s" by (rule registered_cong) simp
  have "epoch_ok (light_epoch.more_update f s)"
    using client_epoch [OF ok] by (simp add: epoch_ok_def drain_ok_def table_ok_def)
  then show "client_ok (light_epoch.more_update f s)" using i p reg by (auto simp: client_ok_def)
  show "thread_guard t g s \<Longrightarrow> guarded g (f (client_state s)) \<Longrightarrow> thread_guard t g (light_epoch.more_update f s)"
    using reg by (simp add: thread_guard_def)
qed

end

end
