(* ===== verification/Hlog.thy ===== *)
theory Hlog
  imports Addresses Async Epoch_Client
begin

text \<open>
  The hybrid log allocator \<open>PersistentMemoryMalloc\<close> of \<open>persistent_memory_malloc.h\<close> and the
  page bookkeeping of \<open>recovery_status.h\<close>. A circular buffer of pages holds the tail of a
  log that grows without bound; pages are made read-only, flushed to the log file, closed
  and reused. A page is a function from offsets to cells of an arbitrary type, with one
  value that a cleared page holds everywhere. Page numbers are natural numbers: the code
  keeps them in 32 bits and asserts that they stay below \<open>2\<^sup>2\<^sup>3\<close>.

  Requests to the log file are accepted or rejected by the device; an accepted request stays
  in the list of writes until its completion runs the callback. The operations that move
  the read-only and head addresses register actions with the epoch, so their state is the
  epoch with the log as the client's part.
\<close>

section \<open>Page status\<close>

datatype flush_status = Flushed | InProgress
datatype close_status = Closed | Open

record flush_close_status =
  fs_flush :: flush_status
  fs_close :: close_status

definition FlushCloseStatus :: "flush_status \<Rightarrow> close_status \<Rightarrow> flush_close_status" where
  "FlushCloseStatus f c = \<lparr>fs_flush = f, fs_close = c\<rparr>"

definition status_Ready :: "flush_close_status \<Rightarrow> bool" where
  "status_Ready st \<longleftrightarrow> fs_flush st = Flushed \<and> fs_close st = Open"

record full_page_status =
  LastFlushedUntilAddress :: address
  fps_status :: flush_close_status

definition FullPageStatus :: full_page_status where
  "FullPageStatus = \<lparr>LastFlushedUntilAddress = 0, fps_status = FlushCloseStatus Flushed Closed\<rparr>"


section \<open>The state of the log\<close>

type_synonym 'c log_page = "nat \<Rightarrow> 'c"

record write_request =
  wr_page :: nat
  wr_until :: address
  wr_offset :: u64
  wr_written :: bool

record 'c hlog =
  buffer_size :: nat
  num_mutable_pages :: nat
  read_only_address :: address
  safe_read_only_address :: address
  head_address :: address
  safe_head_address :: address
  flushed_until_address :: address
  begin_address :: address
  tail_page_offset :: page_offset
  hl_pages :: "'c log_page option list"
  page_status :: "full_page_status list"
  hl_writes :: "write_request list"
  hl_file :: "u64 \<rightharpoonup> 'c log_page"

definition kPageSize :: u64 where "kPageSize = ucast kMaxOffset + 1"
definition kNumHeadPages :: nat where "kNumHeadPages = 4"

definition page_index :: "('c, 's) hlog_scheme \<Rightarrow> nat \<Rightarrow> nat" where
  "page_index h p = p mod buffer_size h"

definition hl_Page :: "('c, 's) hlog_scheme \<Rightarrow> nat \<Rightarrow> 'c log_page option" where
  "hl_Page h p = hl_pages h ! page_index h p"

definition PageStatus :: "('c, 's) hlog_scheme \<Rightarrow> nat \<Rightarrow> full_page_status" where
  "PageStatus h p = page_status h ! page_index h p"

definition set_Page :: "nat \<Rightarrow> 'c log_page option \<Rightarrow> ('c, 's) hlog_scheme \<Rightarrow> ('c, 's) hlog_scheme" where
  "set_Page p c h = h\<lparr>hl_pages := (hl_pages h)[page_index h p := c]\<rparr>"

definition set_PageStatus :: "nat \<Rightarrow> full_page_status \<Rightarrow> ('c, 's) hlog_scheme \<Rightarrow> ('c, 's) hlog_scheme" where
  "set_PageStatus p st h = h\<lparr>page_status := (page_status h)[page_index h p := st]\<rparr>"

definition set_status :: "nat \<Rightarrow> flush_close_status \<Rightarrow> ('c, 's) hlog_scheme \<Rightarrow> ('c, 's) hlog_scheme" where
  "set_status p st h = set_PageStatus p ((PageStatus h p)\<lparr>fps_status := st\<rparr>) h"

definition set_last_flushed :: "nat \<Rightarrow> address \<Rightarrow> ('c, 's) hlog_scheme \<Rightarrow> ('c, 's) hlog_scheme" where
  "set_last_flushed p a h = set_PageStatus p ((PageStatus h p)\<lparr>LastFlushedUntilAddress := a\<rparr>) h"

text \<open>\<open>std::memset(Page(page), 0, kPageSize)\<close>\<close>

definition clear_Page :: "'c \<Rightarrow> nat \<Rightarrow> ('c, 's) hlog_scheme \<Rightarrow> ('c, 's) hlog_scheme" where
  "clear_Page blank p h = set_Page p (Some (\<lambda>_. blank)) h"

definition AllocatePage :: "'c \<Rightarrow> nat \<Rightarrow> ('c, 's) hlog_scheme \<Rightarrow> ('c, 's) hlog_scheme" where
  "AllocatePage blank index h =
     set_status index (FlushCloseStatus Flushed Open) (clear_Page blank index h)"

definition GetTailAddress :: "('c, 's) hlog_scheme \<Rightarrow> address" where
  "GetTailAddress h =
     Address (po_page (tail_page_offset h)) (min kMaxOffset (ucast (po_offset (tail_page_offset h))))"

text \<open>Reading and writing the cell at an address of a page that is in the buffer.\<close>

definition hl_Get :: "('c, 's) hlog_scheme \<Rightarrow> address \<Rightarrow> 'c option" where
  "hl_Get h a = map_option (\<lambda>pg. pg (unat (addr_offset a))) (hl_Page h (unat (addr_page a)))"

definition hl_Put :: "address \<Rightarrow> 'c \<Rightarrow> ('c, 's) hlog_scheme \<Rightarrow> ('c, 's) hlog_scheme" where
  "hl_Put a v h = set_Page (unat (addr_page a))
     (map_option (\<lambda>pg. pg(unat (addr_offset a) := v)) (hl_Page h (unat (addr_page a)))) h"


section \<open>Construction\<close>

datatype hlog_error = LogSizeNotMultiple | LogTooLarge | TooFewPages | TooFewMutablePages

definition PersistentMemoryMalloc :: "'c \<Rightarrow> u64 \<Rightarrow> address \<Rightarrow> hlog_error + 'c hlog" where
  "PersistentMemoryMalloc blank log_size start_address =
     (if log_size mod kPageSize \<noteq> 0 then Inl LogSizeNotMultiple
      else if log_size mod kPageSize > 0xFFFFFFFF then Inl LogTooLarge
      else let size = unat (ucast (log_size div kPageSize) :: u32) in
        if size \<le> kNumHeadPages + 1 then Inl TooFewPages
        else let num_mutable = 2 in
          if num_mutable \<le> (1 :: nat) then Inl TooFewMutablePages
          else Inr (fold (AllocatePage blank) [0..<size]
            \<lparr>buffer_size = size, num_mutable_pages = num_mutable,
             read_only_address = start_address, safe_read_only_address = start_address,
             head_address = start_address, safe_head_address = start_address,
             flushed_until_address = start_address, begin_address = start_address,
             tail_page_offset = PageOffset_of_address start_address,
             hl_pages = replicate size None, page_status = replicate size FullPageStatus,
             hl_writes = [], hl_file = Map.empty\<rparr>))"

definition hl_Allocate :: "u32 \<Rightarrow> ('c, 's) hlog_scheme \<Rightarrow> address \<times> u32 \<times> ('c, 's) hlog_scheme" where
  "hl_Allocate num_slots h =
     (let (page_offset, tail) = po_Reserve num_slots (tail_page_offset h);
          h = h\<lparr>tail_page_offset := tail\<rparr>
      in if po_offset page_offset + ucast num_slots > kPageSize
         then (kInvalidAddress, po_page page_offset, h)
         else (Address_of_PageOffset page_offset, 0xFFFFFFFF, h))"

definition PersistentMemoryMalloc_new :: "'c \<Rightarrow> u64 \<Rightarrow> hlog_error + 'c hlog" where
  "PersistentMemoryMalloc_new blank log_size =
     (case PersistentMemoryMalloc blank log_size 0 of
        Inl err \<Rightarrow> Inl err
      | Inr h \<Rightarrow>
          let (_, _, h) = hl_Allocate 64 h;
              tail_address = Address_of_PageOffset (tail_page_offset h)
          in Inr (h\<lparr>begin_address := tail_address, read_only_address := tail_address,
                    safe_read_only_address := tail_address, head_address := tail_address,
                    safe_head_address := tail_address\<rparr>))"


section \<open>Moving the addresses\<close>

text \<open>
  \<open>MonotonicUpdate\<close> on a cell: whether it changed the cell, the value it found, and the new
  value of the cell.
\<close>

definition MonotonicUpdate :: "address \<Rightarrow> address \<Rightarrow> bool \<times> address \<times> address" where
  "MonotonicUpdate variable new_value =
     (let old_value = variable in
      if old_value < new_value
      then (case AtomicAddress_compare_exchange_strong variable old_value new_value of
              (ok, old_value, variable) \<Rightarrow> (ok, old_value, variable))
      else (False, old_value, variable))"

definition close_page :: "'c \<Rightarrow> nat \<Rightarrow> ('c, 's) hlog_scheme \<Rightarrow> ('c, 's) hlog_scheme" where
  "close_page blank idx h =
     (let old_status = fps_status (PageStatus h idx);
          h = set_status idx (FlushCloseStatus (fs_flush old_status) Closed) h
      in if fs_flush old_status = Flushed
         then set_status idx (FlushCloseStatus Flushed Open) (clear_Page blank idx h)
         else h)"

definition OnPagesClosed :: "'c \<Rightarrow> address \<Rightarrow> ('c, 's) hlog_scheme \<Rightarrow> ('c, 's) hlog_scheme" where
  "OnPagesClosed blank new_safe_head_address h =
     (let (updated, old_safe_head_address, v) = MonotonicUpdate (safe_head_address h) new_safe_head_address;
          h = h\<lparr>safe_head_address := v\<rparr>
      in if updated
         then fold (close_page blank)
                [unat (addr_page old_safe_head_address)..<unat (addr_page new_safe_head_address)] h
         else h)"

text \<open>
  \<open>AsyncFlushPages\<close>: one request per page from the first page to the one that holds the given
  address; the loop ends when the file does not accept a request.
\<close>

fun flush_loop :: "(write_request \<Rightarrow> status) \<Rightarrow> address \<Rightarrow> nat list \<Rightarrow> ('c, 's) hlog_scheme \<Rightarrow>
    status \<times> ('c, 's) hlog_scheme" where
  "flush_loop accept until_address [] h = (Ok, h)"
| "flush_loop accept until_address (flush_page # rest) h =
     (let page_end_address = Address (of_nat (flush_page + 1)) 0;
          old_status = fps_status (PageStatus h flush_page);
          h = set_status flush_page (FlushCloseStatus InProgress (fs_close old_status)) h;
          h = set_last_flushed flush_page 0 h;
          request = \<lparr>wr_page = flush_page, wr_until = addr_min page_end_address until_address,
                     wr_offset = kPageSize * of_nat flush_page, wr_written = False\<rparr>
      in if accept request \<noteq> Ok then (accept request, h)
         else flush_loop accept until_address rest (h\<lparr>hl_writes := hl_writes h @ [request]\<rparr>))"

definition flush_pages :: "nat \<Rightarrow> address \<Rightarrow> nat list" where
  "flush_pages start_page until_address =
     (let num_pages = unat (addr_page until_address) - start_page +
            (if addr_offset until_address > 0 then 1 else 0)
      in [start_page..<start_page + num_pages])"

definition AsyncFlushPages :: "(write_request \<Rightarrow> status) \<Rightarrow> nat \<Rightarrow> address \<Rightarrow> ('c, 's) hlog_scheme \<Rightarrow>
    status \<times> ('c, 's) hlog_scheme" where
  "AsyncFlushPages accept start_page until_address h =
     flush_loop accept until_address (flush_pages start_page until_address) h"

definition OnPagesMarkedReadOnly :: "(write_request \<Rightarrow> status) \<Rightarrow> address \<Rightarrow> ('c, 's) hlog_scheme \<Rightarrow>
    ('c, 's) hlog_scheme" where
  "OnPagesMarkedReadOnly accept new_safe_read_only_address h =
     (let (updated, old_safe_read_only_address, v) =
            MonotonicUpdate (safe_read_only_address h) new_safe_read_only_address;
          h = h\<lparr>safe_read_only_address := v\<rparr>
      in if updated
         then snd (AsyncFlushPages accept (unat (addr_page old_safe_read_only_address))
                     new_safe_read_only_address h)
         else h)"

partial_function (option) shift_flushed_loop :: "('c, 's) hlog_scheme \<Rightarrow> nat \<Rightarrow> address \<Rightarrow> bool \<Rightarrow>
    (address \<times> bool) option" where
  "shift_flushed_loop h page current update =
     (let page_last_flushed_address = LastFlushedUntilAddress (PageStatus h page) in
      if page_last_flushed_address \<ge> current
      then shift_flushed_loop h (page + 1) page_last_flushed_address True
      else Some (current, update))"

declare shift_flushed_loop.simps [code]

definition ShiftFlushedUntilAddress :: "('c, 's) hlog_scheme \<Rightarrow> ('c, 's) hlog_scheme option" where
  "ShiftFlushedUntilAddress h =
     (case shift_flushed_loop h (unat (addr_page (flushed_until_address h))) (flushed_until_address h) False of
        None \<Rightarrow> None
      | Some (current, update) \<Rightarrow>
          Some (if update
                then h\<lparr>flushed_until_address := snd (snd (MonotonicUpdate (flushed_until_address h) current))\<rparr>
                else h))"

text \<open>The callback of a write; its result is only printed.\<close>

definition flush_callback :: "'c \<Rightarrow> write_request \<Rightarrow> status \<Rightarrow> ('c, 's) hlog_scheme \<Rightarrow>
    ('c, 's) hlog_scheme option" where
  "flush_callback blank r result h =
     (let h = set_last_flushed (wr_page r) (wr_until r) h;
          old_status = fps_status (PageStatus h (wr_page r));
          h = set_status (wr_page r) (FlushCloseStatus Flushed (fs_close old_status)) h;
          h = (if fs_close old_status = Closed
               then set_status (wr_page r) (FlushCloseStatus Flushed Open) (clear_Page blank (wr_page r) h)
               else h)
      in ShiftFlushedUntilAddress h)"

datatype hlog_action = PagesClosed address | PagesMarkedReadOnly address

fun hlog_act :: "(write_request \<Rightarrow> status) \<Rightarrow> 'c \<Rightarrow> hlog_action \<Rightarrow> ('c, 's) hlog_scheme \<Rightarrow>
    ('c, 's) hlog_scheme" where
  "hlog_act accept blank (PagesClosed a) h = OnPagesClosed blank a h"
| "hlog_act accept blank (PagesMarkedReadOnly a) h = OnPagesMarkedReadOnly accept a h"


section \<open>Operations that use the epoch\<close>

text \<open>
  The actions go to the epoch through an injection into its type of actions; \<open>act\<close> runs them.
  The value None is that registering an action does not return.
\<close>

type_synonym ('a, 'c, 's) log_state = "('a, ('c, 's) hlog_scheme) light_epoch_scheme"

definition PageAlignedShiftHeadAddress :: "('a \<Rightarrow> ('c, 's) hlog_scheme \<Rightarrow> ('c, 's) hlog_scheme) \<Rightarrow>
    (hlog_action \<Rightarrow> 'a) \<Rightarrow> nat \<Rightarrow> ('a, 'c, 's) log_state \<Rightarrow> ('a, 'c, 's) log_state option" where
  "PageAlignedShiftHeadAddress act reg tail_page s =
     (let h = client_state s in
      if tail_page \<le> buffer_size h - kNumHeadPages then Some s
      else
        let desired_head_address = Address (of_nat (tail_page - (buffer_size h - kNumHeadPages))) 0;
            desired_head_address =
              (if flushed_until_address h < desired_head_address
               then Address (addr_page (flushed_until_address h)) 0 else desired_head_address);
            (updated, _, v) = MonotonicUpdate (head_address h) desired_head_address;
            s = light_epoch.more_update (\<lambda>h. h\<lparr>head_address := v\<rparr>) s
        in if updated
           then map_option snd (BumpCurrentEpoch_action act (reg (PagesClosed desired_head_address)) s)
           else Some s)"

definition PageAlignedShiftReadOnlyAddress :: "('a \<Rightarrow> ('c, 's) hlog_scheme \<Rightarrow> ('c, 's) hlog_scheme) \<Rightarrow>
    (hlog_action \<Rightarrow> 'a) \<Rightarrow> nat \<Rightarrow> ('a, 'c, 's) log_state \<Rightarrow> ('a, 'c, 's) log_state option" where
  "PageAlignedShiftReadOnlyAddress act reg tail_page s =
     (let h = client_state s in
      if tail_page \<le> num_mutable_pages h then Some s
      else
        let desired_read_only_address = Address (of_nat (tail_page - num_mutable_pages h)) 0;
            (updated, _, v) = MonotonicUpdate (read_only_address h) desired_read_only_address;
            s = light_epoch.more_update (\<lambda>h. h\<lparr>read_only_address := v\<rparr>) s
        in if updated
           then map_option snd
                  (BumpCurrentEpoch_action act (reg (PagesMarkedReadOnly desired_read_only_address)) s)
           else Some s)"

definition shift_addresses :: "('a \<Rightarrow> ('c, 's) hlog_scheme \<Rightarrow> ('c, 's) hlog_scheme) \<Rightarrow>
    (hlog_action \<Rightarrow> 'a) \<Rightarrow> nat \<Rightarrow> ('a, 'c, 's) log_state \<Rightarrow> ('a, 'c, 's) log_state option" where
  "shift_addresses act reg tail_page s =
     (case PageAlignedShiftReadOnlyAddress act reg tail_page s of
        None \<Rightarrow> None | Some s \<Rightarrow> PageAlignedShiftHeadAddress act reg tail_page s)"

definition hl_NewPage :: "('a \<Rightarrow> ('c, 's) hlog_scheme \<Rightarrow> ('c, 's) hlog_scheme) \<Rightarrow>
    (hlog_action \<Rightarrow> 'a) \<Rightarrow> 'c \<Rightarrow> nat \<Rightarrow> ('a, 'c, 's) log_state \<Rightarrow> (bool \<times> ('a, 'c, 's) log_state) option" where
  "hl_NewPage act reg blank old_page s =
     (let h = client_state s in
      if old_page + 2 \<ge> unat (addr_page (safe_head_address h)) + buffer_size h
      then map_option (\<lambda>s. (False, s)) (shift_addresses act reg (old_page + 1) s)
      else if \<not> status_Ready (fps_status (PageStatus h (old_page + 1)))
      then map_option (\<lambda>s. (False, s)) (shift_addresses act reg (old_page + 1) s)
      else
        let (retval, won_cas, tail) =
              po_NewPage (of_nat old_page) (tail_page_offset h) (tail_page_offset h);
            s = light_epoch.more_update (\<lambda>h. h\<lparr>tail_page_offset := tail\<rparr>) s
        in if won_cas
           then map_option
                  (\<lambda>s. (retval, if hl_Page (client_state s) (old_page + 2) = None
                                then light_epoch.more_update (AllocatePage blank (old_page + 2)) s else s))
                  (shift_addresses act reg (old_page + 1) s)
           else Some (retval, s))"

definition ShiftReadOnlyToTail :: "('a \<Rightarrow> ('c, 's) hlog_scheme \<Rightarrow> ('c, 's) hlog_scheme) \<Rightarrow>
    (hlog_action \<Rightarrow> 'a) \<Rightarrow> ('a, 'c, 's) log_state \<Rightarrow> (address \<times> ('a, 'c, 's) log_state) option" where
  "ShiftReadOnlyToTail act reg s =
     (let h = client_state s;
          tail_address = GetTailAddress h;
          (updated, _, v) = MonotonicUpdate (read_only_address h) tail_address;
          s = light_epoch.more_update (\<lambda>h. h\<lparr>read_only_address := v\<rparr>) s
      in if updated
         then map_option (\<lambda>(_, s). (tail_address, s))
                (BumpCurrentEpoch_action act (reg (PagesMarkedReadOnly tail_address)) s)
         else Some (tail_address, s))"

text \<open>\<open>Truncate\<close>: the file offset before which the log file is cut.\<close>

definition Truncate_offset :: "u64 \<Rightarrow> ('c, 's) hlog_scheme \<Rightarrow> u64" where
  "Truncate_offset sector_size h = begin_address h AND NOT (sector_size - 1)"

definition GetFileReadBoundaries :: "u64 \<Rightarrow> address \<Rightarrow> u32 \<Rightarrow> u64 \<times> u64 \<times> u32 \<times> u32" where
  "GetFileReadBoundaries sector_size read_offset read_length =
     (let alignment_mask = sector_size - 1;
          begin_read = read_offset AND NOT alignment_mask;
          end_read = (read_offset + ucast read_length + alignment_mask) AND NOT alignment_mask;
          offset = ucast (read_offset AND alignment_mask);
          len = ucast (end_read - begin_read)
      in (begin_read, end_read, offset, len))"

text \<open>\<open>AsyncGetFromDisk\<close>: the request to the file and the fields of the buffer it reads into.\<close>

record disk_read =
  dr_begin :: u64
  dr_length :: u32
  valid_offset :: u32
  available_bytes :: u32
  required_bytes :: u32

definition hl_AsyncGetFromDisk :: "u64 \<Rightarrow> address \<Rightarrow> u32 \<Rightarrow> disk_read" where
  "hl_AsyncGetFromDisk sector_size a num_records =
     (let (begin_read, end_read, offset, len) = GetFileReadBoundaries sector_size a num_records
      in \<lparr>dr_begin = begin_read, dr_length = len, valid_offset = offset,
          available_bytes = len - offset, required_bytes = num_records\<rparr>)"

end
