(* ===== verification/Hlog_Invariant.thy ===== *)
theory Hlog_Invariant
  imports Hlog
begin

text \<open>
  The hybrid log implements an append-only memory. The log is extended by the contents that
  were ever written, as a function of page and offset, which no operation reads. The
  invariant says that the pages of the buffer, from the safe head address on, and the file,
  below the flushed-until address, agree with it. It is preserved by every operation, by the
  actions the epoch runs, and by the completions of the writes, in any order, as long as no
  page is flushed again while a write of it is in flight and the first page completes first.
\<close>

section \<open>Addresses as numbers\<close>

abbreviation pg :: "address \<Rightarrow> nat" where "pg a \<equiv> unat (addr_page a)"
abbreviation off :: "address \<Rightarrow> nat" where "off a \<equiv> unat (addr_offset a)"

lemma addr_nat: "unat a < 2 ^ 48 \<Longrightarrow> unat a = 2 ^ 25 * pg a + off a"
  using unat_addr [of a] by (simp add: addr_reserved_0_iff [symmetric])

lemma off_less: "off a < 2 ^ 25"
  by (rule addr_offset_less)

lemma pg_less: "pg a < 2 ^ 23"
  by (rule addr_page_less)

lemma unat_of_nat_page: "p < 2 ^ 23 \<Longrightarrow> unat (of_nat p :: u32) = p"
  by (simp add: unat_of_nat_small)

lemma page_address:
  assumes "p < 2 ^ 23"
  shows "unat (Address (of_nat p) 0) = 2 ^ 25 * p" "pg (Address (of_nat p) 0) = p" "off (Address (of_nat p) 0) = 0"
proof -
  have u: "unat (of_nat p :: u32) = p" using assms by (rule unat_of_nat_page)
  show "unat (Address (of_nat p) 0) = 2 ^ 25 * p" using unat_Address [of "of_nat p" 0] assms by (simp add: u)
  show "pg (Address (of_nat p) 0) = p" using page_Address [of "of_nat p" 0] assms by (simp add: u)
  show "off (Address (of_nat p) 0) = 0" using offset_Address [of 0 "of_nat p"] by simp
qed

lemma page_start:
  "unat (Address (addr_page a) 0) = 2 ^ 25 * pg a" "pg (Address (addr_page a) 0) = pg a"
  "off (Address (addr_page a) 0) = 0"
  using unat_Address [of "addr_page a" 0] pg_less [of a] page_Address [of "addr_page a" 0]
    offset_Address [of 0 "addr_page a"] by simp_all

lemma pg_mono:
  assumes "unat a \<le> unat b" "unat b < 2 ^ 48"
  shows "pg a \<le> pg b"
proof -
  have "2 ^ 25 * pg a + off a \<le> 2 ^ 25 * pg b + off b" using addr_nat [of a] addr_nat [of b] assms by simp
  then have "2 ^ 25 * pg a < 2 ^ 25 * (pg b + 1)" using off_less [of b] by (simp add: algebra_simps)
  then show ?thesis by simp
qed

lemma mult_less_pg: "unat a < 2 ^ 48 \<Longrightarrow> unat a < 2 ^ 25 * p \<Longrightarrow> pg a < p"
proof -
  assume a: "unat a < 2 ^ 48" "unat a < 2 ^ 25 * p"
  then have "2 ^ 25 * pg a < 2 ^ 25 * p" using addr_nat [OF a(1)] by simp
  then show ?thesis by simp
qed

lemma mult_le_pg: "unat a < 2 ^ 48 \<Longrightarrow> 2 ^ 25 * p \<le> unat a \<Longrightarrow> p \<le> pg a"
proof -
  assume a: "unat a < 2 ^ 48" "2 ^ 25 * p \<le> unat a"
  then have "2 ^ 25 * p < 2 ^ 25 * (pg a + 1)" using addr_nat [OF a(1)] off_less [of a] by (simp add: algebra_simps)
  then show ?thesis by simp
qed

lemma MonotonicUpdate_eq:
  "MonotonicUpdate v n = (v < n, v, if v < n then n else v)"
  by (simp add: MonotonicUpdate_def AtomicAddress_compare_exchange_strong_def compare_exchange_def)

definition file_offset :: "nat \<Rightarrow> u64" where
  "file_offset p = kPageSize * of_nat p"

lemma file_offset_inj:
  assumes "p < 2 ^ 23" "q < 2 ^ 23" "file_offset p = file_offset q"
  shows "p = q"
proof -
  have k: "unat kPageSize = 2 ^ 25" by (simp add: kPageSize_def kMaxOffset_def kOffsetBits_def)
  have "unat (file_offset r) = 2 ^ 25 * r" if "r < 2 ^ 23" for r
  proof -
    have "unat (of_nat r :: u64) = r" using that by (intro unat_of_nat_small) simp
    then show ?thesis using that by (simp add: file_offset_def unat_word_ariths k)
  qed
  then show ?thesis using assms by (metis mult_left_cancel power_not_zero zero_neq_numeral)
qed


section \<open>The window of pages in the buffer\<close>

record 'c glog = "'c hlog" +
  g_log :: "nat \<Rightarrow> 'c log_page"
  g_ok :: bool

definition window :: "nat \<Rightarrow> nat \<Rightarrow> nat set" where
  "window b n = {b..<b + n}"

lemma window_mod_inj:
  assumes "p \<in> window b n" "q \<in> window b n" "p mod n = q mod n"
  shows "p = q"
proof (rule ccontr)
  assume "p \<noteq> q"
  have *: False if "p \<in> window b n" "q \<in> window b n" "p mod n = q mod n" "p < q" for p q
  proof -
    have "n dvd q - p" using that(3,4) by (metis mod_eq_dvd_iff_nat order_less_imp_le)
    moreover have "q - p < n" "0 < q - p" using that by (auto simp: window_def)
    ultimately show False by (simp add: nat_dvd_not_less)
  qed
  from \<open>p \<noteq> q\<close> show False using * [OF assms] * [OF assms(2,1) assms(3) [symmetric]] by (cases "p < q") auto
qed

definition sized :: "('c, 's) hlog_scheme \<Rightarrow> bool" where
  "sized h \<longleftrightarrow> 6 \<le> buffer_size h \<and> length (hl_pages h) = buffer_size h \<and>
     length (page_status h) = buffer_size h \<and> (\<forall>c \<in> set (hl_pages h). c \<noteq> None)"

lemma page_index_less: "sized h \<Longrightarrow> page_index h p < buffer_size h"
  by (simp add: sized_def page_index_def)

lemma page_index_inj:
  "p \<in> window b (buffer_size h) \<Longrightarrow> q \<in> window b (buffer_size h) \<Longrightarrow> page_index h p = page_index h q \<Longrightarrow> p = q"
  unfolding page_index_def by (rule window_mod_inj)

named_theorems hlog_simps \<open>reading a page or its status after writing one\<close>

lemma hl_Page_set_Page [hlog_simps]:
  assumes "sized h" "p \<in> window b (buffer_size h)" "q \<in> window b (buffer_size h)"
  shows "hl_Page (set_Page p c h) q = (if q = p then c else hl_Page h q)"
  using assms page_index_less [OF assms(1), of p] page_index_inj [OF assms(2,3)]
  by (auto simp: hl_Page_def set_Page_def page_index_def sized_def nth_list_update_if)

lemma PageStatus_set [hlog_simps]:
  assumes "sized h" "p \<in> window b (buffer_size h)" "q \<in> window b (buffer_size h)"
  shows "PageStatus (set_PageStatus p c h) q = (if q = p then c else PageStatus h q)"
  using assms page_index_less [OF assms(1), of p] page_index_inj [OF assms(2,3)]
  by (auto simp: PageStatus_def set_PageStatus_def page_index_def sized_def nth_list_update_if)

lemma PageStatus_set_same:
  assumes "sized h"
  shows "PageStatus (set_PageStatus p c h) p = c"
  using page_index_less [OF assms, of p] assms by (simp add: PageStatus_def set_PageStatus_def page_index_def sized_def)

lemma hl_Page_set_status [simp]: "hl_Page (set_PageStatus p c h) q = hl_Page h q"
  by (simp add: hl_Page_def set_PageStatus_def page_index_def)

lemma PageStatus_set_Page [simp]: "PageStatus (set_Page p c h) q = PageStatus h q"
  by (simp add: PageStatus_def set_Page_def page_index_def)

lemma set_PageStatus_fields [simp]:
  "buffer_size (set_PageStatus p st h) = buffer_size h" "tail_page_offset (set_PageStatus p st h) = tail_page_offset h"
  "hl_writes (set_PageStatus p st h) = hl_writes h" "hl_file (set_PageStatus p st h) = hl_file h"
  "flushed_until_address (set_PageStatus p st h) = flushed_until_address h"
  "safe_read_only_address (set_PageStatus p st h) = safe_read_only_address h"
  "read_only_address (set_PageStatus p st h) = read_only_address h"
  "head_address (set_PageStatus p st h) = head_address h"
  "safe_head_address (set_PageStatus p st h) = safe_head_address h"
  "begin_address (set_PageStatus p st h) = begin_address h"
  "num_mutable_pages (set_PageStatus p st h) = num_mutable_pages h"
  "hlog.more (set_PageStatus p st h) = hlog.more h"
  by (simp_all add: set_PageStatus_def)

lemma set_Page_fields [simp]:
  "buffer_size (set_Page p c h) = buffer_size h" "tail_page_offset (set_Page p c h) = tail_page_offset h"
  "hl_writes (set_Page p c h) = hl_writes h" "hl_file (set_Page p c h) = hl_file h"
  "flushed_until_address (set_Page p c h) = flushed_until_address h"
  "safe_read_only_address (set_Page p c h) = safe_read_only_address h"
  "read_only_address (set_Page p c h) = read_only_address h"
  "head_address (set_Page p c h) = head_address h"
  "safe_head_address (set_Page p c h) = safe_head_address h"
  "begin_address (set_Page p c h) = begin_address h"
  "num_mutable_pages (set_Page p c h) = num_mutable_pages h"
  "hlog.more (set_Page p c h) = hlog.more h"
  by (simp_all add: set_Page_def)

lemma set_ghost [simp]:
  "g_log (set_PageStatus p st z) = g_log z" "g_ok (set_PageStatus p st z) = g_ok z"
  "g_log (set_Page p c z) = g_log z" "g_ok (set_Page p c z) = g_ok z"
  by (simp_all add: set_PageStatus_def set_Page_def)

lemma sized_set [simp]:
  "sized (set_PageStatus p st h) = sized h" "sized h \<Longrightarrow> c \<noteq> None \<Longrightarrow> sized (set_Page p c h)"
  by (auto simp: sized_def set_PageStatus_def set_Page_def dest!: set_update_subset_insert [THEN subsetD])

lemma hl_Page_upd [simp]:
  "hl_Page (h\<lparr>read_only_address := x\<rparr>) p = hl_Page h p" "hl_Page (h\<lparr>safe_read_only_address := x\<rparr>) p = hl_Page h p"
  "hl_Page (h\<lparr>head_address := x\<rparr>) p = hl_Page h p" "hl_Page (h\<lparr>safe_head_address := x\<rparr>) p = hl_Page h p"
  "hl_Page (h\<lparr>flushed_until_address := x\<rparr>) p = hl_Page h p" "hl_Page (h\<lparr>tail_page_offset := y\<rparr>) p = hl_Page h p"
  "hl_Page (h\<lparr>hl_writes := w\<rparr>) p = hl_Page h p" "hl_Page (h\<lparr>hl_file := f\<rparr>) p = hl_Page h p"
  by (simp_all add: hl_Page_def page_index_def)

lemma PageStatus_upd [simp]:
  "PageStatus (h\<lparr>read_only_address := x\<rparr>) p = PageStatus h p" "PageStatus (h\<lparr>safe_read_only_address := x\<rparr>) p = PageStatus h p"
  "PageStatus (h\<lparr>head_address := x\<rparr>) p = PageStatus h p" "PageStatus (h\<lparr>safe_head_address := x\<rparr>) p = PageStatus h p"
  "PageStatus (h\<lparr>flushed_until_address := x\<rparr>) p = PageStatus h p" "PageStatus (h\<lparr>tail_page_offset := y\<rparr>) p = PageStatus h p"
  "PageStatus (h\<lparr>hl_writes := w\<rparr>) p = PageStatus h p" "PageStatus (h\<lparr>hl_file := f\<rparr>) p = PageStatus h p"
  by (simp_all add: PageStatus_def page_index_def)

lemma sized_upd [simp]:
  "sized (h\<lparr>read_only_address := x\<rparr>) = sized h" "sized (h\<lparr>safe_read_only_address := x\<rparr>) = sized h"
  "sized (h\<lparr>head_address := x\<rparr>) = sized h" "sized (h\<lparr>safe_head_address := x\<rparr>) = sized h"
  "sized (h\<lparr>flushed_until_address := x\<rparr>) = sized h" "sized (h\<lparr>tail_page_offset := y\<rparr>) = sized h"
  "sized (h\<lparr>hl_writes := w\<rparr>) = sized h" "sized (h\<lparr>hl_file := f\<rparr>) = sized h"
  by (simp_all add: sized_def)



section \<open>The invariant\<close>

abbreviation tail_page :: "('c, 's) hlog_scheme \<Rightarrow> nat" where
  "tail_page h \<equiv> unat (po_page (tail_page_offset h))"

abbreviation tail_offset :: "('c, 's) hlog_scheme \<Rightarrow> nat" where
  "tail_offset h \<equiv> unat (po_offset (tail_page_offset h))"

abbreviation last_flushed :: "('c, 's) hlog_scheme \<Rightarrow> nat \<Rightarrow> nat" where
  "last_flushed h p \<equiv> unat (LastFlushedUntilAddress (PageStatus h p))"

abbreviation flush_of :: "('c, 's) hlog_scheme \<Rightarrow> nat \<Rightarrow> flush_status" where
  "flush_of h p \<equiv> fs_flush (fps_status (PageStatus h p))"

abbreviation close_of :: "('c, 's) hlog_scheme \<Rightarrow> nat \<Rightarrow> close_status" where
  "close_of h p \<equiv> fs_close (fps_status (PageStatus h p))"

text \<open>The order of the addresses, and the room in the buffer.\<close>

definition order :: "('c, 's) hlog_scheme \<Rightarrow> bool" where
  "order h \<longleftrightarrow> sized h \<and> num_mutable_pages h = 2 \<and>
     unat (safe_head_address h) \<le> unat (head_address h) \<and> unat (head_address h) < 2 ^ 48 \<and>
     pg (head_address h) \<le> pg (flushed_until_address h) \<and>
     (off (head_address h) = 0 \<or> head_address h = begin_address h) \<and>
     unat (flushed_until_address h) \<le> unat (safe_read_only_address h) \<and>
     unat (safe_read_only_address h) \<le> unat (read_only_address h) \<and>
     unat (read_only_address h) \<le> 2 ^ 25 * tail_page h + min (tail_offset h) (2 ^ 25 - 1) \<and>
     tail_page h + 1 < 2 ^ 23 \<and> tail_offset h < 2 ^ 32 \<and>
     tail_page h + 1 < pg (safe_head_address h) + buffer_size h \<and>
     (\<forall>st \<in> set (page_status h). unat (LastFlushedUntilAddress st) \<le> unat (safe_read_only_address h)) \<and>
     (\<forall>r \<in> set (hl_writes h). unat (wr_until r) \<le> unat (safe_read_only_address h))"

definition durable :: "'c glog \<Rightarrow> nat \<Rightarrow> nat \<Rightarrow> bool" where
  "durable z p n \<longleftrightarrow> (\<forall>o' < n. map_option (\<lambda>c. c o') (hl_file z (file_offset p)) = Some (g_log z p o'))"

definition last_good :: "'c glog \<Rightarrow> nat \<Rightarrow> nat \<Rightarrow> bool" where
  "last_good z p l \<longleftrightarrow> l \<le> 2 ^ 25 * (p + 1) \<and> (l \<le> 2 ^ 25 * p \<longrightarrow> l = 0 \<or> l + 2 ^ 25 \<le> 2 ^ 25 * p) \<and>
     (2 ^ 25 * p < l \<longrightarrow> durable z p (l - 2 ^ 25 * p) \<and>
        (l < 2 ^ 25 * (p + 1) \<longrightarrow> l = unat (safe_read_only_address z)))"

definition page_good :: "'c glog \<Rightarrow> nat \<Rightarrow> bool" where
  "page_good z p \<longleftrightarrow> hl_Page z p = Some (g_log z p) \<and> close_of z p = Open \<and>
     (flush_of z p = InProgress \<longrightarrow> pg (flushed_until_address z) \<le> p \<and> last_flushed z p = 0) \<and>
     last_good z p (last_flushed z p)"

definition write_good :: "'c glog \<Rightarrow> write_request \<Rightarrow> bool" where
  "write_good z r \<longleftrightarrow> pg (flushed_until_address z) \<le> wr_page r \<and> last_flushed z (wr_page r) = 0 \<and>
     2 ^ 25 * wr_page r < unat (wr_until r) \<and> unat (wr_until r) \<le> 2 ^ 25 * (wr_page r + 1) \<and>
     (unat (wr_until r) < 2 ^ 25 * (wr_page r + 1) \<longrightarrow> unat (wr_until r) = unat (safe_read_only_address z)) \<and>
     wr_offset r = file_offset (wr_page r) \<and>
     (wr_written r \<longrightarrow> durable z (wr_page r) (unat (wr_until r) - 2 ^ 25 * wr_page r))"

definition good :: "'c \<Rightarrow> nat \<Rightarrow> 'c glog \<Rightarrow> bool" where
  "good blank b z \<longleftrightarrow> (\<forall>p \<in> window b (buffer_size z). page_good z p) \<and>
     (\<forall>p > tail_page z. g_log z p = (\<lambda>_. blank)) \<and>
     (\<forall>r \<in> set (hl_writes z). write_good z r) \<and> distinct (map wr_page (hl_writes z)) \<and>
     (\<forall>p. durable z p (min (2 ^ 25) (unat (flushed_until_address z) - 2 ^ 25 * p)))"

definition log_inv :: "'c \<Rightarrow> 'c glog \<Rightarrow> bool" where
  "log_inv blank z \<longleftrightarrow> order z \<and> (g_ok z \<longrightarrow> good blank (pg (safe_head_address z)) z)"

lemma orderD:
  assumes "order h"
  shows "sized h" "num_mutable_pages h = 2"
    "unat (safe_head_address h) \<le> unat (head_address h)" "unat (head_address h) < 2 ^ 48"
    "pg (head_address h) \<le> pg (flushed_until_address h)"
    "off (head_address h) = 0 \<or> head_address h = begin_address h"
    "unat (flushed_until_address h) \<le> unat (safe_read_only_address h)"
    "unat (safe_read_only_address h) \<le> unat (read_only_address h)"
    "unat (read_only_address h) \<le> 2 ^ 25 * tail_page h + min (tail_offset h) (2 ^ 25 - 1)"
    "tail_page h + 1 < 2 ^ 23" "tail_offset h < 2 ^ 32"
    "tail_page h + 1 < pg (safe_head_address h) + buffer_size h"
    "\<And>st. st \<in> set (page_status h) \<Longrightarrow> unat (LastFlushedUntilAddress st) \<le> unat (safe_read_only_address h)"
    "\<And>r. r \<in> set (hl_writes h) \<Longrightarrow> unat (wr_until r) \<le> unat (safe_read_only_address h)"
  using assms by (auto simp: order_def)

lemma read_only_bound:
  assumes "order h"
  shows "unat (read_only_address h) < 2 ^ 48" "pg (read_only_address h) \<le> tail_page h"
proof -
  have "unat (read_only_address h) \<le> 2 ^ 25 * tail_page h + (2 ^ 25 - 1)"
    using orderD(9) [OF assms] by (meson add_left_mono le_trans min.cobounded2)
  then have *: "unat (read_only_address h) < 2 ^ 25 * (tail_page h + 1)" by (simp add: algebra_simps)
  also have "\<dots> < 2 ^ 25 * 2 ^ 23" using orderD(10) [OF assms] by (intro mult_strict_left_mono) simp_all
  finally show b: "unat (read_only_address h) < 2 ^ 48" by simp
  show "pg (read_only_address h) \<le> tail_page h" using mult_less_pg [OF b *] by simp
qed

text \<open>The page order that the addresses have.\<close>

lemma page_order:
  assumes "order h"
  shows "pg (safe_head_address h) \<le> pg (head_address h)"
    "pg (flushed_until_address h) \<le> pg (safe_read_only_address h)"
    "pg (safe_read_only_address h) \<le> tail_page h"
    "unat (flushed_until_address h) < 2 ^ 48" "unat (safe_read_only_address h) < 2 ^ 48"
proof -
  note o = orderD [OF assms] and r = read_only_bound [OF assms]
  show b: "unat (safe_read_only_address h) < 2 ^ 48" using o(8) r(1) by simp
  show "unat (flushed_until_address h) < 2 ^ 48" using o(7) b by simp
  show "pg (safe_head_address h) \<le> pg (head_address h)" by (rule pg_mono [OF o(3,4)])
  show "pg (flushed_until_address h) \<le> pg (safe_read_only_address h)" by (rule pg_mono [OF o(7) b])
  show "pg (safe_read_only_address h) \<le> tail_page h" using pg_mono [OF o(8) r(1)] r(2) by simp
qed

text \<open>The parts of the state the invariant depends on.\<close>

lemma durable_cong:
  "hl_file z' = hl_file z \<Longrightarrow> g_log z' = g_log z \<Longrightarrow> durable z' = durable z"
  by (simp add: durable_def fun_eq_iff)

lemma durable_mono: "durable z p n \<Longrightarrow> m \<le> n \<Longrightarrow> durable z p m"
  by (auto simp: durable_def)

lemma last_good_cong:
  "hl_file z' = hl_file z \<Longrightarrow> g_log z' = g_log z \<Longrightarrow> safe_read_only_address z' = safe_read_only_address z \<Longrightarrow>
   last_good z' = last_good z"
  by (simp add: last_good_def fun_eq_iff durable_def)

lemma goodD:
  assumes "good blank b z"
  shows "p \<in> window b (buffer_size z) \<Longrightarrow> page_good z p" "p > tail_page z \<Longrightarrow> g_log z p = (\<lambda>_. blank)"
    "r \<in> set (hl_writes z) \<Longrightarrow> write_good z r" "distinct (map wr_page (hl_writes z))"
    "durable z p (min (2 ^ 25) (unat (flushed_until_address z) - 2 ^ 25 * p))"
  using assms by (auto simp: good_def)


section \<open>Closing pages\<close>

lemma page_index_wrap: "page_index h (p + buffer_size h) = page_index h p"
  by (simp add: page_index_def)

lemma close_page_fields [simp]:
  "buffer_size (close_page blank p h) = buffer_size h" "tail_page_offset (close_page blank p h) = tail_page_offset h"
  "hl_writes (close_page blank p h) = hl_writes h" "hl_file (close_page blank p h) = hl_file h"
  "flushed_until_address (close_page blank p h) = flushed_until_address h"
  "safe_read_only_address (close_page blank p h) = safe_read_only_address h"
  "read_only_address (close_page blank p h) = read_only_address h"
  "head_address (close_page blank p h) = head_address h"
  "safe_head_address (close_page blank p h) = safe_head_address h"
  "begin_address (close_page blank p h) = begin_address h"
  "num_mutable_pages (close_page blank p h) = num_mutable_pages h"
  "hlog.more (close_page blank p h) = hlog.more h"
  by (simp_all add: close_page_def Let_def set_status_def clear_Page_def)

lemma close_page_ghost [simp]:
  "g_log (close_page blank p z) = g_log z" "g_ok (close_page blank p z) = g_ok z"
  by (simp_all add: close_page_def Let_def set_status_def clear_Page_def)

lemma sized_close_page [simp]: "sized h \<Longrightarrow> sized (close_page blank p h)"
  by (simp add: close_page_def Let_def set_status_def clear_Page_def)

lemma close_page_at:
  assumes s: "sized h" and p: "p \<in> window b (buffer_size h)" and q: "q \<in> window b (buffer_size h)"
  shows "hl_Page (close_page blank p h) q = (if q = p \<and> flush_of h p = Flushed then Some (\<lambda>_. blank) else hl_Page h q)"
    and "PageStatus (close_page blank p h) q =
      (if q = p then (PageStatus h p)\<lparr>fps_status :=
         if flush_of h p = Flushed then FlushCloseStatus Flushed Open else FlushCloseStatus (flush_of h p) Closed\<rparr>
       else PageStatus h q)"
  using s p q
  by (simp_all add: close_page_def Let_def set_status_def clear_Page_def hlog_simps PageStatus_set [OF _ p]
      hl_Page_set_Page [OF _ p] PageStatus_set_same)


lemma window_step: "p \<in> window (Suc b) n \<longleftrightarrow> p \<noteq> b \<and> p \<in> window b n \<or> p = b + n \<and> 0 < n"
  by (auto simp: window_def)

lemma close_page_good:
  assumes s: "sized z" and g: "good blank b z" and f: "flush_of z b = Flushed" and t: "tail_page z < b + buffer_size z"
  shows "good blank (Suc b) (close_page blank b z)"
proof -
  let ?n = "buffer_size z" and ?z = "close_page blank b z"
  have n: "6 \<le> ?n" using s by (simp add: sized_def)
  have b: "b \<in> window b ?n" using n by (simp add: window_def)
  note at = close_page_at [OF s b, of _ blank]
  have dur: "durable ?z = durable z" by (rule durable_cong) simp_all
  have lastg: "last_good ?z = last_good z" by (rule last_good_cong) simp_all
  have lf: "last_flushed ?z q = last_flushed z q" if "q \<in> window b ?n" for q using at(2) [OF that] by simp
  have "page_good ?z p" if p: "p \<in> window (Suc b) ?n" for p
  proof (cases "p = b + ?n")
    case True
    have idx: "hl_Page ?z p = hl_Page ?z b" "PageStatus ?z p = PageStatus ?z b"
      using page_index_wrap [of ?z b] by (simp_all add: hl_Page_def PageStatus_def True)
    have l: "last_flushed z b \<le> 2 ^ 25 * (b + 1)"
      using goodD(1) [OF g b] by (simp add: page_good_def last_good_def)
    have "last_flushed z b + 2 ^ 25 \<le> 2 ^ 25 * (b + 2)" using l by (simp add: algebra_simps)
    also have "\<dots> \<le> 2 ^ 25 * p" using n True by (intro mult_left_mono) simp_all
    finally have "last_good ?z p (last_flushed z b)"
      unfolding lastg by (simp add: last_good_def)
    moreover have "g_log z p = (\<lambda>_. blank)" using goodD(2) [OF g] t True by simp
    ultimately show ?thesis
      unfolding page_good_def idx using at(1,2) [OF b] f by (simp add: FlushCloseStatus_def)
  next
    case False
    then have q: "p \<in> window b ?n" "p \<noteq> b" using p window_step by auto
    then show ?thesis using goodD(1) [OF g q(1)] at [OF q(1)] by (simp add: page_good_def lastg)
  qed
  moreover have "write_good ?z r" if r: "r \<in> set (hl_writes z)" for r
  proof (cases "wr_page r mod ?n = b mod ?n")
    case True
    have "PageStatus ?z (wr_page r) = PageStatus ?z b" "PageStatus z (wr_page r) = PageStatus z b"
      using True by (simp_all add: PageStatus_def page_index_def)
    then show ?thesis using goodD(3) [OF g r] lf [OF b] by (simp add: write_good_def dur)
  next
    case False
    have "PageStatus ?z (wr_page r) = PageStatus z (wr_page r)"
      using False by (simp add: close_page_def Let_def set_status_def clear_Page_def PageStatus_def
          set_PageStatus_def set_Page_def page_index_def nth_list_update_if)
    then show ?thesis using goodD(3) [OF g r] by (simp add: write_good_def dur)
  qed
  ultimately show ?thesis using g by (simp add: good_def dur)
qed

lemma close_pages_fields:
  fixes ps :: "nat list"
  shows "buffer_size (fold (close_page blank) ps h) = buffer_size h"
    "tail_page_offset (fold (close_page blank) ps h) = tail_page_offset h"
    "hl_writes (fold (close_page blank) ps h) = hl_writes h" "hl_file (fold (close_page blank) ps h) = hl_file h"
    "flushed_until_address (fold (close_page blank) ps h) = flushed_until_address h"
    "safe_read_only_address (fold (close_page blank) ps h) = safe_read_only_address h"
    "read_only_address (fold (close_page blank) ps h) = read_only_address h"
    "head_address (fold (close_page blank) ps h) = head_address h"
    "safe_head_address (fold (close_page blank) ps h) = safe_head_address h"
    "begin_address (fold (close_page blank) ps h) = begin_address h"
    "num_mutable_pages (fold (close_page blank) ps h) = num_mutable_pages h"
    "hlog.more (fold (close_page blank) ps h) = hlog.more h"
    "sized h \<Longrightarrow> sized (fold (close_page blank) ps h)"
  by (induction ps arbitrary: h) simp_all

lemma close_pages_good:
  assumes "sized z" "good blank b z" "n \<le> pg (flushed_until_address z)" "b \<le> n" "tail_page z < b + buffer_size z"
    "pg (flushed_until_address z) \<le> tail_page z"
  shows "good blank n (fold (close_page blank) [b..<n] z)"
  using assms
proof (induction "n - b" arbitrary: b z)
  case (Suc k)
  then have b: "b < n" by simp
  have w: "b \<in> window b (buffer_size z)" using Suc.prems(1) by (simp add: window_def sized_def)
  have "flush_of z b = Flushed"
    using goodD(1) [OF Suc.prems(2) w] b Suc.prems(3) by (cases "flush_of z b") (auto simp: page_good_def)
  from close_page_good [OF Suc.prems(1,2) this Suc.prems(5)]
  have "good blank (Suc b) (close_page blank b z)" .
  then have "good blank n (fold (close_page blank) [Suc b..<n] (close_page blank b z))"
    using Suc b by (intro Suc.hyps(1)) simp_all
  then show ?case using b by (simp add: upt_conv_Cons)
qed simp

lemma close_pages_last:
  assumes "sized h" "st \<in> set (page_status (fold (close_page blank) ps h))"
  shows "\<exists>st' \<in> set (page_status h). LastFlushedUntilAddress st = LastFlushedUntilAddress st'"
  using assms
proof (induction ps arbitrary: h)
  case (Cons p ps)
  from Cons.IH [of "close_page blank p h"] Cons.prems obtain st1 where
    st1: "st1 \<in> set (page_status (close_page blank p h))" "LastFlushedUntilAddress st = LastFlushedUntilAddress st1"
    by auto
  have i: "page_index h p < length (page_status h)"
    using page_index_less [OF Cons.prems(1)] Cons.prems(1) by (simp add: sized_def)
  have "\<exists>st' \<in> set (page_status h). LastFlushedUntilAddress st1 = LastFlushedUntilAddress st'"
    using st1(1) nth_mem [OF i] i
    by (auto simp: close_page_def Let_def set_status_def clear_Page_def set_PageStatus_def set_Page_def
        PageStatus_def page_index_def split: if_splits dest!: set_update_subset_insert [THEN subsetD])
  then show ?case using st1(2) by metis
qed auto


text \<open>The invariant of the contents does not depend on the addresses that the epoch protects.\<close>

lemma good_upd [simp]:
  "good blank b (z\<lparr>safe_head_address := x\<rparr>) = good blank b z"
  "good blank b (z\<lparr>head_address := x\<rparr>) = good blank b z"
  "good blank b (z\<lparr>read_only_address := x\<rparr>) = good blank b z"
  by (simp_all add: good_def page_good_def write_good_def last_good_def durable_def)

lemma OnPagesClosed_eq:
  "OnPagesClosed blank a h =
     (if safe_head_address h < a
      then fold (close_page blank) [pg (safe_head_address h)..<pg a] (h\<lparr>safe_head_address := a\<rparr>) else h)"
  by (simp add: OnPagesClosed_def MonotonicUpdate_eq)

lemma OnPagesClosed_fields [simp]:
  "buffer_size (OnPagesClosed blank a h) = buffer_size h"
  "tail_page_offset (OnPagesClosed blank a h) = tail_page_offset h"
  "hl_writes (OnPagesClosed blank a h) = hl_writes h" "hl_file (OnPagesClosed blank a h) = hl_file h"
  "flushed_until_address (OnPagesClosed blank a h) = flushed_until_address h"
  "safe_read_only_address (OnPagesClosed blank a h) = safe_read_only_address h"
  "read_only_address (OnPagesClosed blank a h) = read_only_address h"
  "head_address (OnPagesClosed blank a h) = head_address h"
  "safe_head_address (OnPagesClosed blank a h) = (if safe_head_address h < a then a else safe_head_address h)"
  "begin_address (OnPagesClosed blank a h) = begin_address h"
  "num_mutable_pages (OnPagesClosed blank a h) = num_mutable_pages h"
  "hlog.more (OnPagesClosed blank a h) = hlog.more h"
  by (simp_all add: OnPagesClosed_eq close_pages_fields)

lemma more_ghost: "hlog.more z' = hlog.more z \<Longrightarrow> g_log z' = g_log z \<and> g_ok z' = g_ok z"
  by (cases z; cases z') simp

lemma OnPagesClosed_inv:
  assumes inv: "log_inv blank z" and a: "unat a \<le> unat (head_address z)"
  shows "log_inv blank (OnPagesClosed blank a z)"
proof (cases "safe_head_address z < a")
  case True
  have o: "order z" and g: "g_ok z \<Longrightarrow> good blank (pg (safe_head_address z)) z" using inv by (simp_all add: log_inv_def)
  note od = orderD [OF o] and po = page_order [OF o]
  have le: "pg (safe_head_address z) \<le> pg a"
    using True a od(4) by (intro pg_mono) (simp_all add: word_less_nat_alt)
  have pa: "pg a \<le> pg (head_address z)" by (rule pg_mono [OF a od(4)])
  let ?z = "z\<lparr>safe_head_address := a\<rparr>"
  have "order (OnPagesClosed blank a z)"
    unfolding order_def
  proof (intro conjI ballI)
    show "sized (OnPagesClosed blank a z)"
      using od(1) by (simp add: OnPagesClosed_eq close_pages_fields(13))
    show "unat (LastFlushedUntilAddress st) \<le> unat (safe_read_only_address (OnPagesClosed blank a z))"
      if "st \<in> set (page_status (OnPagesClosed blank a z))" for st
      using close_pages_last [of ?z st blank "[pg (safe_head_address z)..<pg a]"] that od(1,13) True
      by (auto simp: OnPagesClosed_eq close_pages_fields)
  qed (use od True a le in auto)
  moreover have "good blank (pg a) (OnPagesClosed blank a z)" if "g_ok z"
    unfolding OnPagesClosed_eq using True close_pages_good [of ?z blank "pg (safe_head_address z)" "pg a"]
      g [OF that] od(1,5,12) le pa po by simp
  ultimately show ?thesis using True more_ghost [of "OnPagesClosed blank a z" z] by (simp add: log_inv_def)
qed (use inv in \<open>simp add: OnPagesClosed_eq\<close>)


section \<open>Flushing pages\<close>

definition flush_request :: "address \<Rightarrow> nat \<Rightarrow> write_request" where
  "flush_request until_address p =
     \<lparr>wr_page = p, wr_until = addr_min (Address (of_nat (p + 1)) 0) until_address,
      wr_offset = kPageSize * of_nat p, wr_written = False\<rparr>"

definition mark_in_progress :: "nat \<Rightarrow> ('c, 's) hlog_scheme \<Rightarrow> ('c, 's) hlog_scheme" where
  "mark_in_progress p h = set_PageStatus p
     \<lparr>LastFlushedUntilAddress = 0, fps_status = FlushCloseStatus InProgress (close_of h p)\<rparr> h"

lemma full_page_status_eq:
  "(x :: full_page_status)\<lparr>fps_status := a, LastFlushedUntilAddress := b\<rparr> =
   \<lparr>LastFlushedUntilAddress = b, fps_status = a\<rparr>"
  by (cases x) simp

text \<open>What the loop does when the file accepts every request.\<close>

lemma flush_loop_accepted:
  assumes "sized h"
  shows "flush_loop (\<lambda>_. Ok) until_address ps h =
    (Ok, fold mark_in_progress ps (h\<lparr>hl_writes := hl_writes h @ map (flush_request until_address) ps\<rparr>))"
  using assms
proof (induction ps arbitrary: h)
  case (Cons p ps)
  have "set_last_flushed p 0 (set_status p (FlushCloseStatus InProgress (close_of h p)) h) = mark_in_progress p h"
  proof -
    have "page_index h p < length (page_status h)"
      using page_index_less [OF Cons.prems] Cons.prems by (simp add: sized_def)
    then show ?thesis
      by (simp add: set_last_flushed_def set_status_def mark_in_progress_def set_PageStatus_def PageStatus_def
          page_index_def full_page_status_eq)
  qed
  then have "flush_loop (\<lambda>_. Ok) until_address (p # ps) h = flush_loop (\<lambda>_. Ok) until_address ps
      ((mark_in_progress p h)\<lparr>hl_writes := hl_writes h @ [flush_request until_address p]\<rparr>)"
    by (simp add: Let_def flush_request_def mark_in_progress_def)
  also have "\<dots> = (Ok, fold mark_in_progress ps ((mark_in_progress p h)\<lparr>hl_writes :=
      hl_writes h @ map (flush_request until_address) (p # ps)\<rparr>))"
    using Cons.prems by (subst Cons.IH) (simp_all add: mark_in_progress_def)
  also have "(mark_in_progress p h)\<lparr>hl_writes := w\<rparr> = mark_in_progress p (h\<lparr>hl_writes := w\<rparr>)" for w
    by (simp add: mark_in_progress_def set_PageStatus_def page_index_def)
  finally show ?case by simp
qed simp

lemma mark_fields:
  fixes ps :: "nat list"
  shows "buffer_size (fold mark_in_progress ps h) = buffer_size h"
    "tail_page_offset (fold mark_in_progress ps h) = tail_page_offset h"
    "hl_writes (fold mark_in_progress ps h) = hl_writes h" "hl_file (fold mark_in_progress ps h) = hl_file h"
    "flushed_until_address (fold mark_in_progress ps h) = flushed_until_address h"
    "safe_read_only_address (fold mark_in_progress ps h) = safe_read_only_address h"
    "read_only_address (fold mark_in_progress ps h) = read_only_address h"
    "head_address (fold mark_in_progress ps h) = head_address h"
    "safe_head_address (fold mark_in_progress ps h) = safe_head_address h"
    "begin_address (fold mark_in_progress ps h) = begin_address h"
    "num_mutable_pages (fold mark_in_progress ps h) = num_mutable_pages h"
    "hlog.more (fold mark_in_progress ps h) = hlog.more h"
    "sized (fold mark_in_progress ps h) = sized h"
    "hl_Page (fold mark_in_progress ps h) q = hl_Page h q"
  by (induction ps arbitrary: h) (simp_all add: mark_in_progress_def)

lemma mark_status:
  assumes "sized h" "set ps \<subseteq> window b (buffer_size h)" "q \<in> window b (buffer_size h)"
  shows "PageStatus (fold mark_in_progress ps h) q =
    (if q \<in> set ps then \<lparr>LastFlushedUntilAddress = 0, fps_status = FlushCloseStatus InProgress (close_of h q)\<rparr>
     else PageStatus h q)"
  using assms
proof (induction ps arbitrary: h)
  case (Cons p ps)
  have p: "p \<in> window b (buffer_size h)" using Cons.prems by simp
  have "PageStatus (mark_in_progress p h) r =
      (if r = p then \<lparr>LastFlushedUntilAddress = 0, fps_status = FlushCloseStatus InProgress (close_of h p)\<rparr>
       else PageStatus h r)" if "r \<in> window b (buffer_size h)" for r
    unfolding mark_in_progress_def by (rule PageStatus_set [OF Cons.prems(1) p that])
  moreover have "sized (mark_in_progress p h)" "buffer_size (mark_in_progress p h) = buffer_size h"
    using Cons.prems(1) by (simp_all add: mark_in_progress_def)
  ultimately show ?case using Cons by (simp add: FlushCloseStatus_def)
qed simp

lemma mark_last:
  assumes "sized h" "st \<in> set (page_status (fold mark_in_progress ps h))"
  shows "LastFlushedUntilAddress st = 0 \<or> st \<in> set (page_status h)"
  using assms
proof (induction ps arbitrary: h)
  case (Cons p ps)
  have "sized (mark_in_progress p h)" using Cons.prems(1) by (simp add: mark_in_progress_def)
  with Cons.IH [OF this] Cons.prems(2)
  have "LastFlushedUntilAddress st = 0 \<or> st \<in> set (page_status (mark_in_progress p h))" by simp
  then show ?case
    by (auto simp: mark_in_progress_def set_PageStatus_def dest!: set_update_subset_insert [THEN subsetD])
qed simp


text \<open>The pages that a flush up to an address covers.\<close>

lemma flush_pages_set:
  assumes "unat a < unat a'" "unat a' < 2 ^ 48"
  shows "set (flush_pages (pg a) a') = {p. pg a \<le> p \<and> 2 ^ 25 * p < unat a'}" "pg a \<in> set (flush_pages (pg a) a')"
    "distinct (flush_pages (pg a) a')"
proof -
  have a: "unat a < 2 ^ 48" using assms by simp
  note n = addr_nat [OF a] addr_nat [OF assms(2)]
  have le: "pg a \<le> pg a'" using assms by (intro pg_mono) simp_all
  have pos: "addr_offset a' > 0 \<longleftrightarrow> off a' > 0" by (simp add: word_less_nat_alt)
  have *: "p < pg a' + (if off a' > 0 then 1 else 0) \<longleftrightarrow> 2 ^ 25 * p < unat a'" for p
  proof
    assume "p < pg a' + (if off a' > 0 then 1 else 0)"
    then have "p < pg a' \<or> p = pg a' \<and> off a' > 0" by (auto split: if_splits)
    then show "2 ^ 25 * p < unat a'"
    proof
      assume "p < pg a'"
      then have "2 ^ 25 * p < 2 ^ 25 * pg a'" by simp
      then show ?thesis unfolding n(2) by (rule trans_less_add1)
    qed (simp add: n(2))
  next
    assume "2 ^ 25 * p < unat a'"
    then show "p < pg a' + (if off a' > 0 then 1 else 0)"
      using mult_le_pg [OF assms(2), of p] n(2) by (cases "p = pg a'") auto
  qed
  have st: "set (flush_pages (pg a) a') = {p. pg a \<le> p \<and> p < pg a' + (if off a' > 0 then 1 else 0)}"
    using le by (auto simp: flush_pages_def Let_def pos)
  then show "set (flush_pages (pg a) a') = {p. pg a \<le> p \<and> 2 ^ 25 * p < unat a'}" unfolding * .
  have "2 ^ 25 * pg a < unat a'" using n(1) assms(1) by simp
  then show "pg a \<in> set (flush_pages (pg a) a')" unfolding st * by simp
  show "distinct (flush_pages (pg a) a')" by (simp add: flush_pages_def Let_def)
qed

lemma unat_addr_min: "unat (addr_min a b) = min (unat a) (unat b)"
  by (auto simp: addr_min_def min_def word_less_nat_alt word_le_nat_alt)

lemma flush_request_until:
  assumes "p + 1 < 2 ^ 23"
  shows "unat (wr_until (flush_request a p)) = min (2 ^ 25 * (p + 1)) (unat a)"
  unfolding flush_request_def using page_address(1) [OF assms] by (simp add: unat_addr_min)

lemma OnPagesMarkedReadOnly_eq:
  assumes "sized h"
  shows "OnPagesMarkedReadOnly (\<lambda>_. Ok) a h =
    (if safe_read_only_address h < a
     then let ps = flush_pages (pg (safe_read_only_address h)) a in
       fold mark_in_progress ps
         (h\<lparr>safe_read_only_address := a, hl_writes := hl_writes h @ map (flush_request a) ps\<rparr>)
     else h)"
proof -
  have "sized (h\<lparr>safe_read_only_address := a\<rparr>)" using assms by simp
  from flush_loop_accepted [OF this] show ?thesis
    by (simp add: OnPagesMarkedReadOnly_def AsyncFlushPages_def MonotonicUpdate_eq Let_def)
qed


lemma pg_eqI: "unat a < 2 ^ 48 \<Longrightarrow> 2 ^ 25 * p \<le> unat a \<Longrightarrow> unat a < 2 ^ 25 * (p + 1) \<Longrightarrow> pg a = p"
  using mult_le_pg [of a p] mult_less_pg [of a "p + 1"] by simp

text \<open>The pages that a flush touches are in the buffer.\<close>

lemma flush_pages_window:
  assumes o: "order h" and a: "unat (safe_read_only_address h) < unat a" "unat a \<le> unat (read_only_address h)"
    and p: "p \<in> set (flush_pages (pg (safe_read_only_address h)) a)"
  shows "p \<in> window (pg (safe_head_address h)) (buffer_size h)" "pg (flushed_until_address h) \<le> p" "p \<le> tail_page h"
    "2 ^ 25 * p < unat a"
proof -
  note od = orderD [OF o] and po = page_order [OF o] and ro = read_only_bound [OF o]
  have ab: "unat a < 2 ^ 48" using a(2) ro(1) by simp
  from p have p': "pg (safe_read_only_address h) \<le> p" "2 ^ 25 * p < unat a"
    using flush_pages_set(1) [OF a(1) ab] by auto
  then show "2 ^ 25 * p < unat a" by simp
  have "p \<le> pg a" using mult_le_pg [OF ab] p'(2) by simp
  also have "\<dots> \<le> pg (read_only_address h)" by (rule pg_mono [OF a(2) ro(1)])
  finally show t: "p \<le> tail_page h" using ro(2) by simp
  show f: "pg (flushed_until_address h) \<le> p" using p'(1) po(2) by simp
  show "p \<in> window (pg (safe_head_address h)) (buffer_size h)"
    using f t od(5,12) po(1) by (simp add: window_def)
qed

lemma OnPagesMarkedReadOnly_order:
  assumes o: "order h" and a: "unat a \<le> unat (read_only_address h)"
  shows "order (OnPagesMarkedReadOnly (\<lambda>_. Ok) a h)"
proof (cases "safe_read_only_address h < a")
  case True
  note od = orderD [OF o]
  have lt: "unat (safe_read_only_address h) < unat a" using True by (simp add: word_less_nat_alt)
  let ?ps = "flush_pages (pg (safe_read_only_address h)) a"
  let ?h = "h\<lparr>safe_read_only_address := a, hl_writes := hl_writes h @ map (flush_request a) ?ps\<rparr>"
  have eq: "OnPagesMarkedReadOnly (\<lambda>_. Ok) a h = fold mark_in_progress ?ps ?h"
    using True by (simp add: OnPagesMarkedReadOnly_eq [OF od(1)] Let_def)
  have w: "unat (wr_until r) \<le> unat a" if "r \<in> set (map (flush_request a) ?ps)" for r
  proof -
    from that obtain p where p: "p \<in> set ?ps" "r = flush_request a p" by auto
    have "p + 1 < 2 ^ 23" using flush_pages_window(3) [OF o lt a p(1)] od(10) by simp
    then show ?thesis using flush_request_until [of p a] p(2) by simp
  qed
  show ?thesis
    unfolding eq order_def mark_fields
  proof (intro conjI ballI)
    show "unat (LastFlushedUntilAddress st) \<le> unat (safe_read_only_address ?h)"
      if "st \<in> set (page_status (fold mark_in_progress ?ps ?h))" for st
      using mark_last [OF _ that] od(1,13) lt by force
    show "unat (wr_until r) \<le> unat (safe_read_only_address ?h)" if "r \<in> set (hl_writes ?h)" for r
      using that w od(14) lt by force
  qed (use od lt a in auto)
qed (use o in \<open>simp add: OnPagesMarkedReadOnly_eq [OF orderD(1) [OF o]]\<close>)

lemma OnPagesMarkedReadOnly_good:
  assumes o: "order z" and g: "good blank (pg (safe_head_address z)) z" and a: "unat a \<le> unat (read_only_address z)"
    and d: "distinct (map wr_page (hl_writes (OnPagesMarkedReadOnly (\<lambda>_. Ok) a z)))"
  shows "good blank (pg (safe_head_address z)) (OnPagesMarkedReadOnly (\<lambda>_. Ok) a z)"
proof (cases "safe_read_only_address z < a")
  case True
  note od = orderD [OF o] and po = page_order [OF o] and ro = read_only_bound [OF o]
  have lt: "unat (safe_read_only_address z) < unat a" using True by (simp add: word_less_nat_alt)
  have ab: "unat a < 2 ^ 48" using a ro(1) by simp
  let ?b = "pg (safe_head_address z)" and ?ps = "flush_pages (pg (safe_read_only_address z)) a"
  let ?z1 = "z\<lparr>safe_read_only_address := a, hl_writes := hl_writes z @ map (flush_request a) ?ps\<rparr>"
  let ?z = "fold mark_in_progress ?ps ?z1"
  have eq: "OnPagesMarkedReadOnly (\<lambda>_. Ok) a z = ?z"
    using True by (simp add: OnPagesMarkedReadOnly_eq [OF od(1)] Let_def)
  note win = flush_pages_window [OF o lt a]
  have ghost: "g_log ?z = g_log z" using more_ghost [of ?z ?z1] by (simp add: mark_fields)
  have dur: "durable ?z = durable z" by (rule durable_cong) (simp_all add: ghost mark_fields)
  have st: "PageStatus ?z q = (if q \<in> set ?ps
      then \<lparr>LastFlushedUntilAddress = 0, fps_status = FlushCloseStatus InProgress (close_of z q)\<rparr>
      else PageStatus z q)" if "q \<in> window ?b (buffer_size z)" for q
    using mark_status [of ?z1 ?ps ?b q] win(1) od(1) that by (simp add: subset_iff)
  have first: "p \<in> set ?ps" if "2 ^ 25 * p < unat (safe_read_only_address z)"
    "unat (safe_read_only_address z) < 2 ^ 25 * (p + 1)" for p
    using pg_eqI [OF po(5) _ that(2)] that(1) flush_pages_set(2) [OF lt ab] by simp
  have "page_good ?z p" if p: "p \<in> window ?b (buffer_size z)" for p
  proof -
    note pgood = goodD(1) [OF g p, unfolded page_good_def]
    have "last_good ?z p (last_flushed z p)" if "p \<notin> set ?ps"
      using pgood first that by (auto simp: last_good_def dur mark_fields)
    moreover have "last_good ?z p 0" by (simp add: last_good_def)
    ultimately show ?thesis
      using pgood st [OF p] win(2) [of p] by (auto simp: page_good_def ghost mark_fields FlushCloseStatus_def)
  qed
  moreover have "write_good ?z r" if r: "r \<in> set (hl_writes z)" for r
  proof -
    note wgood = goodD(3) [OF g r, unfolded write_good_def]
    have np: "wr_page r \<notin> set ?ps"
    proof
      assume "wr_page r \<in> set ?ps"
      then have "wr_page r \<in> wr_page ` set (map (flush_request a) ?ps)"
        by (simp add: image_image flush_request_def)
      then show False using d r unfolding eq by (auto simp: mark_fields)
    qed
    have "2 ^ 25 * wr_page r < unat (safe_read_only_address z)" using wgood od(14) [OF r] by simp
    then have "wr_page r \<le> pg (safe_read_only_address z)" using mult_le_pg [OF po(5)] by simp
    then have "wr_page r \<in> window ?b (buffer_size z)"
      using wgood po od(5,12) by (simp add: window_def)
    from st [OF this] np show ?thesis
      using wgood first [of "wr_page r"] by (auto simp: write_good_def dur mark_fields)
  qed
  moreover have "write_good ?z r" if "r \<in> set (map (flush_request a) ?ps)" for r
  proof -
    from that obtain p where p: "p \<in> set ?ps" "r = flush_request a p" by auto
    note w = win [OF p(1)]
    have "unat (wr_until r) = min (2 ^ 25 * (p + 1)) (unat a)"
      unfolding p(2) by (rule flush_request_until) (use w(3) od(10) in simp)
    then show ?thesis using w st [OF w(1)] p
      by (auto simp: write_good_def mark_fields flush_request_def file_offset_def min_def)
  qed
  ultimately show ?thesis
    unfolding eq good_def using g d unfolding eq by (auto simp: mark_fields ghost dur good_def)
qed (use g in \<open>simp add: OnPagesMarkedReadOnly_eq [OF orderD(1) [OF o]]\<close>)


text \<open>The actions, with the ghost flag that records whether a page was flushed twice at a time.\<close>

definition check_overlap :: "'c glog \<Rightarrow> 'c glog" where
  "check_overlap z = z\<lparr>g_ok := g_ok z \<and> distinct (map wr_page (hl_writes z))\<rparr>"

definition glog_act :: "'c \<Rightarrow> hlog_action \<Rightarrow> 'c glog \<Rightarrow> 'c glog" where
  "glog_act blank x z = check_overlap (hlog_act (\<lambda>_. Ok) blank x z)"

fun log_pending :: "hlog_action \<Rightarrow> ('c, 's) hlog_scheme \<Rightarrow> bool" where
  "log_pending (PagesClosed a) h \<longleftrightarrow> unat a \<le> unat (head_address h)"
| "log_pending (PagesMarkedReadOnly a) h \<longleftrightarrow> unat a \<le> unat (read_only_address h)"

text \<open>A guard of a thread: the read-only and head addresses when it entered the epoch.\<close>

fun log_harmless :: "hlog_action \<Rightarrow> address \<times> address \<Rightarrow> bool" where
  "log_harmless (PagesClosed a) (r, hda) \<longleftrightarrow> unat a \<le> unat hda"
| "log_harmless (PagesMarkedReadOnly a) (r, hda) \<longleftrightarrow> unat a \<le> unat r"

definition log_guarded :: "address \<times> address \<Rightarrow> ('c, 's) hlog_scheme \<Rightarrow> bool" where
  "log_guarded = (\<lambda>(r, hda) h. unat (safe_read_only_address h) \<le> unat r \<and> unat (safe_head_address h) \<le> unat hda)"

lemma check_overlap_fields [simp]:
  "head_address (check_overlap z) = head_address z" "read_only_address (check_overlap z) = read_only_address z"
  "safe_head_address (check_overlap z) = safe_head_address z"
  "safe_read_only_address (check_overlap z) = safe_read_only_address z"
  "order (check_overlap z) = order z" "good blank b (check_overlap z) = good blank b z"
  "g_ok (check_overlap z) \<longleftrightarrow> g_ok z \<and> distinct (map wr_page (hl_writes z))"
  by (simp_all add: check_overlap_def order_def sized_def good_def page_good_def write_good_def last_good_def
      durable_def hl_Page_def PageStatus_def page_index_def)

lemma OnPagesMarkedReadOnly_fields:
  assumes "sized h"
  shows "head_address (OnPagesMarkedReadOnly (\<lambda>_. Ok) a h) = head_address h"
    "read_only_address (OnPagesMarkedReadOnly (\<lambda>_. Ok) a h) = read_only_address h"
    "safe_head_address (OnPagesMarkedReadOnly (\<lambda>_. Ok) a h) = safe_head_address h"
    "safe_read_only_address (OnPagesMarkedReadOnly (\<lambda>_. Ok) a h) =
      (if safe_read_only_address h < a then a else safe_read_only_address h)"
    "hlog.more (OnPagesMarkedReadOnly (\<lambda>_. Ok) a h) = hlog.more h"
  by (simp_all add: OnPagesMarkedReadOnly_eq [OF assms] Let_def mark_fields)

interpretation log_client: epoch_client "glog_act blank" "log_inv blank" log_pending log_harmless log_guarded
proof
  fix z :: "'a glog" and a b :: hlog_action and g :: "address \<times> address"
  assume inv: "log_inv blank z" and p: "log_pending a z"
  have o: "order z" and sz: "sized z" using inv orderD(1) by (auto simp: log_inv_def)
  note mf = OnPagesMarkedReadOnly_fields [OF sz]
  show "log_inv blank (glog_act blank a z)"
  proof (cases a)
    case (PagesClosed x)
    then show ?thesis using OnPagesClosed_inv [OF inv] p by (auto simp: glog_act_def log_inv_def)
  next
    case (PagesMarkedReadOnly x)
    then have x: "unat x \<le> unat (read_only_address z)" using p by simp
    have "g_ok (OnPagesMarkedReadOnly (\<lambda>_. Ok) x z) = g_ok z"
      using more_ghost [of "OnPagesMarkedReadOnly (\<lambda>_. Ok) x z" z] mf by simp
    then show ?thesis
      using PagesMarkedReadOnly inv OnPagesMarkedReadOnly_order [OF o x] OnPagesMarkedReadOnly_good [OF o _ x]
      by (simp add: glog_act_def log_inv_def mf)
  qed
  show "log_pending b (glog_act blank a z)" if "log_pending b z"
    using that by (cases a; cases b) (simp_all add: glog_act_def mf)
  show "log_guarded g (glog_act blank a z)" if "log_guarded g z" "log_harmless a g"
    using that by (cases a; cases g) (auto simp: glog_act_def mf log_guarded_def)
qed

end
