(* ===== verification/Hlog_System.thy ===== *)
theory Hlog_System
  imports Hlog_Invariant
begin

text \<open>
  The hybrid log under the concurrent operations of its threads: every operation keeps the
  invariant of \<open>Hlog_Invariant\<close>, so the log can be read back; and the epoch keeps what a
  protected thread has allocated from being flushed, and what it may read from being closed.
\<close>

section \<open>Operations on the log alone\<close>

lemma kPageSize_nat: "unat kPageSize = 2 ^ 25"
  by (simp add: kPageSize_def kMaxOffset_def kOffsetBits_def)

lemma po_offset_less: "unat (po_offset p) < 2 ^ 41"
  by (simp add: unat_po_offset)

lemma hl_Allocate_tail:
  assumes "tail_offset h + unat n < 2 ^ 41"
  shows "tail_page (snd (snd (hl_Allocate n h))) = tail_page h"
    "tail_offset (snd (snd (hl_Allocate n h))) = tail_offset h + unat n"
    "snd (snd (hl_Allocate n h)) = h\<lparr>tail_page_offset := snd (po_Reserve n (tail_page_offset h))\<rparr>"
proof -
  obtain old new where r: "po_Reserve n (tail_page_offset h) = (old, new)" by fastforce
  show "tail_page (snd (snd (hl_Allocate n h))) = tail_page h"
    "tail_offset (snd (snd (hl_Allocate n h))) = tail_offset h + unat n"
    "snd (snd (hl_Allocate n h)) = h\<lparr>tail_page_offset := snd (po_Reserve n (tail_page_offset h))\<rparr>"
    using po_Reserve_spec [OF assms r] by (simp_all add: hl_Allocate_def r Let_def)
qed

text \<open>The result of an allocation: inside the page, or the number of the page that is full.\<close>

lemma hl_Allocate_result:
  assumes "tail_offset h + unat n < 2 ^ 41"
  shows "fst (hl_Allocate n h) =
      (if tail_offset h + unat n \<le> 2 ^ 25 then Address (po_page (tail_page_offset h)) (ucast (po_offset (tail_page_offset h)))
       else kInvalidAddress)"
    "fst (snd (hl_Allocate n h)) =
      (if tail_offset h + unat n \<le> 2 ^ 25 then 0xFFFFFFFF else po_page (tail_page_offset h))"
proof -
  let ?po = "po_offset (tail_page_offset h)"
  have "unat (?po + ucast n) = tail_offset h + unat n"
    using assms by (simp add: unat_word_ariths)
  then have "?po + ucast n > kPageSize \<longleftrightarrow> \<not> tail_offset h + unat n \<le> 2 ^ 25"
    using kPageSize_nat by (simp add: word_less_nat_alt not_le)
  then show "fst (hl_Allocate n h) =
      (if tail_offset h + unat n \<le> 2 ^ 25 then Address (po_page (tail_page_offset h)) (ucast (po_offset (tail_page_offset h)))
       else kInvalidAddress)"
    "fst (snd (hl_Allocate n h)) =
      (if tail_offset h + unat n \<le> 2 ^ 25 then 0xFFFFFFFF else po_page (tail_page_offset h))"
    using po_Reserve_spec(1) [OF assms, of "fst (po_Reserve n (tail_page_offset h))" "snd (po_Reserve n (tail_page_offset h))"]
    by (auto simp: hl_Allocate_def Let_def Address_of_PageOffset_def split: prod.split)
qed

text \<open>Moving the tail keeps the invariant as long as the new page has room in the buffer.\<close>

lemma tail_inv:
  assumes inv: "log_inv blank z" and t: "tail_page z \<le> unat (po_page t)" "unat (po_offset t) < 2 ^ 32"
    "unat (po_page t) + 1 < 2 ^ 23" "unat (po_page t) + 1 < pg (safe_head_address z) + buffer_size z"
    "tail_page z = unat (po_page t) \<Longrightarrow> tail_offset z \<le> unat (po_offset t)"
  shows "log_inv blank (z\<lparr>tail_page_offset := t\<rparr>)"
proof -
  have o: "order z" using inv by (simp add: log_inv_def)
  have "unat (read_only_address z) \<le> 2 ^ 25 * unat (po_page t) + min (unat (po_offset t)) (2 ^ 25 - 1)"
  proof (cases "tail_page z = unat (po_page t)")
    case True
    then show ?thesis using orderD(9) [OF o] t(5) by (simp add: min_def split: if_splits)
  next
    case False
    then have lt: "tail_page z + 1 \<le> unat (po_page t)" using t(1) by simp
    have "unat (read_only_address z) \<le> 2 ^ 25 * (tail_page z + 1)"
      using orderD(9) [OF o] by (simp add: algebra_simps min_def split: if_splits)
    also have "\<dots> \<le> 2 ^ 25 * unat (po_page t)" using lt by (rule mult_left_mono) simp
    finally show ?thesis by simp
  qed
  then have "order (z\<lparr>tail_page_offset := t\<rparr>)" using o t by (simp add: order_def sized_def)
  moreover have "good blank b (z\<lparr>tail_page_offset := t\<rparr>)" if "good blank b z" for b
    using that t(1) by (simp add: good_def page_good_def write_good_def last_good_def durable_def)
  ultimately show ?thesis using inv by (simp add: log_inv_def)
qed

lemma GetTailAddress_nat:
  assumes "tail_offset h < 2 ^ 32"
  shows "unat (GetTailAddress h) = 2 ^ 25 * tail_page h + min (tail_offset h) (2 ^ 25 - 1)"
proof -
  have k: "unat kMaxOffset = 2 ^ 25 - 1" by (simp add: kMaxOffset_def kOffsetBits_def)
  have "unat (min kMaxOffset (ucast (po_offset (tail_page_offset h)))) = min (2 ^ 25 - 1) (tail_offset h)"
    using unat_ucast_64_32 [OF assms] k by (simp add: min_def word_le_nat_alt)
  moreover have "tail_page h < 2 ^ 23"
  proof -
    have "unat (tail_page_offset h) < 2 ^ 64" using unat_u64_less by blast
    then show ?thesis by (simp add: unat_po_page less_mult_imp_div_less)
  qed
  ultimately show ?thesis unfolding GetTailAddress_def
    by (subst unat_Address) (simp_all add: min.commute)
qed

text \<open>Advancing the read-only address towards the tail, and the head towards the flushed address.\<close>

lemma read_only_inv:
  assumes inv: "log_inv blank z" and v: "unat (read_only_address z) \<le> unat v"
    "unat v \<le> 2 ^ 25 * tail_page z + min (tail_offset z) (2 ^ 25 - 1)"
  shows "log_inv blank (z\<lparr>read_only_address := v\<rparr>)"
  using inv v by (auto simp: log_inv_def order_def)

lemma head_inv:
  assumes inv: "log_inv blank z" and v: "unat (head_address z) \<le> unat v" "unat v < 2 ^ 48"
    "pg v \<le> pg (flushed_until_address z)" "off v = 0"
  shows "log_inv blank (z\<lparr>head_address := v\<rparr>)"
  using inv v by (auto simp: log_inv_def order_def)


section \<open>Operations that register actions\<close>

lemma flush_loop_fields:
  fixes ps :: "nat list"
  shows "tail_page_offset (snd (flush_loop accept u ps h)) = tail_page_offset h"
    "buffer_size (snd (flush_loop accept u ps h)) = buffer_size h"
    "num_mutable_pages (snd (flush_loop accept u ps h)) = num_mutable_pages h"
    "begin_address (snd (flush_loop accept u ps h)) = begin_address h"
    "flushed_until_address (snd (flush_loop accept u ps h)) = flushed_until_address h"
    "head_address (snd (flush_loop accept u ps h)) = head_address h"
    "read_only_address (snd (flush_loop accept u ps h)) = read_only_address h"
    "safe_head_address (snd (flush_loop accept u ps h)) = safe_head_address h"
    "safe_read_only_address (snd (flush_loop accept u ps h)) = safe_read_only_address h"
    "hl_file (snd (flush_loop accept u ps h)) = hl_file h" "hl_pages (snd (flush_loop accept u ps h)) = hl_pages h"
    "hlog.more (snd (flush_loop accept u ps h)) = hlog.more h"
  by (induction ps arbitrary: h)
    (simp_all add: Let_def set_status_def set_last_flushed_def set_PageStatus_def)

lemma glog_act_keeps:
  "tail_page_offset (glog_act blank a z) = tail_page_offset z" "buffer_size (glog_act blank a z) = buffer_size z"
  "num_mutable_pages (glog_act blank a z) = num_mutable_pages z" "begin_address (glog_act blank a z) = begin_address z"
  "flushed_until_address (glog_act blank a z) = flushed_until_address z"
  "head_address (glog_act blank a z) = head_address z" "read_only_address (glog_act blank a z) = read_only_address z"
  "g_log (glog_act blank a z) = g_log z" "hl_file (glog_act blank a z) = hl_file z"
proof -
  have ro: "f (OnPagesMarkedReadOnly (\<lambda>_. Ok) x z) = f z"
    if "\<And>ps h. f (snd (flush_loop (\<lambda>_. Ok) x ps h)) = f h" "\<And>v. f (z\<lparr>safe_read_only_address := v\<rparr>) = f z"
    for f :: "'a glog \<Rightarrow> 'b" and x
    using that by (simp add: OnPagesMarkedReadOnly_def AsyncFlushPages_def Let_def split: prod.split)
  have gl: "g_log (snd (flush_loop (\<lambda>_. Ok) x ps h)) = g_log h" for x ps and h :: "'a glog"
    using more_ghost [of "snd (flush_loop (\<lambda>_. Ok) x ps h)" h] flush_loop_fields(12) by blast
  have gc: "g_log (OnPagesClosed blank x z) = g_log z" for x
    using more_ghost [of "OnPagesClosed blank x z" z] by simp
  show "tail_page_offset (glog_act blank a z) = tail_page_offset z" "buffer_size (glog_act blank a z) = buffer_size z"
    "num_mutable_pages (glog_act blank a z) = num_mutable_pages z" "begin_address (glog_act blank a z) = begin_address z"
    "flushed_until_address (glog_act blank a z) = flushed_until_address z"
    "head_address (glog_act blank a z) = head_address z" "read_only_address (glog_act blank a z) = read_only_address z"
    "g_log (glog_act blank a z) = g_log z" "hl_file (glog_act blank a z) = hl_file z"
    by (cases a; simp add: glog_act_def check_overlap_def ro flush_loop_fields gl gc)+
qed


text \<open>What every operation guarantees: the invariant, the guards of the threads, and progress of
  the addresses.\<close>

type_synonym 'c log_sys = "(hlog_action, 'c glog) light_epoch_scheme"

definition kept :: "'c \<Rightarrow> 'c log_sys \<Rightarrow> 'c log_sys \<Rightarrow> bool" where
  "kept blank s s' \<longleftrightarrow> log_client.client_ok blank s' \<and> num_entries s' = num_entries s \<and>
     (\<forall>t g. log_client.thread_guard t g s \<longrightarrow> log_client.thread_guard t g s') \<and>
     unat (read_only_address (client_state s)) \<le> unat (read_only_address (client_state s')) \<and>
     unat (head_address (client_state s)) \<le> unat (head_address (client_state s'))"

lemma kept_trans: "kept blank s s' \<Longrightarrow> kept blank s' s'' \<Longrightarrow> kept blank s s''"
  by (auto simp: kept_def)

lemma kept_refl: "log_client.client_ok blank s \<Longrightarrow> kept blank s s"
  by (simp add: kept_def)

lemma log_pending_mono:
  "log_pending a z \<Longrightarrow> unat (head_address z) \<le> unat (head_address z') \<Longrightarrow>
   unat (read_only_address z) \<le> unat (read_only_address z') \<Longrightarrow> log_pending a z'"
  by (cases a) auto

lemma client_inv: "log_client.client_ok blank s \<Longrightarrow> log_inv blank (client_state s)"
  by (simp add: log_client.client_ok_def)

text \<open>An operation that changes the log only, without moving the safe addresses.\<close>

lemma update_kept:
  assumes ok: "log_client.client_ok blank s" and inv: "log_inv blank (f (client_state s))"
    and mono: "unat (head_address (client_state s)) \<le> unat (head_address (f (client_state s)))"
      "unat (read_only_address (client_state s)) \<le> unat (read_only_address (f (client_state s)))"
    and safe: "safe_head_address (f (client_state s)) = safe_head_address (client_state s)"
      "safe_read_only_address (f (client_state s)) = safe_read_only_address (client_state s)"
  shows "kept blank s (light_epoch.more_update f s)"
proof -
  have p: "log_pending a (f (client_state s))" if "(e, a) \<in> registered s" for e a
    using log_client.client_pending [OF ok that] mono by (rule log_pending_mono)
  have g: "log_guarded x (f (client_state s))" if "log_guarded x (client_state s)" for x
    using that safe by (cases x) (simp add: log_guarded_def)
  have "log_client.client_ok blank (light_epoch.more_update f s)"
    by (rule log_client.client_update) (fact ok, fact inv, fact p)
  moreover have "registered (light_epoch.more_update f s) = registered s" by (rule registered_cong) simp
  ultimately show ?thesis
    using g mono by (simp add: kept_def log_client.thread_guard_def)
qed

text \<open>Registering an action.\<close>

lemma register_kept:
  assumes ok: "log_client.client_ok blank s" and c: "current_epoch s + 1 < kLocked" and a: "log_pending a (client_state s)"
    and r: "BumpCurrentEpoch_action (glog_act blank) a s = Some (e, s')"
  shows "kept blank s s'" "current_epoch s' = current_epoch s + 1"
    "tail_page_offset (client_state s') = tail_page_offset (client_state s)"
    "flushed_until_address (client_state s') = flushed_until_address (client_state s)"
    "buffer_size (client_state s') = buffer_size (client_state s)"
    "begin_address (client_state s') = begin_address (client_state s)"
    "g_log (client_state s') = g_log (client_state s)" "hl_file (client_state s') = hl_file (client_state s)"
proof -
  note b = log_client.BumpCurrentEpoch_action_client [OF ok c a r]
  note k = BumpCurrentEpoch_action_keeps [OF log_client.client_epoch [OF ok] c r]
  have "head_address (client_state s') = head_address (client_state s)"
    "read_only_address (client_state s') = read_only_address (client_state s)"
    by (rule k(1); simp add: glog_act_keeps)+
  then show "kept blank s s'" using b k(3) by (simp add: kept_def)
  show "current_epoch s' = current_epoch s + 1" by (rule k(2))
  show "tail_page_offset (client_state s') = tail_page_offset (client_state s)"
    "flushed_until_address (client_state s') = flushed_until_address (client_state s)"
    "buffer_size (client_state s') = buffer_size (client_state s)"
    "begin_address (client_state s') = begin_address (client_state s)"
    "g_log (client_state s') = g_log (client_state s)" "hl_file (client_state s') = hl_file (client_state s)"
    by (rule k(1); simp add: glog_act_keeps)+
qed

text \<open>The two operations that move an address and register the action that follows it up.\<close>

lemma shift_read_only_kept:
  assumes ok: "log_client.client_ok blank s" and c: "unat (current_epoch s) + 1 < unat kLocked"
    and v: "unat v \<le> 2 ^ 25 * tail_page (client_state s) + min (tail_offset (client_state s)) (2 ^ 25 - 1)"
    and r: "(if read_only_address (client_state s) < v
       then map_option snd (BumpCurrentEpoch_action (glog_act blank) (PagesMarkedReadOnly v)
              (light_epoch.more_update (\<lambda>h. h\<lparr>read_only_address := v\<rparr>) s))
       else Some s) = Some s'"
  shows "kept blank s s'" "unat (current_epoch s') \<le> unat (current_epoch s) + 1"
    "tail_page_offset (client_state s') = tail_page_offset (client_state s)"
    "buffer_size (client_state s') = buffer_size (client_state s)"
proof -
  let ?s = "light_epoch.more_update (\<lambda>h. h\<lparr>read_only_address := v\<rparr>) s"
  have "kept blank s s' \<and> unat (current_epoch s') \<le> unat (current_epoch s) + 1 \<and>
    tail_page_offset (client_state s') = tail_page_offset (client_state s) \<and>
    buffer_size (client_state s') = buffer_size (client_state s)"
  proof (cases "read_only_address (client_state s) < v")
    case True
    then have lt: "unat (read_only_address (client_state s)) \<le> unat v" by (simp add: word_less_nat_alt)
    have k: "kept blank s ?s"
      by (rule update_kept [OF ok]) (use read_only_inv [OF client_inv [OF ok] lt v] lt in simp_all)
    then have ok1: "log_client.client_ok blank ?s" by (simp add: kept_def)
    from r True obtain e where b: "BumpCurrentEpoch_action (glog_act blank) (PagesMarkedReadOnly v) ?s = Some (e, s')"
      by auto
    have c1: "current_epoch ?s + 1 < kLocked" "unat (current_epoch s + 1) = unat (current_epoch s) + 1"
      using c unat_plus_one [of "current_epoch s" kLocked] by (simp_all add: word_less_nat_alt)
    have "log_pending (PagesMarkedReadOnly v) (client_state ?s)" by simp
    note rk = register_kept [OF ok1 c1(1) this b]
    show ?thesis using kept_trans [OF k rk(1)] rk(2-5) c1(2) by simp
  qed (use r kept_refl [OF ok] in simp)
  then show "kept blank s s'" "unat (current_epoch s') \<le> unat (current_epoch s) + 1"
    "tail_page_offset (client_state s') = tail_page_offset (client_state s)"
    "buffer_size (client_state s') = buffer_size (client_state s)" by simp_all
qed

lemma shift_head_kept:
  assumes ok: "log_client.client_ok blank s" and c: "unat (current_epoch s) + 1 < unat kLocked"
    and v: "unat v < 2 ^ 48" "pg v \<le> pg (flushed_until_address (client_state s))" "off v = 0"
    and r: "(if head_address (client_state s) < v
       then map_option snd (BumpCurrentEpoch_action (glog_act blank) (PagesClosed v)
              (light_epoch.more_update (\<lambda>h. h\<lparr>head_address := v\<rparr>) s))
       else Some s) = Some s'"
  shows "kept blank s s'"
proof (cases "head_address (client_state s) < v")
  case True
  let ?s = "light_epoch.more_update (\<lambda>h. h\<lparr>head_address := v\<rparr>) s"
  from True have lt: "unat (head_address (client_state s)) \<le> unat v" by (simp add: word_less_nat_alt)
  have k: "kept blank s ?s"
    by (rule update_kept [OF ok]) (use head_inv [OF client_inv [OF ok] lt v] lt in simp_all)
  then have ok1: "log_client.client_ok blank ?s" by (simp add: kept_def)
  from r True obtain e where b: "BumpCurrentEpoch_action (glog_act blank) (PagesClosed v) ?s = Some (e, s')" by auto
  have c1: "current_epoch ?s + 1 < kLocked"
    using c unat_plus_one [of "current_epoch s" kLocked] by (simp add: word_less_nat_alt)
  have "log_pending (PagesClosed v) (client_state ?s)" by simp
  from kept_trans [OF k register_kept(1) [OF ok1 c1 this b]] show ?thesis .
qed (use r kept_refl [OF ok] in simp)

lemma PageAlignedShiftReadOnlyAddress_kept:
  assumes ok: "log_client.client_ok blank s" and c: "unat (current_epoch s) + 1 < unat kLocked"
    and t: "tp \<le> tail_page (client_state s) + 1"
    and r: "PageAlignedShiftReadOnlyAddress (glog_act blank) id tp s = Some s'"
  shows "kept blank s s'" "unat (current_epoch s') \<le> unat (current_epoch s) + 1"
    "tail_page_offset (client_state s') = tail_page_offset (client_state s)"
    "buffer_size (client_state s') = buffer_size (client_state s)"
proof -
  let ?h = "client_state s" and ?v = "Address (of_nat (tp - 2)) 0"
  have o: "order ?h" using client_inv [OF ok] by (simp add: log_inv_def)
  have all: "kept blank s s' \<and> unat (current_epoch s') \<le> unat (current_epoch s) + 1 \<and>
    tail_page_offset (client_state s') = tail_page_offset (client_state s) \<and>
    buffer_size (client_state s') = buffer_size (client_state s)"
  proof (cases "tp \<le> 2")
    case True
    then show ?thesis
      using r kept_refl [OF ok] orderD(2) [OF o] by (simp add: PageAlignedShiftReadOnlyAddress_def Let_def)
  next
    case False
    have b: "tp - 2 < 2 ^ 23" "tp - 2 \<le> tail_page ?h" using orderD(10) [OF o] t by simp_all
    have "unat ?v = 2 ^ 25 * (tp - 2)" by (rule page_address(1) [OF b(1)])
    also have "\<dots> \<le> 2 ^ 25 * tail_page ?h" using b(2) by (rule mult_left_mono) simp
    finally have v: "unat ?v \<le> 2 ^ 25 * tail_page ?h + min (tail_offset ?h) (2 ^ 25 - 1)" by simp
    have "(if read_only_address ?h < ?v
       then map_option snd (BumpCurrentEpoch_action (glog_act blank) (PagesMarkedReadOnly ?v)
              (light_epoch.more_update (\<lambda>h. h\<lparr>read_only_address := ?v\<rparr>) s))
       else Some s) = Some s'"
      using r False orderD(2) [OF o]
      by (cases s) (simp add: PageAlignedShiftReadOnlyAddress_def Let_def MonotonicUpdate_eq split: if_splits)
    from shift_read_only_kept [OF ok c v this] show ?thesis by simp
  qed
  then show "kept blank s s'" "unat (current_epoch s') \<le> unat (current_epoch s) + 1"
    "tail_page_offset (client_state s') = tail_page_offset (client_state s)"
    "buffer_size (client_state s') = buffer_size (client_state s)" by simp_all
qed

lemma PageAlignedShiftHeadAddress_kept:
  assumes ok: "log_client.client_ok blank s" and c: "unat (current_epoch s) + 1 < unat kLocked"
    and t: "tp \<le> tail_page (client_state s) + 1"
    and r: "PageAlignedShiftHeadAddress (glog_act blank) id tp s = Some s'"
  shows "kept blank s s'"
proof (cases "tp \<le> buffer_size (client_state s) - kNumHeadPages")
  case True
  then show ?thesis using r kept_refl [OF ok] by (simp add: PageAlignedShiftHeadAddress_def Let_def)
next
  case False
  let ?h = "client_state s" and ?p = "tp - (buffer_size (client_state s) - kNumHeadPages)"
  define v where "v = (if flushed_until_address ?h < Address (of_nat ?p) 0
    then Address (addr_page (flushed_until_address ?h)) 0 else Address (of_nat ?p) 0)"
  have o: "order ?h" using client_inv [OF ok] by (simp add: log_inv_def)
  have p: "?p < 2 ^ 23" using orderD(10) [OF o] t by simp
  note pa = page_address [OF p] and ps = page_start [of "flushed_until_address ?h"]
  have fb: "unat (flushed_until_address ?h) < 2 ^ 48" by (rule page_order(4) [OF o])
  have "unat v < 2 ^ 48 \<and> pg v \<le> pg (flushed_until_address ?h) \<and> off v = 0"
  proof (cases "flushed_until_address ?h < Address (of_nat ?p) 0")
    case True
    then have "unat v \<le> unat (flushed_until_address ?h)" using addr_nat [OF fb] ps(1) by (simp add: v_def)
    then show ?thesis using True ps fb by (simp add: v_def)
  next
    case False
    then have "\<not> flushed_until_address ?h < v" by (simp add: v_def)
    then have le: "unat v \<le> unat (flushed_until_address ?h)" by (simp only: word_less_nat_alt not_less)
    then show ?thesis using False pa(3) fb pg_mono [OF le fb] by (simp add: v_def)
  qed
  then have v: "unat v < 2 ^ 48" "pg v \<le> pg (flushed_until_address ?h)" "off v = 0" by simp_all
  have "(if head_address ?h < v
       then map_option snd (BumpCurrentEpoch_action (glog_act blank) (PagesClosed v)
              (light_epoch.more_update (\<lambda>h. h\<lparr>head_address := v\<rparr>) s))
       else Some s) = Some s'"
  proof -
    have same: "light_epoch.more_update (\<lambda>h. h\<lparr>head_address := head_address ?h\<rparr>) s = s" by (cases s) simp
    show ?thesis using r
      unfolding PageAlignedShiftHeadAddress_def Let_def MonotonicUpdate_eq v_def [symmetric] if_not_P [OF False]
        prod.case id_apply
      by (cases "head_address ?h < v") (simp_all add: same)
  qed
  from shift_head_kept [OF ok c v this] show ?thesis .
qed

lemma shift_addresses_kept:
  assumes ok: "log_client.client_ok blank s" and c: "unat (current_epoch s) + 2 < unat kLocked"
    and t: "tp \<le> tail_page (client_state s) + 1"
    and r: "shift_addresses (glog_act blank) id tp s = Some s'"
  shows "kept blank s s'"
proof -
  from r obtain s1 where s1: "PageAlignedShiftReadOnlyAddress (glog_act blank) id tp s = Some s1"
    and s2: "PageAlignedShiftHeadAddress (glog_act blank) id tp s1 = Some s'"
    by (auto simp: shift_addresses_def split: option.splits)
  have c1: "unat (current_epoch s) + 1 < unat kLocked" using c by simp
  note k = PageAlignedShiftReadOnlyAddress_kept [OF ok c1 t s1]
  have "log_client.client_ok blank s1" using k(1) by (simp add: kept_def)
  from PageAlignedShiftHeadAddress_kept [OF this _ _ s2] k c t have "kept blank s1 s'" by simp
  with k(1) show ?thesis by (rule kept_trans)
qed

lemma po_NewPage_eq:
  "po_NewPage p c c = (if p = po_page c then (False, True, PageOffset (p + 1) 0) else (True, False, c))"
  by (simp add: po_NewPage_def compare_exchange_def)

lemma hl_NewPage_kept:
  assumes ok: "log_client.client_ok blank s" and c: "unat (current_epoch s) + 2 < unat kLocked"
    and t: "p \<le> tail_page (client_state s)" "tail_page (client_state s) + 2 < 2 ^ 23"
    and r: "hl_NewPage (glog_act blank) id blank p s = Some (b, s')"
  shows "kept blank s s'"
proof -
  let ?h = "client_state s"
  have t1: "p + 1 \<le> tail_page ?h + 1" using t(1) by simp
  consider "shift_addresses (glog_act blank) id (p + 1) s = Some s'" | "s' = s" |
    (new) s1 where "p = tail_page ?h" "p + 2 < pg (safe_head_address ?h) + buffer_size ?h"
      "shift_addresses (glog_act blank) id (p + 1)
         (light_epoch.more_update (\<lambda>h. h\<lparr>tail_page_offset := PageOffset (of_nat p + 1) 0\<rparr>) s) = Some s1"
      "s' = (if hl_Page (client_state s1) (p + 2) = None
             then light_epoch.more_update (AllocatePage blank (p + 2)) s1 else s1)"
  proof -
    have same: "light_epoch.more_update (\<lambda>h. h\<lparr>tail_page_offset := tail_page_offset ?h\<rparr>) s = s" by (cases s) simp
    let ?full = "p + 2 \<ge> pg (safe_head_address ?h) + buffer_size ?h \<or> \<not> status_Ready (fps_status (PageStatus ?h (p + 1)))"
    show thesis
    proof (cases ?full)
      case True
      then have "shift_addresses (glog_act blank) id (p + 1) s = Some s'"
        using r by (simp add: hl_NewPage_def Let_def split: if_splits)
      then show thesis by (rule that(1))
    next
      case False
      then have f: "\<not> p + 2 \<ge> pg (safe_head_address ?h) + buffer_size ?h"
        "\<not> \<not> status_Ready (fps_status (PageStatus ?h (p + 1)))" by auto
      note e = r [unfolded hl_NewPage_def Let_def if_not_P [OF f(1)] if_not_P [OF f(2)] po_NewPage_eq]
      show thesis
      proof (cases "of_nat p = po_page (tail_page_offset ?h)")
        case True
        then have "p = tail_page ?h" using unat_of_nat_page [of p] t by simp
        with e True f(1) show thesis by (auto simp del: of_nat_Suc intro!: that(3))
      next
        case False
        with e same show thesis by (auto intro: that(2))
      qed
    qed
  qed
  then show ?thesis
  proof cases
    case 1
    then show ?thesis using shift_addresses_kept [OF ok c t1] by simp
  next
    case 2
    then show ?thesis using kept_refl [OF ok] by simp
  next
    case new
    let ?t = "PageOffset (of_nat p + 1) 0"
    let ?s = "light_epoch.more_update (\<lambda>h. h\<lparr>tail_page_offset := ?t\<rparr>) s"
    have u: "unat (of_nat p + 1 :: u32) = p + 1" using unat_of_nat_page [of "p + 1"] t by (simp add: add.commute)
    have f: "unat (po_page ?t) = p + 1" "unat (po_offset ?t) = 0"
      using u t by simp_all
    have "kept blank s ?s"
      by (rule update_kept [OF ok]) (use tail_inv [OF client_inv [OF ok], of ?t] f new(1,2) t in simp_all)
    then have k: "kept blank s ?s" and ok1: "log_client.client_ok blank ?s" by (simp_all add: kept_def)
    have "kept blank ?s s1" by (rule shift_addresses_kept [OF ok1 _ _ new(3)]) (use c f in simp_all)
    then have k1: "kept blank s s1" "order (client_state s1)"
      using kept_trans [OF k] client_inv [of blank s1] by (simp_all add: kept_def log_inv_def)
    have "hl_Page (client_state s1) q \<noteq> None" for q
      using orderD(1) [OF k1(2)] page_index_less [of "client_state s1" q] by (auto simp: sized_def hl_Page_def)
    then have "s' = s1" using new(4) by (simp only: if_False simp_thms)
    then show ?thesis using k1(1) by simp
  qed
qed

lemma ShiftReadOnlyToTail_kept:
  assumes ok: "log_client.client_ok blank s" and c: "unat (current_epoch s) + 1 < unat kLocked"
    and r: "ShiftReadOnlyToTail (glog_act blank) id s = Some (a, s')"
  shows "kept blank s s'" "a = GetTailAddress (client_state s)"
proof -
  let ?h = "client_state s" and ?a = "GetTailAddress (client_state s)"
  have o: "order ?h" using client_inv [OF ok] by (simp add: log_inv_def)
  have v: "unat ?a \<le> 2 ^ 25 * tail_page ?h + min (tail_offset ?h) (2 ^ 25 - 1)"
    using GetTailAddress_nat [OF orderD(11) [OF o]] by simp
  have r1: "(if read_only_address ?h < ?a
       then map_option snd (BumpCurrentEpoch_action (glog_act blank) (PagesMarkedReadOnly ?a)
              (light_epoch.more_update (\<lambda>h. h\<lparr>read_only_address := ?a\<rparr>) s))
       else Some s) = Some s'" and a: "a = ?a"
    using r by (cases s; auto simp: ShiftReadOnlyToTail_def Let_def MonotonicUpdate_eq split: if_splits)+
  show "kept blank s s'" by (rule shift_read_only_kept(1) [OF ok c v r1])
  show "a = ?a" by (fact a)
qed

lemma hl_Allocate_kept:
  assumes ok: "log_client.client_ok blank s" and n: "tail_offset (client_state s) + unat n < 2 ^ 32"
  shows "kept blank s (light_epoch.more_update (\<lambda>h. snd (snd (hl_Allocate n h))) s)"
proof -
  let ?h = "client_state s"
  have n': "tail_offset ?h + unat n < 2 ^ 41" using n by simp
  note a = hl_Allocate_tail [OF n']
  let ?t = "snd (po_Reserve n (tail_page_offset ?h))"
  have t: "unat (po_page ?t) = tail_page ?h" "unat (po_offset ?t) = tail_offset ?h + unat n" using a by simp_all
  have inv: "log_inv blank ?h" by (rule client_inv [OF ok])
  then have o: "order ?h" by (simp add: log_inv_def)
  have "log_inv blank (snd (snd (hl_Allocate n ?h)))"
    unfolding a(3) by (rule tail_inv [OF inv]) (use t n orderD(10,12) [OF o] in simp_all)
  then show ?thesis by (intro update_kept [OF ok]) (simp_all add: a(3))
qed


section \<open>Writing the log\<close>

text \<open>A thread writes to memory it has allocated.\<close>

definition allocated :: "('c, 's) hlog_scheme \<Rightarrow> address \<Rightarrow> bool" where
  "allocated h a \<longleftrightarrow> unat a < 2 ^ 48 \<and> unat a < 2 ^ 25 * tail_page h + min (tail_offset h) (2 ^ 25)"

definition log_put :: "address \<Rightarrow> 'c \<Rightarrow> 'c glog \<Rightarrow> 'c glog" where
  "log_put a v z = (hl_Put a v z)\<lparr>g_log := (g_log z)(pg a := (g_log z (pg a))(off a := v))\<rparr>"

lemma allocated_page: "allocated h a \<Longrightarrow> pg a \<le> tail_page h"
proof -
  assume a: "allocated h a"
  then have "unat a < 2 ^ 25 * (tail_page h + 1)" by (simp add: allocated_def min_def split: if_splits)
  then show ?thesis using mult_less_pg [of a "tail_page h + 1"] a by (simp add: allocated_def)
qed

lemma order_cong:
  assumes "order h" "sized h'" "buffer_size h' = buffer_size h" "num_mutable_pages h' = num_mutable_pages h"
    "safe_head_address h' = safe_head_address h" "head_address h' = head_address h"
    "flushed_until_address h' = flushed_until_address h" "begin_address h' = begin_address h"
    "safe_read_only_address h' = safe_read_only_address h" "read_only_address h' = read_only_address h"
    "tail_page_offset h' = tail_page_offset h"
    "\<And>st. st \<in> set (page_status h') \<Longrightarrow> unat (LastFlushedUntilAddress st) \<le> unat (safe_read_only_address h)"
    "\<And>r. r \<in> set (hl_writes h') \<Longrightarrow> unat (wr_until r) \<le> unat (safe_read_only_address h)"
  shows "order h'"
  using assms by (simp add: order_def)

lemma log_put_fields [simp]:
  "buffer_size (log_put a v z) = buffer_size z" "num_mutable_pages (log_put a v z) = num_mutable_pages z"
  "safe_head_address (log_put a v z) = safe_head_address z" "head_address (log_put a v z) = head_address z"
  "flushed_until_address (log_put a v z) = flushed_until_address z" "begin_address (log_put a v z) = begin_address z"
  "safe_read_only_address (log_put a v z) = safe_read_only_address z"
  "read_only_address (log_put a v z) = read_only_address z" "tail_page_offset (log_put a v z) = tail_page_offset z"
  "page_status (log_put a v z) = page_status z" "hl_writes (log_put a v z) = hl_writes z"
  "hl_file (log_put a v z) = hl_file z" "g_ok (log_put a v z) = g_ok z"
  "PageStatus (log_put a v z) p = PageStatus z p"
  "g_log (log_put a v z) = (g_log z)(pg a := (g_log z (pg a))(off a := v))"
  by (simp_all add: log_put_def hl_Put_def set_Page_def PageStatus_def page_index_def)

lemma sized_log_put: "sized z \<Longrightarrow> sized (log_put a v z)"
proof -
  assume s: "sized z"
  have "hl_Page z (pg a) \<noteq> None" using s page_index_less [OF s] by (auto simp: sized_def hl_Page_def)
  then have "sized (hl_Put a v z)" unfolding hl_Put_def by (intro sized_set(2) s) simp
  then show ?thesis by (simp add: log_put_def sized_def)
qed

lemma durable_log_put:
  assumes "durable z p n" "2 ^ 25 * p + n \<le> unat a \<or> n = 0" "unat a < 2 ^ 48"
  shows "durable (log_put a v z) p n"
proof -
  have "o' \<noteq> off a" if "p = pg a" "o' < n" for o'
    using assms(2) addr_nat [OF assms(3)] that by simp
  then show ?thesis using assms(1) by (auto simp: durable_def)
qed

lemma log_put_good:
  assumes o: "order z" and g: "good blank (pg (safe_head_address z)) z" and a: "allocated z a"
    and ro: "unat (safe_read_only_address z) \<le> unat a"
  shows "good blank (pg (safe_head_address z)) (log_put a v z)"
proof -
  let ?b = "pg (safe_head_address z)" and ?z = "log_put a v z"
  note od = orderD [OF o] and po = page_order [OF o]
  have ab: "unat a < 2 ^ 48" using a by (simp add: allocated_def)
  have t: "pg a \<le> tail_page z" by (rule allocated_page [OF a])
  have "pg (safe_read_only_address z) \<le> pg a" by (rule pg_mono [OF ro ab])
  then have w: "pg a \<in> window ?b (buffer_size z)" using t po(1-3) od(5,12) by (simp add: window_def)
  have page: "hl_Page ?z p = Some (g_log ?z p)" if p: "p \<in> window ?b (buffer_size z)" for p
    using goodD(1) [OF g p] goodD(1) [OF g w] hl_Page_set_Page [OF od(1) w p]
    by (simp add: page_good_def log_put_def hl_Put_def hl_Page_def page_index_def)
  have dur: "durable ?z p n" if "durable z p n" "2 ^ 25 * p + n \<le> unat (safe_read_only_address z) \<or> n = 0" for p n
    by (rule durable_log_put [OF that(1) _ ab]) (use that(2) ro in auto)
  have last: "last_good ?z p l" if "last_good z p l" "l \<le> unat (safe_read_only_address z)" for p l
  proof -
    have "durable ?z p (l - 2 ^ 25 * p)" if "2 ^ 25 * p < l" "durable z p (l - 2 ^ 25 * p)"
      by (rule dur [OF that(2)]) (use that(1) \<open>l \<le> unat (safe_read_only_address z)\<close> in simp)
    then show ?thesis using that by (simp add: last_good_def)
  qed
  have lf: "last_flushed z p \<le> unat (safe_read_only_address z)" for p
  proof -
    have "page_index z p < length (page_status z)" using page_index_less [OF od(1)] od(1) by (simp add: sized_def)
    then show ?thesis unfolding PageStatus_def by (intro od(13) nth_mem)
  qed
  have "page_good ?z p" if p: "p \<in> window ?b (buffer_size z)" for p
    using goodD(1) [OF g p] page [OF p] last [OF _ lf] unfolding page_good_def by simp
  moreover have "write_good ?z r" if r: "r \<in> set (hl_writes z)" for r
  proof -
    note wg = goodD(3) [OF g r, unfolded write_good_def]
    have "durable ?z (wr_page r) (unat (wr_until r) - 2 ^ 25 * wr_page r)" if "wr_written r"
      by (rule dur) (use wg that od(14) [OF r] in simp_all)
    then show ?thesis using wg by (simp add: write_good_def)
  qed
  moreover have "durable ?z p (min (2 ^ 25) (unat (flushed_until_address z) - 2 ^ 25 * p))" for p
    by (rule dur [OF goodD(5) [OF g]]) (use od(7) in auto)
  moreover have "p \<noteq> pg a" if "p > tail_page z" for p using that t by simp
  ultimately show ?thesis using g by (simp add: good_def)
qed

lemma log_put_kept:
  assumes ok: "log_client.client_ok blank s" and a: "allocated (client_state s) a"
    and ro: "unat (safe_read_only_address (client_state s)) \<le> unat a"
  shows "kept blank s (light_epoch.more_update (log_put a v) s)"
proof -
  have inv: "log_inv blank (client_state s)" by (rule client_inv [OF ok])
  then have o: "order (client_state s)" by (simp add: log_inv_def)
  have "order (log_put a v (client_state s))"
    by (rule order_cong [OF o sized_log_put [OF orderD(1) [OF o]]]) (use orderD(13,14) [OF o] in simp_all)
  then have "log_inv blank (log_put a v (client_state s))"
    using inv log_put_good [OF o _ a ro] by (simp add: log_inv_def)
  then show ?thesis by (intro update_kept [OF ok]) simp_all
qed

end
