(* ===== verification/Hlog_Flush.thy ===== *)
theory Hlog_Flush
  imports Hlog_System
begin

text \<open>
  The writes of the hybrid log to its file and their completions, the runs of the log under
  its threads, and what they give: every run reads back what was written, and a protected
  thread can keep reading and writing where it could when it entered the epoch.
\<close>

section \<open>Writes to the file\<close>

text \<open>The device writes the page of a request in flight, as the buffer holds it at that time.\<close>

definition disk_write :: "write_request \<Rightarrow> ('c, 's) hlog_scheme \<Rightarrow> ('c, 's) hlog_scheme" where
  "disk_write r h = h\<lparr>hl_file := (hl_file h)(wr_offset r := hl_Page h (wr_page r)),
     hl_writes := map (\<lambda>q. if q = r then q\<lparr>wr_written := True\<rparr> else q) (hl_writes h)\<rparr>"

text \<open>The completion of a request that has been written.\<close>

definition complete_write :: "'c \<Rightarrow> write_request \<Rightarrow> ('c, 's) hlog_scheme \<Rightarrow> ('c, 's) hlog_scheme option" where
  "complete_write blank r h = flush_callback blank r Ok (h\<lparr>hl_writes := remove1 r (hl_writes h)\<rparr>)"

lemma write_page:
  assumes o: "order z" and r: "r \<in> set (hl_writes z)" "write_good z r"
  shows "wr_page r \<in> window (pg (safe_head_address z)) (buffer_size z)" "wr_page r < 2 ^ 23"
    "wr_page r \<le> pg (safe_read_only_address z)"
proof -
  note od = orderD [OF o] and po = page_order [OF o]
  have "2 ^ 25 * wr_page r < unat (safe_read_only_address z)"
    using r od(14) [OF r(1)] by (simp add: write_good_def)
  then show le: "wr_page r \<le> pg (safe_read_only_address z)" using mult_le_pg [OF po(5)] by simp
  then show "wr_page r \<in> window (pg (safe_head_address z)) (buffer_size z)" "wr_page r < 2 ^ 23"
    using r po od(5,10,12) by (simp_all add: window_def write_good_def)
qed

lemma durable_disk_write:
  assumes "durable z p n" "n = 0 \<or> p < 2 ^ 23" "wr_offset r = file_offset (wr_page r)" "wr_page r < 2 ^ 23"
    "hl_Page z (wr_page r) = Some (g_log z (wr_page r))"
  shows "durable (disk_write r z) p n"
  using assms file_offset_inj [of p "wr_page r"] by (cases "n = 0") (auto simp: durable_def disk_write_def)

lemma durable_disk_write_same:
  assumes "wr_offset r = file_offset (wr_page r)" "hl_Page z (wr_page r) = Some (g_log z (wr_page r))"
  shows "durable (disk_write r z) (wr_page r) n"
  using assms by (simp add: durable_def disk_write_def)

lemma disk_write_fields [simp]:
  "buffer_size (disk_write r h) = buffer_size h" "num_mutable_pages (disk_write r h) = num_mutable_pages h"
  "safe_head_address (disk_write r h) = safe_head_address h" "head_address (disk_write r h) = head_address h"
  "flushed_until_address (disk_write r h) = flushed_until_address h" "begin_address (disk_write r h) = begin_address h"
  "safe_read_only_address (disk_write r h) = safe_read_only_address h"
  "read_only_address (disk_write r h) = read_only_address h" "tail_page_offset (disk_write r h) = tail_page_offset h"
  "page_status (disk_write r h) = page_status h" "hl_pages (disk_write r h) = hl_pages h"
  "PageStatus (disk_write r h) p = PageStatus h p" "hl_Page (disk_write r h) p = hl_Page h p"
  "sized (disk_write r h) = sized h"
  "hl_writes (disk_write r h) = map (\<lambda>q. if q = r then q\<lparr>wr_written := True\<rparr> else q) (hl_writes h)"
  by (simp_all add: disk_write_def PageStatus_def hl_Page_def page_index_def sized_def)

lemma disk_write_ghost [simp]: "g_log (disk_write r z) = g_log z" "g_ok (disk_write r z) = g_ok z"
  by (simp_all add: disk_write_def)

lemma below_2_23: "2 ^ 25 * p < n \<Longrightarrow> n \<le> unat (a :: address) \<Longrightarrow> unat a < 2 ^ 48 \<Longrightarrow> p < 2 ^ 23"
proof -
  assume "2 ^ 25 * p < n" "n \<le> unat a" "unat a < 2 ^ 48"
  then have "2 ^ 25 * p < 2 ^ 25 * (2 ^ 23 :: nat)" by simp
  then show ?thesis by (simp only: mult_less_cancel1)
qed

lemma last_flushed_le:
  assumes "order h"
  shows "last_flushed h p \<le> unat (safe_read_only_address h)"
proof -
  note s = orderD(1) [OF assms]
  have "page_index h p < length (page_status h)" using page_index_less [OF s] s by (simp add: sized_def)
  then show ?thesis unfolding PageStatus_def by (intro orderD(13) [OF assms] nth_mem)
qed

lemma disk_write_good:
  assumes o: "order z" and g: "good blank (pg (safe_head_address z)) z" and r: "r \<in> set (hl_writes z)"
  shows "good blank (pg (safe_head_address z)) (disk_write r z)"
proof -
  let ?b = "pg (safe_head_address z)" and ?z = "disk_write r z"
  note od = orderD [OF o] and po = page_order [OF o]
  note wr = goodD(3) [OF g r] and wp = write_page [OF o r goodD(3) [OF g r]]
  have off: "wr_offset r = file_offset (wr_page r)" using wr by (simp add: write_good_def)
  have pgr: "hl_Page z (wr_page r) = Some (g_log z (wr_page r))"
    using goodD(1) [OF g wp(1)] by (simp add: page_good_def)
  have dur: "durable ?z p n" if "durable z p n" "n = 0 \<or> p < 2 ^ 23" for p n
    by (rule durable_disk_write [OF that off wp(2) pgr])
  have last: "last_good ?z p l" if l: "last_good z p l" "l \<le> unat (safe_read_only_address z)" for p l
  proof -
    have "p < 2 ^ 23" if "2 ^ 25 * p < l" by (rule below_2_23 [OF that l(2) po(5)])
    then show ?thesis using l(1) dur by (simp add: last_good_def)
  qed
  have "page_good ?z p" if p: "p \<in> window ?b (buffer_size z)" for p
    using goodD(1) [OF g p] last [OF _ last_flushed_le [OF o]] unfolding page_good_def by simp
  moreover have wq: "write_good ?z (if q = r then q\<lparr>wr_written := True\<rparr> else q)" if q: "q \<in> set (hl_writes z)" for q
  proof -
    note wg = goodD(3) [OF g q, unfolded write_good_def] and qp = write_page [OF o q goodD(3) [OF g q]]
    show ?thesis
    proof (cases "q = r")
      case True
      then show ?thesis using wg durable_disk_write_same [OF off pgr] by (simp add: write_good_def)
    next
      case False
      then show ?thesis using wg dur qp(2) by (simp add: write_good_def)
    qed
  qed
  moreover have "durable ?z p (min (2 ^ 25) (unat (flushed_until_address z) - 2 ^ 25 * p))" for p
  proof (rule dur [OF goodD(5) [OF g]], rule disjCI)
    assume "\<not> p < 2 ^ 23"
    then have "2 ^ 25 * 2 ^ 23 \<le> 2 ^ 25 * p" by (intro mult_left_mono) simp_all
    then show "min (2 ^ 25) (unat (flushed_until_address z) - 2 ^ 25 * p) = 0" using po(4) by simp
  qed
  moreover have "write_good ?z q" if "q \<in> set (hl_writes ?z)" for q
  proof -
    from that obtain q' where "q' \<in> set (hl_writes z)" "q = (if q' = r then q'\<lparr>wr_written := True\<rparr> else q')"
      unfolding disk_write_fields set_map by blast
    then show ?thesis using wq by (simp only:)
  qed
  moreover have "map wr_page (hl_writes ?z) = map wr_page (hl_writes z)" by simp
  then have "distinct (map wr_page (hl_writes ?z))" using goodD(4) [OF g] by (simp only:)
  ultimately show ?thesis using goodD(2) [OF g] unfolding good_def disk_write_fields(1,5,9) disk_write_ghost
    by blast
qed


section \<open>Completions\<close>

text \<open>Advancing the flushed-until address over what is durable.\<close>

definition durable_until :: "'c glog \<Rightarrow> nat \<Rightarrow> bool" where
  "durable_until z n \<longleftrightarrow> (\<forall>p. durable z p (min (2 ^ 25) (n - 2 ^ 25 * p)))"

lemma flushed_good:
  assumes g: "good blank b z" and f: "durable_until z (unat f)"
    and p: "\<And>p. p \<in> window b (buffer_size z) \<Longrightarrow> pg (flushed_until_address z) \<le> p \<Longrightarrow> last_flushed z p = 0 \<Longrightarrow> pg f \<le> p"
    and w: "\<And>r. r \<in> set (hl_writes z) \<Longrightarrow> wr_page r \<in> window b (buffer_size z)"
  shows "good blank b (z\<lparr>flushed_until_address := f\<rparr>)"
proof -
  let ?z = "z\<lparr>flushed_until_address := f\<rparr>"
  have d: "durable ?z = durable z" by (rule durable_cong) simp_all
  have "page_good ?z q" if q: "q \<in> window b (buffer_size z)" for q
    using goodD(1) [OF g q] p [OF q] by (auto simp: page_good_def last_good_def d)
  moreover have "write_good ?z r" if r: "r \<in> set (hl_writes z)" for r
    using goodD(3) [OF g r] p [OF w [OF r]] by (simp add: write_good_def d)
  ultimately show ?thesis using g f by (simp add: good_def d durable_until_def)
qed

lemma durable_until_step:
  assumes "durable_until z n" "durable z q (m - 2 ^ 25 * q)" "2 ^ 25 * q \<le> n" "m \<le> 2 ^ 25 * (q + 1)"
  shows "durable_until z m"
  unfolding durable_until_def
proof
  fix p
  show "durable z p (min (2 ^ 25) (m - 2 ^ 25 * p))"
  proof (cases "p < q")
    case True
    then have "2 ^ 25 * (p + 1) \<le> 2 ^ 25 * q" by (intro mult_left_mono) simp_all
    then have "2 ^ 25 \<le> n - 2 ^ 25 * p" using assms(3) by (simp add: algebra_simps)
    then have "durable z p (2 ^ 25)" using assms(1) unfolding durable_until_def by (metis min_absorb1)
    then show ?thesis by (rule durable_mono) simp
  next
    case False
    show ?thesis
    proof (cases "p = q")
      case True
      then show ?thesis using durable_mono [OF assms(2)] by simp
    next
      case False
      with \<open>\<not> p < q\<close> have "2 ^ 25 * (q + 1) \<le> 2 ^ 25 * p" by (intro mult_left_mono) simp_all
      then have "m - 2 ^ 25 * p = 0" using assms(4) by simp
      then show ?thesis by (simp add: durable_def)
    qed
  qed
qed


text \<open>The loop of \<open>ShiftFlushedUntilAddress\<close> ends, and stops before the first page in flight.\<close>

lemma shift_flushed_loop_good:
  assumes o: "order z" and g: "good blank (pg (safe_head_address z)) z"
    and c: "unat c \<le> unat (safe_read_only_address z)" "durable_until z (unat c)" "pg (safe_head_address z) \<le> pg c"
    and nz: "unat c \<noteq> 0 \<or> last_flushed z 0 \<noteq> 0"
  shows "\<exists>c' u'. shift_flushed_loop z (pg c) c u = Some (c', u') \<and> unat c \<le> unat c' \<and>
    unat c' \<le> unat (safe_read_only_address z) \<and> durable_until z (unat c') \<and>
    (\<forall>p \<in> window (pg (safe_head_address z)) (buffer_size z). pg c \<le> p \<longrightarrow> last_flushed z p = 0 \<longrightarrow> pg c' \<le> p)"
  using c nz
proof (induction "pg (safe_read_only_address z) - pg c" arbitrary: c u rule: less_induct)
  case less
  note od = orderD [OF o] and po = page_order [OF o]
  let ?q = "pg c" and ?a = "LastFlushedUntilAddress (PageStatus z (pg c))" and ?w = "window (pg (safe_head_address z)) (buffer_size z)"
  have cb: "unat c < 2 ^ 48" using less.prems(1) po(5) by simp
  note cn = addr_nat [OF cb]
  have qr: "?q \<le> pg (safe_read_only_address z)" by (rule pg_mono [OF less.prems(1) po(5)])
  have w: "?q \<in> ?w" "?q + 1 \<in> ?w" using less.prems(3) qr po(3) od(12) by (simp_all add: window_def)
  show ?case
  proof (cases "c \<le> ?a")
    case False
    then have "shift_flushed_loop z ?q c u = Some (c, u)" by (subst shift_flushed_loop.simps) simp
    then show ?thesis using less.prems by simp
  next
    case True
    then have le: "unat c \<le> unat ?a" by (simp add: word_le_nat_alt)
    have step: "shift_flushed_loop z ?q c u = shift_flushed_loop z (?q + 1) ?a True"
      using True by (subst shift_flushed_loop.simps) simp
    note lg = goodD(1) [OF g w(1), unfolded page_good_def last_good_def]
    have ar: "unat ?a \<le> unat (safe_read_only_address z)" by (rule last_flushed_le [OF o])
    have nonzero: "unat ?a \<noteq> 0"
    proof
      assume "unat ?a = 0"
      then have "unat c = 0" using le by simp
      then have "last_flushed z 0 = 0" using \<open>unat ?a = 0\<close> cn by simp
      then show False using \<open>unat c = 0\<close> less.prems(4) by simp
    qed
    have gt: "2 ^ 25 * ?q < unat ?a"
    proof (rule ccontr)
      assume n: "\<not> 2 ^ 25 * ?q < unat ?a"
      then have "unat ?a + 2 ^ 25 \<le> 2 ^ 25 * ?q" using lg nonzero by simp
      then show False using le cn by simp
    qed
    then have dur: "durable_until z (unat ?a)"
      using durable_until_step [OF less.prems(2), of ?q "unat ?a"] lg cn by simp
    show ?thesis
    proof (cases "unat ?a = 2 ^ 25 * (?q + 1)")
      case full: True
      have pa: "pg ?a = ?q + 1" by (rule pg_eqI) (use full ar po(5) in simp_all)
      have "?q + 1 \<le> pg (safe_read_only_address z)" using pg_mono [OF ar po(5)] pa by simp
      then have "pg (safe_read_only_address z) - pg ?a < pg (safe_read_only_address z) - ?q" using pa by simp
      from less.hyps [OF this ar dur, of True] nonzero less.prems(3) pa
      obtain c' u' where r: "shift_flushed_loop z (?q + 1) ?a True = Some (c', u')" "unat ?a \<le> unat c'"
        "unat c' \<le> unat (safe_read_only_address z)" "durable_until z (unat c')"
        "\<forall>p \<in> ?w. ?q + 1 \<le> p \<longrightarrow> last_flushed z p = 0 \<longrightarrow> pg c' \<le> p" by auto
      have "?q + 1 \<le> p" if "?q \<le> p" "last_flushed z p = 0" for p
        using that nonzero by (cases "p = ?q") auto
      with r step le show ?thesis by (intro exI [of _ c'] exI [of _ u']) auto
    next
      case False
      then have part: "unat ?a < 2 ^ 25 * (?q + 1)" "unat ?a = unat (safe_read_only_address z)"
        using lg gt by auto
      have pa: "pg ?a = ?q" by (rule pg_eqI) (use part gt po(5) in simp_all)
      let ?n = "last_flushed z (?q + 1)"
      have stop: "\<not> unat ?a \<le> ?n"
      proof
        assume n: "unat ?a \<le> ?n"
        then have eq: "?n = unat ?a" using last_flushed_le [OF o, of "?q + 1"] part(2) by simp
        have "last_good z (?q + 1) ?n" using goodD(1) [OF g w(2)] by (simp add: page_good_def)
        then show False using eq gt part nonzero by (simp add: last_good_def)
      qed
      then have "shift_flushed_loop z (?q + 1) ?a True = Some (?a, True)"
        by (subst shift_flushed_loop.simps) (simp add: word_le_nat_alt)
      then show ?thesis using step le ar dur pa by auto
    qed
  qed
qed

text \<open>Without the invariant on the contents, the address is still one that was flushed.\<close>

lemma shift_flushed_loop_bound:
  assumes "shift_flushed_loop h q c u = Some r" "\<forall>p. last_flushed h p \<le> m" "unat c \<le> m"
  shows "unat (fst r) \<le> m"
proof -
  have "(\<forall>p. last_flushed h p \<le> m) \<longrightarrow> unat c \<le> m \<longrightarrow> unat (fst r) \<le> m"
    by (rule shift_flushed_loop.raw_induct [OF _ assms(1)]) (auto simp: Let_def split: if_splits)
  then show ?thesis using assms(2,3) by blast
qed


definition mark_flushed :: "'c \<Rightarrow> write_request \<Rightarrow> ('c, 's) hlog_scheme \<Rightarrow> ('c, 's) hlog_scheme" where
  "mark_flushed blank r h =
     (let p = wr_page r; st = \<lparr>LastFlushedUntilAddress = wr_until r, fps_status = FlushCloseStatus Flushed (close_of h p)\<rparr>
      in if close_of h p = Closed
         then set_PageStatus p \<lparr>LastFlushedUntilAddress = wr_until r, fps_status = FlushCloseStatus Flushed Open\<rparr>
                (set_Page p (Some (\<lambda>_. blank)) h)
         else set_PageStatus p st h)"

lemma flush_callback_eq:
  assumes "sized h"
  shows "flush_callback blank r result h = ShiftFlushedUntilAddress (mark_flushed blank r h)"
proof -
  have "page_index h (wr_page r) < length (page_status h)" using page_index_less [OF assms] assms by (simp add: sized_def)
  then have "set_status (wr_page r) st (set_last_flushed (wr_page r) a h) =
      set_PageStatus (wr_page r) \<lparr>LastFlushedUntilAddress = a, fps_status = st\<rparr> h" for a st
    by (cases "PageStatus h (wr_page r)")
      (simp add: set_status_def set_last_flushed_def set_PageStatus_def PageStatus_def page_index_def)
  moreover have "fps_status (PageStatus (set_last_flushed (wr_page r) a h) (wr_page r)) = fps_status (PageStatus h (wr_page r))" for a
    unfolding set_last_flushed_def PageStatus_set_same [OF assms] by simp
  moreover have "set_status p st (clear_Page blank p (set_PageStatus p x h)) =
      set_PageStatus p (x\<lparr>fps_status := st\<rparr>) (set_Page p (Some (\<lambda>_. blank)) h)" for p st x
    unfolding set_status_def clear_Page_def PageStatus_set_Page PageStatus_set_same [OF assms]
    by (simp add: set_PageStatus_def set_Page_def page_index_def)
  ultimately show ?thesis by (simp add: flush_callback_def mark_flushed_def Let_def)
qed

lemma mark_flushed_fields [simp]:
  "buffer_size (mark_flushed blank r h) = buffer_size h" "num_mutable_pages (mark_flushed blank r h) = num_mutable_pages h"
  "safe_head_address (mark_flushed blank r h) = safe_head_address h" "head_address (mark_flushed blank r h) = head_address h"
  "flushed_until_address (mark_flushed blank r h) = flushed_until_address h"
  "begin_address (mark_flushed blank r h) = begin_address h"
  "safe_read_only_address (mark_flushed blank r h) = safe_read_only_address h"
  "read_only_address (mark_flushed blank r h) = read_only_address h"
  "tail_page_offset (mark_flushed blank r h) = tail_page_offset h"
  "hl_writes (mark_flushed blank r h) = hl_writes h" "hl_file (mark_flushed blank r h) = hl_file h"
  by (simp_all add: mark_flushed_def Let_def)

lemma mark_flushed_ghost [simp]:
  "g_log (mark_flushed blank r z) = g_log z" "g_ok (mark_flushed blank r z) = g_ok z"
  by (simp_all add: mark_flushed_def Let_def)

lemma mark_flushed_order:
  assumes o: "order h" and r: "unat (wr_until r) \<le> unat (safe_read_only_address h)"
  shows "order (mark_flushed blank r h)"
proof (rule order_cong [OF o])
  note s = orderD(1) [OF o]
  show "sized (mark_flushed blank r h)" using s by (simp add: mark_flushed_def Let_def)
  show "unat (LastFlushedUntilAddress st) \<le> unat (safe_read_only_address h)"
    if "st \<in> set (page_status (mark_flushed blank r h))" for st
    using that orderD(13) [OF o] r
    by (auto simp: mark_flushed_def Let_def set_PageStatus_def set_Page_def split: if_splits
        dest!: set_update_subset_insert [THEN subsetD])
qed (use orderD(14) [OF o] in simp_all)

lemma flushed_order:
  assumes o: "order h" and f: "unat (flushed_until_address h) \<le> unat f" "unat f \<le> unat (safe_read_only_address h)"
  shows "order (h\<lparr>flushed_until_address := f\<rparr>)"
proof -
  have "pg (flushed_until_address h) \<le> pg f" by (rule pg_mono [OF f(1)]) (use f(2) page_order(5) [OF o] in simp)
  then show ?thesis using o f by (simp add: order_def)
qed

lemma ShiftFlushedUntilAddress_result:
  assumes "ShiftFlushedUntilAddress h = Some h'"
  obtains c u where "shift_flushed_loop h (pg (flushed_until_address h)) (flushed_until_address h) False = Some (c, u)"
    "h' = h\<lparr>flushed_until_address := (if u \<and> flushed_until_address h < c then c else flushed_until_address h)\<rparr>"
proof -
  from assms obtain c u where
    "shift_flushed_loop h (pg (flushed_until_address h)) (flushed_until_address h) False = Some (c, u)"
    "h' = (if u then h\<lparr>flushed_until_address := snd (snd (MonotonicUpdate (flushed_until_address h) c))\<rparr> else h)"
    by (auto simp: ShiftFlushedUntilAddress_def split: option.splits)
  then show thesis by (intro that) (auto simp: MonotonicUpdate_eq)
qed

lemma ShiftFlushedUntilAddress_order:
  assumes o: "order h" and r: "ShiftFlushedUntilAddress h = Some h'"
  shows "order h'"
proof -
  from r obtain c u where l: "shift_flushed_loop h (pg (flushed_until_address h)) (flushed_until_address h) False = Some (c, u)"
    and h': "h' = h\<lparr>flushed_until_address := (if u \<and> flushed_until_address h < c then c else flushed_until_address h)\<rparr>"
    by (rule ShiftFlushedUntilAddress_result)
  have "unat c \<le> unat (safe_read_only_address h)"
    using shift_flushed_loop_bound [OF l, of "unat (safe_read_only_address h)"] last_flushed_le [OF o] orderD(7) [OF o] by simp
  then show ?thesis unfolding h'
    by (intro flushed_order [OF o]) (use orderD(7) [OF o] in \<open>auto simp: word_less_nat_alt\<close>)
qed

lemma ShiftFlushedUntilAddress_good:
  assumes o: "order z" and g: "good blank (pg (safe_head_address z)) z"
    and nz: "unat (flushed_until_address z) \<noteq> 0 \<or> last_flushed z 0 \<noteq> 0"
  obtains f where "ShiftFlushedUntilAddress z = Some (z\<lparr>flushed_until_address := f\<rparr>)"
    "good blank (pg (safe_head_address z)) (z\<lparr>flushed_until_address := f\<rparr>)"
proof -
  note od = orderD [OF o] and po = page_order [OF o]
  have d: "durable_until z (unat (flushed_until_address z))" using goodD(5) [OF g] by (simp add: durable_until_def)
  have h: "pg (safe_head_address z) \<le> pg (flushed_until_address z)" using po(1) od(5) by simp
  from shift_flushed_loop_good [OF o g od(7) d h nz, of False] obtain c u where
    l: "shift_flushed_loop z (pg (flushed_until_address z)) (flushed_until_address z) False = Some (c, u)"
    "durable_until z (unat c)"
    "\<forall>p \<in> window (pg (safe_head_address z)) (buffer_size z). pg (flushed_until_address z) \<le> p \<longrightarrow> last_flushed z p = 0 \<longrightarrow> pg c \<le> p"
    by auto
  let ?f = "if u \<and> flushed_until_address z < c then c else flushed_until_address z"
  have "ShiftFlushedUntilAddress z = Some (z\<lparr>flushed_until_address := ?f\<rparr>)"
    by (simp add: ShiftFlushedUntilAddress_def l(1) MonotonicUpdate_eq)
  moreover have "good blank (pg (safe_head_address z)) (z\<lparr>flushed_until_address := ?f\<rparr>)"
    by (rule flushed_good [OF g]) (use d l(2,3) write_page(1) [OF o _ goodD(3) [OF g]] in auto)
  ultimately show thesis by (rule that)
qed

lemma distinct_map_remove1:
  assumes "distinct (map f xs)" "r \<in> set xs"
  shows "distinct (map f (remove1 r xs))" "q \<in> set (remove1 r xs) \<Longrightarrow> f q \<noteq> f r \<and> q \<in> set xs"
proof -
  have d: "distinct xs" using assms(1) by (simp add: distinct_map)
  show "distinct (map f (remove1 r xs))"
    using assms(1) d by (auto simp: distinct_map intro: inj_on_subset)
  show "q \<in> set (remove1 r xs) \<Longrightarrow> f q \<noteq> f r \<and> q \<in> set xs"
    using assms d by (auto simp: distinct_map inj_on_def)
qed

lemma mark_flushed_good:
  assumes o: "order z" and g: "good blank (pg (safe_head_address z)) z" and r: "r \<in> set (hl_writes z)" "wr_written r"
  shows "good blank (pg (safe_head_address z)) (mark_flushed blank r (z\<lparr>hl_writes := remove1 r (hl_writes z)\<rparr>))"
proof -
  let ?b = "pg (safe_head_address z)" and ?p = "wr_page r"
  let ?z1 = "z\<lparr>hl_writes := remove1 r (hl_writes z)\<rparr>"
  let ?z = "mark_flushed blank r ?z1"
  note od = orderD [OF o] and wg = goodD(3) [OF g r(1), unfolded write_good_def]
  note wp = write_page [OF o r(1) goodD(3) [OF g r(1)]]
  have "close_of z ?p = Open" using goodD(1) [OF g wp(1)] by (simp add: page_good_def)
  then have z: "?z = set_PageStatus ?p \<lparr>LastFlushedUntilAddress = wr_until r, fps_status = FlushCloseStatus Flushed Open\<rparr> ?z1"
    by (simp add: mark_flushed_def Let_def)
  have st: "PageStatus ?z q = (if q = ?p then \<lparr>LastFlushedUntilAddress = wr_until r, fps_status = FlushCloseStatus Flushed Open\<rparr>
      else PageStatus z q)" if "q \<in> window ?b (buffer_size z)" for q
    using PageStatus_set [of ?z1 ?p ?b q] od(1) wp(1) that unfolding z by simp
  have page: "hl_Page ?z q = hl_Page z q" for q unfolding z by simp
  have dur: "durable ?z = durable z" by (rule durable_cong) simp_all
  have last: "last_good ?z = last_good z" by (rule last_good_cong) simp_all
  note dm = distinct_map_remove1 [OF goodD(4) [OF g] r(1)]
  have "last_good z ?p (unat (wr_until r))" using wg r(2) by (simp add: last_good_def)
  then have "page_good ?z q" if q: "q \<in> window ?b (buffer_size z)" for q
    using goodD(1) [OF g q] st [OF q] by (simp add: page_good_def last page FlushCloseStatus_def)
  moreover have "write_good ?z q" if q: "q \<in> set (remove1 r (hl_writes z))" for q
  proof -
    have q': "q \<in> set (hl_writes z)" "wr_page q \<noteq> ?p" using dm(2) [OF q] by simp_all
    then show ?thesis
      using goodD(3) [OF g q'(1)] st [OF write_page(1) [OF o q'(1) goodD(3) [OF g q'(1)]]]
      by (simp add: write_good_def dur)
  qed
  ultimately show ?thesis using g dm(1) by (simp add: good_def dur)
qed

lemma remove_order:
  assumes o: "order h"
  shows "order (h\<lparr>hl_writes := remove1 r (hl_writes h)\<rparr>)"
  by (rule order_cong [OF o]) (use orderD(1,13,14) [OF o] set_remove1_subset [of r "hl_writes h"] in auto)

lemma complete_write_ok:
  assumes inv: "log_inv blank z" and r: "r \<in> set (hl_writes z)" "wr_written r"
    and first: "flushed_until_address z = 0 \<longrightarrow> wr_page r = 0" and ok: "g_ok z"
  shows "\<exists>f. complete_write blank r z =
      Some ((mark_flushed blank r (z\<lparr>hl_writes := remove1 r (hl_writes z)\<rparr>))\<lparr>flushed_until_address := f\<rparr>) \<and>
    good blank (pg (safe_head_address z))
      ((mark_flushed blank r (z\<lparr>hl_writes := remove1 r (hl_writes z)\<rparr>))\<lparr>flushed_until_address := f\<rparr>)"
proof -
  let ?z1 = "z\<lparr>hl_writes := remove1 r (hl_writes z)\<rparr>"
  let ?z = "mark_flushed blank r ?z1"
  have o: "order z" and g: "good blank (pg (safe_head_address z)) z" using inv ok by (simp_all add: log_inv_def)
  note od = orderD [OF o]
  have o1: "order ?z1" by (rule remove_order [OF o])
  have o2: "order ?z" by (rule mark_flushed_order [OF o1]) (use od(14) [OF r(1)] in simp)
  have u: "unat (wr_until r) \<noteq> 0" using goodD(3) [OF g r(1)] by (simp add: write_good_def)
  have sz: "sized ?z1" using od(1) by simp
  have "last_flushed ?z 0 \<noteq> 0" if "wr_page r = 0"
    using u that PageStatus_set_same [of "set_Page 0 c ?z1" 0 for c] PageStatus_set_same [of ?z1 0] sz
    by (simp add: mark_flushed_def Let_def)
  then have nz: "unat (flushed_until_address ?z) \<noteq> 0 \<or> last_flushed ?z 0 \<noteq> 0" using first by (auto simp: unat_eq_0)
  have "good blank (pg (safe_head_address ?z)) ?z" using mark_flushed_good [OF o g r] by simp
  from ShiftFlushedUntilAddress_good [OF o2 this nz] obtain f where
    "ShiftFlushedUntilAddress ?z = Some (?z\<lparr>flushed_until_address := f\<rparr>)"
    "good blank (pg (safe_head_address ?z)) (?z\<lparr>flushed_until_address := f\<rparr>)" .
  then show ?thesis unfolding complete_write_def flush_callback_eq [OF sz] by auto
qed

lemma complete_write_inv:
  assumes inv: "log_inv blank z" and r: "r \<in> set (hl_writes z)" "wr_written r"
    and first: "flushed_until_address z = 0 \<longrightarrow> wr_page r = 0" and c: "complete_write blank r z = Some z'"
  shows "log_inv blank z'" "head_address z' = head_address z" "read_only_address z' = read_only_address z"
    "safe_head_address z' = safe_head_address z" "safe_read_only_address z' = safe_read_only_address z"
proof -
  let ?z1 = "z\<lparr>hl_writes := remove1 r (hl_writes z)\<rparr>"
  let ?z = "mark_flushed blank r ?z1"
  have o: "order z" using inv by (simp add: log_inv_def)
  note od = orderD [OF o]
  have o1: "order ?z1" by (rule remove_order [OF o])
  have o2: "order ?z" by (rule mark_flushed_order [OF o1]) (use od(14) [OF r(1)] in simp)
  have sz: "sized ?z1" using od(1) by simp
  have s: "ShiftFlushedUntilAddress ?z = Some z'" using c unfolding complete_write_def flush_callback_eq [OF sz] .
  then obtain f where z': "z' = ?z\<lparr>flushed_until_address := f\<rparr>" by (rule ShiftFlushedUntilAddress_result) simp
  show "head_address z' = head_address z" "read_only_address z' = read_only_address z"
    "safe_head_address z' = safe_head_address z" "safe_read_only_address z' = safe_read_only_address z"
    by (simp_all add: z')
  have "good blank (pg (safe_head_address z)) z'" if "g_ok z"
    using complete_write_ok [OF inv r first that] c by auto
  then show "log_inv blank z'" using ShiftFlushedUntilAddress_order [OF o2 s] by (simp add: log_inv_def z')
qed

lemma disk_write_inv:
  assumes inv: "log_inv blank z" and r: "r \<in> set (hl_writes z)"
  shows "log_inv blank (disk_write r z)"
proof -
  have o: "order z" using inv by (simp add: log_inv_def)
  have "order (disk_write r z)"
    by (rule order_cong [OF o]) (use orderD(1,13,14) [OF o] in auto)
  then show ?thesis using inv disk_write_good [OF o _ r] by (simp add: log_inv_def)
qed

end
