(* ===== verification/Hlog_Runs.thy ===== *)
theory Hlog_Runs
  imports Hlog_Flush
begin

text \<open>
  The runs of the hybrid log. The threads enter, refresh and leave the epoch, allocate, open
  pages, write to what they have allocated and move the read-only address; the device writes
  the requests in flight and completes them, in any order.
\<close>

section \<open>The initial state\<close>

definition blank_page :: "'c \<Rightarrow> 'c log_page option" where
  "blank_page blank = Some (\<lambda>_. blank)"

definition open_status :: full_page_status where
  "open_status = \<lparr>LastFlushedUntilAddress = 0, fps_status = FlushCloseStatus Flushed Open\<rparr>"

lemma replicate_fill:
  assumes "k < n"
  shows "(replicate k a @ replicate (n - k) b)[k := a] = replicate (Suc k) a @ replicate (n - Suc k) b"
  by (rule nth_equalityI) (use assms in \<open>auto simp: nth_append nth_list_update simp del: replicate_Suc\<close>)

lemma AllocatePage_fold:
  assumes "buffer_size h = n" "hl_pages h = replicate n None" "page_status h = replicate n FullPageStatus" "k \<le> n"
  shows "fold (AllocatePage blank) [0..<k] h =
    h\<lparr>hl_pages := replicate k (blank_page blank) @ replicate (n - k) None,
      page_status := replicate k open_status @ replicate (n - k) FullPageStatus\<rparr>"
  using assms(4)
proof (induction k)
  case 0
  then show ?case using assms by simp
next
  case (Suc k)
  show ?case
    using Suc assms(1)
    by (simp add: AllocatePage_def clear_Page_def set_status_def set_PageStatus_def set_Page_def PageStatus_def
        page_index_def replicate_fill blank_page_def open_status_def nth_append FullPageStatus_def del: replicate_Suc)
qed

definition log_start :: "'c \<Rightarrow> nat \<Rightarrow> u64 \<Rightarrow> (hlog_error + 'c log_sys)" where
  "log_start blank threads log_size =
     (case PersistentMemoryMalloc_new blank log_size of
        Inl err \<Rightarrow> Inl err
      | Inr h \<Rightarrow> Inr (LightEpoch_Initialize threads
          \<lparr>le_table = [], num_entries = 0, drain_list = [], drain_count = 0, current_epoch = 0,
           safe_to_reclaim_epoch = 0, \<dots> = hlog.extend h \<lparr>g_log = \<lambda>_ _. blank, g_ok = True\<rparr>\<rparr>))"


lemma PersistentMemoryMalloc_state:
  assumes "PersistentMemoryMalloc blank log_size a = Inr h"
  obtains n where "6 \<le> n" "h =
    \<lparr>buffer_size = n, num_mutable_pages = 2, read_only_address = a, safe_read_only_address = a, head_address = a,
     safe_head_address = a, flushed_until_address = a, begin_address = a,
     tail_page_offset = PageOffset_of_address a, hl_pages = replicate n (blank_page blank),
     page_status = replicate n open_status, hl_writes = [], hl_file = Map.empty\<rparr>"
proof -
  let ?n = "unat (ucast (log_size div kPageSize) :: u32)"
  have n: "6 \<le> ?n" using assms by (simp add: PersistentMemoryMalloc_def Let_def kNumHeadPages_def split: if_splits)
  let ?h = "\<lparr>buffer_size = ?n, num_mutable_pages = 2, read_only_address = a, safe_read_only_address = a, head_address = a,
     safe_head_address = a, flushed_until_address = a, begin_address = a,
     tail_page_offset = PageOffset_of_address a, hl_pages = replicate ?n None,
     page_status = replicate ?n FullPageStatus, hl_writes = [], hl_file = Map.empty\<rparr>"
  have "h = fold (AllocatePage blank) [0..<?n] ?h"
    using assms by (simp add: PersistentMemoryMalloc_def Let_def split: if_splits)
  also have "\<dots> = ?h\<lparr>hl_pages := replicate ?n (blank_page blank), page_status := replicate ?n open_status\<rparr>"
    by (subst AllocatePage_fold [of _ ?n]) simp_all
  finally show thesis using that [OF n] by simp
qed

lemma PersistentMemoryMalloc_new_state:
  assumes "PersistentMemoryMalloc_new blank log_size = Inr h'"
  obtains n p where "6 \<le> n" "unat (po_page p) = 0" "unat (po_offset p) = 64" "h' =
    \<lparr>buffer_size = n, num_mutable_pages = 2, read_only_address = Address 0 64, safe_read_only_address = Address 0 64,
     head_address = Address 0 64, safe_head_address = Address 0 64, flushed_until_address = 0,
     begin_address = Address 0 64, tail_page_offset = p, hl_pages = replicate n (blank_page blank),
     page_status = replicate n open_status, hl_writes = [], hl_file = Map.empty\<rparr>"
proof -
  from assms obtain h where h: "PersistentMemoryMalloc blank log_size 0 = Inr h"
    by (auto simp: PersistentMemoryMalloc_new_def split: sum.splits)
  obtain n where n: "6 \<le> n" and heq: "h =
    \<lparr>buffer_size = n, num_mutable_pages = 2, read_only_address = 0, safe_read_only_address = 0, head_address = 0,
     safe_head_address = 0, flushed_until_address = 0, begin_address = 0,
     tail_page_offset = PageOffset_of_address 0, hl_pages = replicate n (blank_page blank),
     page_status = replicate n open_status, hl_writes = [], hl_file = Map.empty\<rparr>"
    using PersistentMemoryMalloc_state [OF h] by metis
  have z: "tail_page h = 0" "tail_offset h = 0"
    by (simp_all add: heq PageOffset_of_address_def addr_page_def addr_offset_def)
  have t: "tail_offset h + unat (64 :: u32) < 2 ^ 41" using z by simp
  note al = hl_Allocate_tail [OF t]
  define p where "p = snd (po_Reserve 64 (tail_page_offset h))"
  have p: "unat (po_page p) = 0" "unat (po_offset p) = 64" using al z by (simp_all add: p_def)
  then have "po_page p = 0" "po_offset p = 64" by (simp_all add: word_unat_eq_iff)
  then have a: "Address_of_PageOffset p = Address 0 64" by (simp add: Address_of_PageOffset_def)
  obtain x y where "hl_Allocate 64 h = (x, y, h\<lparr>tail_page_offset := p\<rparr>)"
    using al(3) by (metis p_def prod.collapse)
  with assms h a have h': "h' = h\<lparr>tail_page_offset := p, begin_address := Address 0 64, read_only_address := Address 0 64,
      safe_read_only_address := Address 0 64, head_address := Address 0 64, safe_head_address := Address 0 64\<rparr>"
    by (simp add: PersistentMemoryMalloc_new_def Let_def)
  show thesis by (rule that [OF n p]) (simp add: h' heq)
qed

lemma log_start_state:
  assumes "log_start blank threads log_size = Inr s"
  shows "num_entries s = threads" "registered s = {}" "current_epoch s = 1" "epoch_ok s"
    "sized (client_state s)" "num_mutable_pages (client_state s) = 2"
    "safe_head_address (client_state s) = Address 0 64" "head_address (client_state s) = Address 0 64"
    "safe_read_only_address (client_state s) = Address 0 64" "read_only_address (client_state s) = Address 0 64"
    "begin_address (client_state s) = Address 0 64" "flushed_until_address (client_state s) = 0"
    "tail_page (client_state s) = 0" "tail_offset (client_state s) = 64"
    "hl_pages (client_state s) = replicate (buffer_size (client_state s)) (blank_page blank)"
    "page_status (client_state s) = replicate (buffer_size (client_state s)) open_status"
    "hl_writes (client_state s) = []" "g_log (client_state s) = (\<lambda>_ _. blank)" "g_ok (client_state s)"
proof -
  from assms obtain h' where new: "PersistentMemoryMalloc_new blank log_size = Inr h'"
    and s: "s = LightEpoch_Initialize threads
          \<lparr>le_table = [], num_entries = 0, drain_list = [], drain_count = 0, current_epoch = 0,
           safe_to_reclaim_epoch = 0, \<dots> = hlog.extend h' \<lparr>g_log = \<lambda>_ _. blank, g_ok = True\<rparr>\<rparr>"
    by (auto simp: log_start_def split: sum.splits)
  obtain n p where n: "6 \<le> n" and p: "unat (po_page p) = 0" "unat (po_offset p) = 64" and h': "h' =
    \<lparr>buffer_size = n, num_mutable_pages = 2, read_only_address = Address 0 64, safe_read_only_address = Address 0 64,
     head_address = Address 0 64, safe_head_address = Address 0 64, flushed_until_address = 0,
     begin_address = Address 0 64, tail_page_offset = p, hl_pages = replicate n (blank_page blank),
     page_status = replicate n open_status, hl_writes = [], hl_file = Map.empty\<rparr>"
    using PersistentMemoryMalloc_new_state [OF new] by metis
  have more: "client_state s = hlog.extend h' \<lparr>g_log = \<lambda>_ _. blank, g_ok = True\<rparr>"
    by (simp add: s LightEpoch_Initialize_def)
  note all = more h' hlog.defs
  show "epoch_ok s" unfolding s by (rule LightEpoch_Initialize_ok)
  show "num_entries s = threads" "current_epoch s = 1" by (simp_all add: s LightEpoch_Initialize_def)
  show "registered s = {}" by (auto simp: s LightEpoch_Initialize_def registered_def EpochAction_def occupied_def)
  show "sized (client_state s)" using n by (auto simp: all sized_def blank_page_def)
  show "num_mutable_pages (client_state s) = 2"
    "safe_head_address (client_state s) = Address 0 64" "head_address (client_state s) = Address 0 64"
    "safe_read_only_address (client_state s) = Address 0 64" "read_only_address (client_state s) = Address 0 64"
    "begin_address (client_state s) = Address 0 64" "flushed_until_address (client_state s) = 0"
    "tail_page (client_state s) = 0" "tail_offset (client_state s) = 64"
    "hl_pages (client_state s) = replicate (buffer_size (client_state s)) (blank_page blank)"
    "page_status (client_state s) = replicate (buffer_size (client_state s)) open_status"
    "hl_writes (client_state s) = []" "g_log (client_state s) = (\<lambda>_ _. blank)" "g_ok (client_state s)"
    using p by (simp_all add: all)
qed

lemma start_address: "unat (Address 0 64) = 64" "pg (Address 0 64) = 0" "off (Address 0 64) = 64"
  using unat_Address [of 0 64] page_Address [of 0 64] offset_Address [of 64 0] by simp_all

lemma log_start_ok:
  assumes "log_start blank threads log_size = Inr s"
  shows "log_client.client_ok blank s"
proof -
  note st = log_start_state [OF assms]
  let ?z = "client_state s"
  have n: "6 \<le> buffer_size ?z" using st(5) by (simp add: sized_def)
  have z0: "pg (0 :: address) = 0" by (simp add: addr_page_def)
  have o: "order ?z"
    unfolding order_def using st(5) n by (auto simp: st(6-17) start_address z0 open_status_def)
  have idx: "page_index ?z p < buffer_size ?z" for p by (rule page_index_less [OF st(5)])
  have "hl_Page ?z p = Some (\<lambda>_. blank)" "PageStatus ?z p = open_status" for p
    using idx [of p] by (simp_all add: hl_Page_def PageStatus_def st(15,16) blank_page_def)
  then have "good blank 0 ?z"
    by (simp add: good_def page_good_def last_good_def durable_def st(12,17,18) open_status_def FlushCloseStatus_def)
  then have "log_inv blank ?z" using o by (simp add: log_inv_def st(7) start_address)
  then show ?thesis using st(2,4) by (simp add: log_client.client_ok_def)
qed



section \<open>Runs\<close>

text \<open>
  The steps, labelled with the thread whose entry of the epoch table they change. Page
  numbers stay below \<open>2\<^sup>2\<^sup>3\<close>, reservations below the 32 bits that \<open>GetTailAddress\<close> reads, and
  the epoch does not run out; the first page completes before any later one.
\<close>

inductive log_step :: "'c \<Rightarrow> nat option \<Rightarrow> 'c log_sys \<Rightarrow> 'c log_sys \<Rightarrow> bool" for blank :: 'c where
  protect: "1 \<le> t \<Longrightarrow> t \<le> num_entries s \<Longrightarrow> log_step blank (Some t) s (snd (Protect t s))"
| refresh: "1 \<le> t \<Longrightarrow> t \<le> num_entries s \<Longrightarrow>
    log_step blank (Some t) s (snd (ProtectAndDrain (glog_act blank) t s))"
| unprotect: "log_step blank (Some t) s (Unprotect t s)"
| allocate: "tail_offset (client_state s) + unat n < 2 ^ 32 \<Longrightarrow>
    log_step blank None s (light_epoch.more_update (\<lambda>h. snd (snd (hl_Allocate n h))) s)"
| new_page: "unat (current_epoch s) + 2 < unat kLocked \<Longrightarrow> p \<le> tail_page (client_state s) \<Longrightarrow>
    tail_page (client_state s) + 2 < 2 ^ 23 \<Longrightarrow> hl_NewPage (glog_act blank) id blank p s = Some (b, s') \<Longrightarrow>
    log_step blank None s s'"
| read_only: "unat (current_epoch s) + 1 < unat kLocked \<Longrightarrow>
    ShiftReadOnlyToTail (glog_act blank) id s = Some (a, s') \<Longrightarrow> log_step blank None s s'"
| put: "allocated (client_state s) a \<Longrightarrow> unat (safe_read_only_address (client_state s)) \<le> unat a \<Longrightarrow>
    log_step blank None s (light_epoch.more_update (log_put a v) s)"
| disk: "r \<in> set (hl_writes (client_state s)) \<Longrightarrow>
    log_step blank None s (light_epoch.more_update (disk_write r) s)"
| complete: "r \<in> set (hl_writes (client_state s)) \<Longrightarrow> wr_written r \<Longrightarrow>
    (flushed_until_address (client_state s) = 0 \<longrightarrow> wr_page r = 0) \<Longrightarrow>
    complete_write blank r (client_state s) = Some z \<Longrightarrow>
    log_step blank None s (light_epoch.more_update (\<lambda>_. z) s)"

definition log_initial :: "'c \<Rightarrow> 'c log_sys \<Rightarrow> bool" where
  "log_initial blank s \<longleftrightarrow> (\<exists>threads log_size. log_start blank threads log_size = Inr s)"

text \<open>What a step of another thread, or of no thread, keeps.\<close>

lemma step_kept:
  assumes st: "log_step blank l s s'" and ok: "log_client.client_ok blank s"
  shows "log_client.client_ok blank s'" "num_entries s' = num_entries s"
    "log_client.thread_guard t g s \<Longrightarrow> l \<noteq> Some t \<Longrightarrow> log_client.thread_guard t g s'"
    "unat (read_only_address (client_state s)) \<le> unat (read_only_address (client_state s'))"
    "unat (head_address (client_state s)) \<le> unat (head_address (client_state s'))"
proof -
  have "log_client.client_ok blank s' \<and> num_entries s' = num_entries s \<and>
    (log_client.thread_guard t g s \<longrightarrow> l \<noteq> Some t \<longrightarrow> log_client.thread_guard t g s') \<and>
    unat (read_only_address (client_state s)) \<le> unat (read_only_address (client_state s')) \<and>
    unat (head_address (client_state s)) \<le> unat (head_address (client_state s'))"
  proof (cases "l = None")
    case True
    have "kept blank s s'"
      using st
    proof cases
      case (allocate n)
      then show ?thesis using hl_Allocate_kept [OF ok] by simp
    next
      case (new_page p b)
      then show ?thesis using hl_NewPage_kept [OF ok] by blast
    next
      case (read_only a)
      then show ?thesis using ShiftReadOnlyToTail_kept(1) [OF ok] by blast
    next
      case (put a v)
      then show ?thesis using log_put_kept [OF ok] by blast
    next
      case (disk r)
      show ?thesis unfolding disk(2)
        by (rule update_kept [OF ok]) (use disk_write_inv [OF client_inv [OF ok] disk(3)] in simp_all)
    next
      case (complete r z)
      note c = complete_write_inv [OF client_inv [OF ok] complete(3-6)]
      show ?thesis unfolding complete(2) by (rule update_kept [OF ok]) (simp_all add: c)
    qed (use True in simp_all)
    then show ?thesis unfolding kept_def by blast
  next
    case False
    have "unat (read_only_address (client_state s')) = unat (read_only_address (client_state s)) \<and>
      unat (head_address (client_state s')) = unat (head_address (client_state s)) \<and> num_entries s' = num_entries s"
      using st
    proof cases
      case (refresh t)
      have "head_address (client_state s') = head_address (client_state s)"
        "read_only_address (client_state s') = read_only_address (client_state s)"
        unfolding refresh(2) by (rule ProtectAndDrain_keeps; simp add: glog_act_keeps)+
      then show ?thesis by (simp add: refresh(2)) (simp add: ProtectAndDrain_def Let_def)
    qed (use False in \<open>simp_all add: Protect_def Unprotect_def set_local_epoch_def Let_def\<close>)
    moreover have "log_client.client_ok blank s' \<and>
      (log_client.thread_guard t g s \<longrightarrow> l \<noteq> Some t \<longrightarrow> log_client.thread_guard t g s')"
      using st
    proof cases
      case (protect t)
      then show ?thesis using log_client.Protect_client(1,2) [OF ok] by simp
    next
      case (refresh t)
      then show ?thesis using log_client.ProtectAndDrain_client(1,2) [OF ok] by simp
    next
      case (unprotect t)
      then show ?thesis using log_client.Unprotect_client(1,2) [OF ok] by simp
    qed (use False in simp_all)
    ultimately show ?thesis by simp
  qed
  then show "log_client.client_ok blank s'" "num_entries s' = num_entries s"
    "log_client.thread_guard t g s \<Longrightarrow> l \<noteq> Some t \<Longrightarrow> log_client.thread_guard t g s'"
    "unat (read_only_address (client_state s)) \<le> unat (read_only_address (client_state s'))"
    "unat (head_address (client_state s)) \<le> unat (head_address (client_state s'))" by blast+
qed

interpretation log_ts: transition_system "log_initial blank" "\<lambda>s s'. \<exists>l. log_step blank l s s'"
  "log_client.client_ok blank"
proof
  show "log_client.client_ok blank s" if "log_initial blank s" for s :: "'a log_sys"
    using that log_start_ok by (auto simp: log_initial_def)
  show "log_client.client_ok blank t" if "log_client.client_ok blank s" "\<exists>l. log_step blank l s t" for s t :: "'a log_sys"
    using that by (auto dest: step_kept(1))
qed

text \<open>Reading an address: from the buffer from the head address on, from the file below it.\<close>

definition log_read :: "('c, 's) hlog_scheme \<Rightarrow> address \<Rightarrow> 'c option" where
  "log_read h a = (if a \<ge> head_address h then hl_Get h a
     else map_option (\<lambda>pg. pg (off a)) (hl_file h (kPageSize * of_nat (pg a))))"

lemma in_buffer:
  assumes inv: "log_inv blank z" and ok: "g_ok z" and a: "allocated z a"
    and h: "unat (safe_head_address z) \<le> unat a"
  shows "hl_Get z a = Some (g_log z (pg a) (off a))"
proof -
  have o: "order z" and g: "good blank (pg (safe_head_address z)) z" using inv ok by (simp_all add: log_inv_def)
  have "pg (safe_head_address z) \<le> pg a" using h a by (intro pg_mono) (simp_all add: allocated_def)
  then have "pg a \<in> window (pg (safe_head_address z)) (buffer_size z)"
    using allocated_page [OF a] orderD(12) [OF o] by (simp add: window_def)
  then show ?thesis using goodD(1) [OF g] by (simp add: page_good_def hl_Get_def)
qed

lemma log_read_correct:
  assumes inv: "log_inv blank z" and ok: "g_ok z" and a: "allocated z a" "begin_address z \<le> a"
  shows "log_read z a = Some (g_log z (pg a) (off a))"
proof (cases "a \<ge> head_address z")
  case True
  have "unat (safe_head_address z) \<le> unat a"
    using True orderD(3) [of z] inv by (simp add: log_inv_def word_le_nat_alt)
  then show ?thesis using in_buffer [OF inv ok a(1)] True by (simp add: log_read_def)
next
  case False
  have o: "order z" and g: "good blank (pg (safe_head_address z)) z" using inv ok by (simp_all add: log_inv_def)
  note od = orderD [OF o] and po = page_order [OF o]
  have lt: "unat a < unat (head_address z)" using False by (simp add: word_le_nat_alt)
  then have "head_address z \<noteq> begin_address z" using a(2) by (auto simp: word_le_nat_alt)
  then have "unat a < 2 ^ 25 * pg (head_address z)" using od(6) addr_nat [OF od(4)] lt by simp
  then have "pg a < pg (head_address z)" using mult_less_pg [of a] a(1) by (simp add: allocated_def)
  then have "pg a + 1 \<le> pg (flushed_until_address z)" using od(5) by simp
  then have "2 ^ 25 * (pg a + 1) \<le> 2 ^ 25 * pg (flushed_until_address z)" by (rule mult_left_mono) simp
  also have "\<dots> \<le> unat (flushed_until_address z)" using addr_nat [OF po(4)] by simp
  finally have "min (2 ^ 25) (unat (flushed_until_address z) - 2 ^ 25 * pg a) = 2 ^ 25" by simp
  then have "durable z (pg a) (2 ^ 25)" using goodD(5) [OF g, of "pg a"] by (simp only:)
  then show ?thesis using False off_less [of a] by (simp add: log_read_def durable_def file_offset_def)
qed



section \<open>What the runs give\<close>

abbreviation log_steps :: "'c \<Rightarrow> 'c log_sys \<Rightarrow> 'c log_sys \<Rightarrow> bool" where
  "log_steps blank \<equiv> (\<lambda>s s'. \<exists>l. log_step blank l s s')\<^sup>*\<^sup>*"

text \<open>The steps while thread \<open>t\<close> stays in the epoch it has entered.\<close>

abbreviation other_steps :: "'c \<Rightarrow> nat \<Rightarrow> 'c log_sys \<Rightarrow> 'c log_sys \<Rightarrow> bool" where
  "other_steps blank t \<equiv> (\<lambda>s s'. \<exists>l. l \<noteq> Some t \<and> log_step blank l s s')\<^sup>*\<^sup>*"

lemma other_steps_kept:
  assumes "other_steps blank t s s'" "log_client.client_ok blank s" "log_client.thread_guard t g s"
  shows "log_client.client_ok blank s' \<and> log_client.thread_guard t g s'"
  using assms(1)
proof (induction rule: rtranclp_induct)
  case (step x y)
  then obtain l where l: "l \<noteq> Some t" "log_step blank l x y" by auto
  from step.IH have i: "log_client.client_ok blank x" "log_client.thread_guard t g x" by simp_all
  show ?case using step_kept(1) [OF l(2) i(1)] step_kept(3) [OF l(2) i(1) i(2) l(1)] by simp
qed (use assms in simp)

lemma protect_guard:
  assumes ok: "log_client.client_ok blank s" and t: "1 \<le> t" "t \<le> num_entries s"
  shows "log_client.thread_guard t (read_only_address (client_state s), head_address (client_state s)) (snd (Protect t s))"
proof (rule log_client.Protect_client(3) [OF ok t])
  have o: "order (client_state s)" using client_inv [OF ok] by (simp add: log_inv_def)
  show "log_guarded (read_only_address (client_state s), head_address (client_state s)) (client_state s)"
    using orderD(3,8) [OF o] by (simp add: log_guarded_def)
  have "log_harmless a (read_only_address (client_state s), head_address (client_state s))"
    if "log_pending a (client_state s)" for a
    using that by (cases a) simp_all
  then show "\<forall>(e, a)\<in>registered s. log_harmless a (read_only_address (client_state s), head_address (client_state s))"
    using log_client.client_pending [OF ok] by blast
qed



text \<open>
  C14: in every run, overlapping flushes included, the addresses of the log stay ordered: the pages
  closed are pages flushed, only read-only memory is flushed, the read-only address does
  not pass the tail, and the tail page and the one after it have their own places in the buffer.
\<close>

theorem log_addresses_ordered:
  assumes "log_initial blank s0" "log_steps blank s0 s"
  shows "safe_head_address (client_state s) \<le> head_address (client_state s) \<and>
    addr_page (head_address (client_state s)) \<le> addr_page (flushed_until_address (client_state s)) \<and>
    flushed_until_address (client_state s) \<le> safe_read_only_address (client_state s) \<and>
    safe_read_only_address (client_state s) \<le> read_only_address (client_state s) \<and>
    read_only_address (client_state s) \<le> GetTailAddress (client_state s) \<and>
    tail_page (client_state s) + 1 < pg (safe_head_address (client_state s)) + buffer_size (client_state s)"
proof -
  have "order (client_state s)"
    using client_inv [OF log_ts.invar_reachable [OF assms]] by (simp add: log_inv_def)
  note o = orderD [OF this] and t = GetTailAddress_nat [OF orderD(11) [OF this]]
  show ?thesis using o(3,5,7,8,9,12) t by (simp add: word_le_nat_alt)
qed

text \<open>
  C15: the completion of a write returns: the loop that advances the flushed-until address over
  the pages of the circular buffer ends in every run without overlapping flushes.
\<close>

theorem flush_completion_returns:
  assumes "log_initial blank s0" "log_steps blank s0 s" "g_ok (client_state s)"
    and "r \<in> set (hl_writes (client_state s))" "wr_written r"
    and "flushed_until_address (client_state s) = 0 \<longrightarrow> wr_page r = 0"
  shows "\<exists>z. complete_write blank r (client_state s) = Some z"
  using complete_write_ok [OF client_inv [OF log_ts.invar_reachable [OF assms(1,2)]] assms(4-6,3)] by blast



section \<open>A run\<close>

text \<open>
  The smallest log, for two threads: a hundred bytes are allocated, a value is written to the first of
  them, the log is made read-only to its tail, thread 1 enters the epoch, which runs the
  flush, and the device writes the page.
\<close>

lemma kPageSize_num: "kPageSize = 0x2000000"
  by (simp add: kPageSize_def kMaxOffset_def kOffsetBits_def)

lemma log_starts: "\<exists>s. log_start blank 2 0xC000000 = Inr s"
proof -
  have "(0xC000000 :: u64) mod 0x2000000 = 0" "(0xC000000 :: u64) div 0x2000000 = 6" by simp_all
  then have "\<exists>h. PersistentMemoryMalloc blank 0xC000000 0 = Inr h"
    by (simp add: PersistentMemoryMalloc_def kPageSize_num kNumHeadPages_def Let_def)
  then show ?thesis
    by (auto simp: log_start_def PersistentMemoryMalloc_new_def Let_def split: prod.split)
qed

definition run_start :: "nat log_sys" where
  "run_start = projr (log_start 0 2 0xC000000)"

lemma run_start: "log_start 0 2 0xC000000 = Inr run_start" "log_initial 0 run_start"
proof -
  from log_starts show e: "log_start 0 2 0xC000000 = Inr run_start" by (metis run_start_def sum.sel(2))
  then show "log_initial 0 run_start" by (auto simp: log_initial_def)
qed

definition run_put :: "nat log_sys \<Rightarrow> nat log_sys" where
  "run_put s = light_epoch.more_update (log_put (Address 0 64) 7)
     (light_epoch.more_update (\<lambda>h. snd (snd (hl_Allocate 100 h))) s)"

lemma run_put:
  assumes "client_state s = client_state run_start"
  shows "\<exists>s1. log_step 0 None s s1 \<and> log_step 0 None s1 (run_put s)"
    "allocated (client_state (run_put s)) (Address 0 64)"
    "hl_Get (client_state (run_put s)) (Address 0 64) = Some 7"
    "tail_page (client_state (run_put s)) = 0" "tail_offset (client_state (run_put s)) = 164"
    "\<exists>t. client_state (run_put s) = log_put (Address 0 64) 7 ((client_state run_start)\<lparr>tail_page_offset := t\<rparr>)"
proof -
  note st = log_start_state [OF run_start(1)]
  let ?h = "client_state run_start" and ?s = "light_epoch.more_update (\<lambda>h. snd (snd (hl_Allocate 100 h))) s"
  have n: "tail_offset ?h + unat (100 :: u32) < 2 ^ 32" using st(14) by simp
  then have n': "tail_offset ?h + unat (100 :: u32) < 2 ^ 41" by simp
  note al = hl_Allocate_tail [OF n']
  have s1: "log_step 0 None s ?s" by (rule allocate) (use n assms in simp)
  have tail: "tail_page (client_state ?s) = 0" "tail_offset (client_state ?s) = 164"
    using al(1,2) st(13,14) assms by simp_all
  then have a: "allocated (client_state ?s) (Address 0 64)" by (simp add: allocated_def start_address)
  have ro: "safe_read_only_address (client_state ?s) = Address 0 64" using al(3) st(9) assms by simp
  have "log_step 0 None ?s (run_put s)"
    unfolding run_put_def by (rule put) (use a ro in simp_all)
  with s1 show "\<exists>s1. log_step 0 None s s1 \<and> log_step 0 None s1 (run_put s)" by blast
  show "tail_page (client_state (run_put s)) = 0" "tail_offset (client_state (run_put s)) = 164"
    using tail by (simp_all add: run_put_def)
  then show "allocated (client_state (run_put s)) (Address 0 64)" by (simp add: allocated_def start_address)
  show m: "\<exists>t. client_state (run_put s) = log_put (Address 0 64) 7 (?h\<lparr>tail_page_offset := t\<rparr>)"
    using al(3) assms by (auto simp: run_put_def)
  have b: "6 \<le> buffer_size ?h" using st(5) by (simp add: sized_def)
  from m show "hl_Get (client_state (run_put s)) (Address 0 64) = Some 7"
    using b by (auto simp: hl_Get_def start_address log_put_def hl_Put_def hl_Page_def set_Page_def page_index_def st(15)
        blank_page_def)
qed

lemma two_steps: "R x y \<Longrightarrow> R y z \<Longrightarrow> R\<^sup>*\<^sup>* x z"
  by (rule rtranclp.rtrancl_into_rtrancl [OF r_into_rtranclp])

lemma run_put_steps:
  "client_state s = client_state run_start \<Longrightarrow> log_steps 0 s (run_put s)"
  "client_state s = client_state run_start \<Longrightarrow> other_steps 0 t s (run_put s)"
proof -
  assume "client_state s = client_state run_start"
  from run_put(1) [OF this] obtain s1 where s1: "log_step 0 None s s1" "log_step 0 None s1 (run_put s)" by blast
  show "log_steps 0 s (run_put s)" by (rule two_steps [of _ _ s1]) (use s1 in blast)+
  show "other_steps 0 t s (run_put s)" by (rule two_steps [of _ _ s1]) (use s1 in blast)+
qed



theorem log_addresses_ordered_witness:
  "log_steps 0 run_start (run_put run_start) \<and>
   read_only_address (client_state (run_put run_start)) \<le> GetTailAddress (client_state (run_put run_start))"
  using log_addresses_ordered [OF run_start(2) run_put_steps(1) [OF refl]] run_put_steps(1) [OF refl] by simp


text \<open>Registering an action when the first slot is free, and running it when no thread is older.\<close>

lemma first_action:
  assumes "drain_count s = 0" "drain_list s = EpochAction # sls"
  shows "BumpCurrentEpoch_action act a s = Some (current_epoch s + 1,
    s\<lparr>current_epoch := current_epoch s + 1, drain_list := \<lparr>ea_epoch = current_epoch s, ea_callback = Some a\<rparr> # sls,
      drain_count := 1\<rparr>)"
  using assms
  by (simp add: BumpCurrentEpoch_action_def BumpCurrentEpoch_def Let_def bump_loop.simps TryPush_def
      EpochAction_def compare_exchange_def)

definition run_flush :: "nat log_sys" where
  "run_flush = (let s = run_put run_start;
       s = snd (the (ShiftReadOnlyToTail (glog_act 0) id s))
     in snd (ProtectAndDrain (glog_act 0) 1 s))"

lemma run_tail:
  "GetTailAddress (client_state (run_put run_start)) = Address 0 164"
  using unat_Address [of 0 164] GetTailAddress_nat [of "client_state (run_put run_start)"] run_put(4,5) [OF refl]
  by (simp add: word_unat_eq_iff)

lemma tail_164: "unat (Address 0 164) = 164" "pg (Address 0 164) = 0" "off (Address 0 164) = 164"
  using unat_Address [of 0 164] page_Address [of 0 164] offset_Address [of 164 0] by simp_all

lemma run_flush:
  "\<exists>s1. ShiftReadOnlyToTail (glog_act 0) id (run_put run_start) = Some (Address 0 164, s1) \<and>
     current_epoch s1 = 2 \<and> num_entries s1 = 2 \<and> run_flush = snd (ProtectAndDrain (glog_act 0) 1 s1)"
  "client_state run_flush = glog_act 0 (PagesMarkedReadOnly (Address 0 164))
     ((client_state (run_put run_start))\<lparr>read_only_address := Address 0 164\<rparr>)"
proof -
  note st = log_start_state [OF run_start(1)]
  let ?s = "run_put run_start" and ?a = "PagesMarkedReadOnly (Address 0 164)"
  let ?z = "(client_state ?s)\<lparr>read_only_address := Address 0 164\<rparr>"
  obtain t where t: "client_state ?s = log_put (Address 0 64) 7 ((client_state run_start)\<lparr>tail_page_offset := t\<rparr>)"
    using run_put(6) [OF refl] ..
  from run_start(1) obtain z where rs: "LightEpoch_Initialize 2 \<lparr>le_table = [], num_entries = 0, drain_list = [],
      drain_count = 0, current_epoch = 0, safe_to_reclaim_epoch = 0, \<dots> = z\<rparr> = run_start"
    by (auto simp: log_start_def split: sum.splits)
  have epoch: "le_table ?s = replicate 4 Entry" "num_entries ?s = 2" "drain_count ?s = 0" "current_epoch ?s = 1"
    "drain_list ?s = replicate 256 EpochAction"
    by (simp_all add: run_put_def rs [symmetric] LightEpoch_Initialize_def kDrainListSize_def)
  have "(256 :: nat) = Suc 255" by simp
  then have dl: "drain_list ?s = EpochAction # replicate 255 EpochAction" using epoch(5) by (simp only: replicate_Suc)
  have ro: "read_only_address (client_state ?s) < Address 0 164"
    using t st(10) by (simp add: word_less_nat_alt tail_164 start_address)
  define s0 where "s0 = light_epoch.more_update (\<lambda>h. h\<lparr>read_only_address := Address 0 164\<rparr>) ?s"
  define s1 where "s1 = s0\<lparr>current_epoch := 2, drain_list := \<lparr>ea_epoch = 1, ea_callback = Some ?a\<rparr> # replicate 255 EpochAction,
      drain_count := 1\<rparr>"
  have "BumpCurrentEpoch_action (glog_act 0) ?a s0 = Some (2, s1)"
    using first_action [of s0 "replicate 255 EpochAction" "glog_act 0" ?a] epoch(1-4) dl by (simp add: s0_def s1_def)
  then have sh: "ShiftReadOnlyToTail (glog_act 0) id ?s = Some (Address 0 164, s1)"
    using ro by (simp add: ShiftReadOnlyToTail_def Let_def MonotonicUpdate_eq run_tail s0_def)
  moreover have n: "current_epoch s1 = 2" "num_entries s1 = 2" "drain_count s1 = 1"
    using epoch by (simp_all add: s1_def s0_def)
  moreover have rf: "run_flush = snd (ProtectAndDrain (glog_act 0) 1 s1)" by (simp add: run_flush_def sh Let_def)
  ultimately show "\<exists>s1. ShiftReadOnlyToTail (glog_act 0) id ?s = Some (Address 0 164, s1) \<and>
     current_epoch s1 = 2 \<and> num_entries s1 = 2 \<and> run_flush = snd (ProtectAndDrain (glog_act 0) 1 s1)" by blast
  let ?p = "set_local_epoch 1 2 s1"
  have "log_client.client_ok 0 ?s"
    by (rule log_ts.invar_reachable [OF run_start(2) run_put_steps(1) [OF refl]])
  moreover have "unat (current_epoch ?s) + 1 < unat kLocked" using epoch by (simp add: kLocked_def)
  ultimately have "log_client.client_ok 0 s1" using ShiftReadOnlyToTail_kept(1) [OF _ _ sh] by (simp add: kept_def)
  then have "epoch_ok ?p" using n by (intro set_local_epoch_ok log_client.client_epoch) simp_all
  from Drain_drained [OF this, of 2] have d: "Drain (glog_act 0) 2 ?p =
      drained (glog_act 0) 0 (snd (ComputeNewSafeToReclaimEpoch 2 ?p))" using n by simp
  have tab: "le_table ?p = (replicate 4 Entry)[1 := Entry\<lparr>local_current_epoch := 2\<rparr>]"
    using epoch by (simp add: set_local_epoch_def s1_def s0_def)
  have safe: "safe_to_reclaim_epoch (snd (ComputeNewSafeToReclaimEpoch 2 ?p)) = 1"
    using n tab by (simp add: ComputeNewSafeToReclaimEpoch_def Let_def numeral_eq_Suc Entry_def)
  have "\<not> kFree \<le> 1" by code_simp
  then have ra: "ready_actions 1 (drain_list s1) = [?a]"
    by (simp add: s1_def ready_actions_def ready_def EpochAction_def set_local_epoch_def filter_replicate)
  have cl: "client_state ?p = ?z" by (simp add: s1_def s0_def set_local_epoch_def)
  have "client_state (snd (ProtectAndDrain (glog_act 0) 1 s1)) = client_state (Drain (glog_act 0) 2 ?p)"
    using n tab by (simp add: ProtectAndDrain_def Let_def numeral_eq_Suc)
  also have "\<dots> = glog_act 0 ?a ?z"
    unfolding d by (simp add: drained_def Let_def safe ra cl del: One_nat_def)
  finally show "client_state run_flush = glog_act 0 ?a ?z" unfolding rf .
qed


lemma run_flush_steps: "log_steps 0 run_start run_flush"
proof -
  obtain s1 where s1: "ShiftReadOnlyToTail (glog_act 0) id (run_put run_start) = Some (Address 0 164, s1)"
    "num_entries s1 = 2" "run_flush = snd (ProtectAndDrain (glog_act 0) 1 s1)"
    using run_flush(1) by blast
  have e: "current_epoch (run_put run_start) = 1" using log_start_state(3) [OF run_start(1)] by (simp add: run_put_def)
  have "log_step 0 None (run_put run_start) s1" by (rule read_only [OF _ s1(1)]) (simp add: e kLocked_def)
  moreover have "log_step 0 (Some 1) s1 run_flush" unfolding s1(3) by (rule refresh) (use s1(2) in simp_all)
  ultimately have "log_steps 0 (run_put run_start) run_flush" by (intro two_steps [of _ _ s1]) blast+
  then show ?thesis using run_put_steps(1) [OF refl] by (rule rtranclp_trans [rotated])
qed

definition run_disk :: "nat log_sys" where
  "run_disk = light_epoch.more_update (disk_write (flush_request (Address 0 164) 0)) run_flush"

lemma run_disk:
  "log_steps 0 run_start run_disk" "g_ok (client_state run_disk)"
  "hl_writes (client_state run_disk) = [(flush_request (Address 0 164) 0)\<lparr>wr_written := True\<rparr>]"
proof -
  note st = log_start_state [OF run_start(1)]
  let ?a = "Address 0 164" and ?z = "client_state (run_put run_start)"
  obtain t where t: "?z = log_put (Address 0 64) 7 ((client_state run_start)\<lparr>tail_page_offset := t\<rparr>)"
    using run_put(6) [OF refl] ..
  have sz: "sized (?z\<lparr>read_only_address := ?a\<rparr>)" unfolding t by (simp add: sized_log_put st(5))
  have lt: "safe_read_only_address ?z < ?a" using t st(9) by (simp add: word_less_nat_alt tail_164 start_address)
  have "0 < addr_offset ?a" by (simp add: word_less_nat_alt tail_164)
  then have fp: "flush_pages (pg (safe_read_only_address ?z)) ?a = [0]"
    using t st(9) by (simp add: flush_pages_def tail_164 start_address)
  let ?f = "OnPagesMarkedReadOnly (\<lambda>_. Ok) ?a (?z\<lparr>read_only_address := ?a\<rparr>)"
  have f: "?f = mark_in_progress 0 (?z\<lparr>read_only_address := ?a, safe_read_only_address := ?a,
      hl_writes := [flush_request ?a 0]\<rparr>)"
    using OnPagesMarkedReadOnly_eq [OF sz, of ?a] lt fp t st(17) by simp
  have w: "hl_writes (client_state run_flush) = [flush_request ?a 0]" "g_ok (client_state run_flush)"
    unfolding run_flush(2) glog_act_def hlog_act.simps f using t st(19)
    by (simp_all add: check_overlap_def mark_in_progress_def)
  then have "log_step 0 None run_flush run_disk" unfolding run_disk_def by (intro disk) simp
  then show "log_steps 0 run_start run_disk"
    by (intro rtranclp.rtrancl_into_rtrancl [OF run_flush_steps] exI)
  show "g_ok (client_state run_disk)"
    "hl_writes (client_state run_disk) = [(flush_request (Address 0 164) 0)\<lparr>wr_written := True\<rparr>]"
    using w by (simp_all add: run_disk_def)
qed

theorem flush_completion_returns_witness:
  "log_steps 0 run_start run_disk \<and>
   (\<exists>z. complete_write 0 ((flush_request (Address 0 164) 0)\<lparr>wr_written := True\<rparr>) (client_state run_disk) = Some z)"
  using flush_completion_returns [OF run_start(2) run_disk(1,2), of "(flush_request (Address 0 164) 0)\<lparr>wr_written := True\<rparr>"]
    run_disk(1,3) by (simp add: flush_request_def)


section \<open>The first page\<close>

text \<open>
  C16: on a fresh log, when the first two pages are being flushed and the write of page 1
  completes before the one of page 0, the flushed-until address moves past both pages, although
  nothing of page 0 has been written: its last flushed address is reset to zero when the flush
  starts, which is not below the flushed-until address of a fresh log.
\<close>

theorem first_page_skipped:
  assumes "PersistentMemoryMalloc_new blank log_size = Inr h"
  shows "\<exists>h'. flush_callback blank (flush_request (Address 2 0) 1) Ok
      (OnPagesMarkedReadOnly (\<lambda>_. Ok) (Address 2 0) h) = Some h' \<and>
    flushed_until_address h' = Address 2 0 \<and> hl_file h' = Map.empty \<and>
    fps_status (PageStatus h' 0) = FlushCloseStatus InProgress Open"
proof -
  obtain n p where n: "6 \<le> n" and h: "h =
    \<lparr>buffer_size = n, num_mutable_pages = 2, read_only_address = Address 0 64, safe_read_only_address = Address 0 64,
     head_address = Address 0 64, safe_head_address = Address 0 64, flushed_until_address = 0,
     begin_address = Address 0 64, tail_page_offset = p, hl_pages = replicate n (blank_page blank),
     page_status = replicate n open_status, hl_writes = [], hl_file = Map.empty\<rparr>"
    using PersistentMemoryMalloc_new_state [OF assms] by metis
  let ?a = "Address 2 0"
  have a: "unat ?a = 67108864" "pg ?a = 2" "off ?a = 0"
    using unat_Address [of 2 0] page_Address [of 2 0] offset_Address [of 0 2] by simp_all
  have lt: "Address 0 64 < ?a" by (simp add: word_less_nat_alt a start_address)
  have fp: "flush_pages 0 ?a = [0, 1]"
    using a by (simp add: flush_pages_def word_less_nat_alt upt_rec [of 0 2] upt_rec [of "Suc 0" 2] numeral_2_eq_2 [symmetric])
  have sz: "sized h" using n by (auto simp: h sized_def blank_page_def)
  let ?m = "OnPagesMarkedReadOnly (\<lambda>_. Ok) ?a h"
  let ?w = "h\<lparr>safe_read_only_address := ?a, hl_writes := [flush_request ?a 0, flush_request ?a 1]\<rparr>"
  have m: "?m = mark_in_progress 1 (mark_in_progress 0 ?w)"
    using OnPagesMarkedReadOnly_eq [OF sz, of ?a] lt fp by (simp add: h start_address)
  have szm: "sized ?m" using sz by (simp add: m mark_in_progress_def)
  let ?st = "\<lparr>LastFlushedUntilAddress = 0, fps_status = FlushCloseStatus InProgress Open\<rparr>"
  have i: "0 mod n = 0" "1 mod n = 1" "2 mod n = 2" using n by simp_all
  have st: "page_status ?m = (replicate n open_status)[0 := ?st, 1 := ?st]"
    unfolding m using n i by (simp add: mark_in_progress_def set_PageStatus_def PageStatus_def page_index_def h open_status_def FlushCloseStatus_def)
  have "unat (wr_until (flush_request ?a 1)) = 67108864" using flush_request_until [of 1 ?a] a by simp
  then have wu: "wr_until (flush_request ?a 1) = ?a" using a by (simp add: word_unat_eq_iff)
  let ?f = "mark_flushed blank (flush_request ?a 1) ?m"
  have bs: "buffer_size ?m = n" "flushed_until_address ?m = 0" "hl_file ?m = Map.empty"
    unfolding m by (simp_all add: mark_in_progress_def h)
  have fst: "PageStatus ?f 0 = ?st" "LastFlushedUntilAddress (PageStatus ?f 1) = ?a"
    "LastFlushedUntilAddress (PageStatus ?f 2) = 0"
    using n i st bs wu by (simp_all add: mark_flushed_def Let_def PageStatus_def page_index_def set_PageStatus_def
        flush_request_def FlushCloseStatus_def open_status_def)
  have z0: "pg (0 :: address) = 0" and pos: "0 < ?a" by (simp_all add: addr_page_def word_less_nat_alt a)
  have loop: "shift_flushed_loop ?f 0 0 False = Some (?a, True)"
  proof -
    have "shift_flushed_loop ?f 0 0 False = shift_flushed_loop ?f 1 0 True"
      using fst(1) by (subst shift_flushed_loop.simps) simp
    also have "\<dots> = shift_flushed_loop ?f 2 ?a True"
      using fst(2) by (subst shift_flushed_loop.simps) (simp add: numeral_2_eq_2)
    also have "\<dots> = Some (?a, True)"
      using fst(3) a by (subst shift_flushed_loop.simps) (simp add: word_le_nat_alt)
    finally show ?thesis .
  qed
  have "ShiftFlushedUntilAddress ?f = Some (?f\<lparr>flushed_until_address := ?a\<rparr>)"
    unfolding ShiftFlushedUntilAddress_def MonotonicUpdate_eq mark_flushed_fields bs z0 loop using pos by simp
  then show ?thesis unfolding flush_callback_eq [OF szm] using fst(1) bs by (intro exI [of _ "?f\<lparr>flushed_until_address := ?a\<rparr>"]) simp
qed

theorem first_page_skipped_witness:
  "\<exists>h :: nat hlog. PersistentMemoryMalloc_new 0 0xC000000 = Inr h \<and>
    (\<exists>h'. flush_callback 0 (flush_request (Address 2 0) 1) Ok (OnPagesMarkedReadOnly (\<lambda>_. Ok) (Address 2 0) h) = Some h' \<and>
      flushed_until_address h' = Address 2 0 \<and> hl_file h' = Map.empty)"
proof -
  from run_start(1) obtain h :: "nat hlog" where h: "PersistentMemoryMalloc_new 0 0xC000000 = Inr h"
    by (auto simp: log_start_def split: sum.splits)
  show ?thesis using first_page_skipped [OF h] h by (intro exI [of _ h]) auto
qed

end
