(* ===== verification/Chain_Insert.thy ===== *)
theory Chain_Insert
  imports Records
begin

text \<open>
  How \<open>InternalInsert\<close> of \<open>fishstore.h\<close> swaps a key pointer into its hash chain, at the level
  of single atomic accesses. A hash chain starts at a hash bucket entry and follows the
  previous addresses of the key pointers; it must lead from high addresses to low ones.
  A key pointer is first tried at the bucket entry; if the entry has moved past it, the
  inserter walks down the chain and swaps it in between two key pointers, without
  allocating anything.
\<close>

section \<open>States and steps\<close>

type_synonym kpt_memory = "address \<rightharpoonup> key_pointer"

text \<open>
  Where an insertion is: it has looked up the bucket entry, has initialised its key pointer
  and is about to swap the entry, is about to load the control word of a key pointer, has
  loaded it, or is about to alter it.
\<close>

datatype insert_pc =
    IIdle
  | IFound hb_entry
  | ISwap address hb_entry
  | ILoad address address
  | IWalk address address u64
  | IAlter address address u64
  | ILinked address

record chain_state =
  cs_entry :: hb_entry
  cs_kpts :: kpt_memory
  cs_tail :: address
  cs_pcs :: "insert_pc list"

definition set_prev :: "address \<Rightarrow> address \<Rightarrow> kpt_memory \<Rightarrow> kpt_memory" where
  "set_prev kpt prev m =
     m(kpt := map_option (\<lambda>k. k\<lparr>kp_control := kpt_set_prev_address prev (kp_control k)\<rparr>) (m kpt))"

definition kpt_load :: "kpt_memory \<Rightarrow> address \<Rightarrow> u64" where
  "kpt_load m kpt = (case m kpt of Some k \<Rightarrow> kp_control k | None \<Rightarrow> 0)"

text \<open>One attempt to swap the hash bucket entry.\<close>

definition swap_step :: "u16 \<Rightarrow> address \<Rightarrow> hb_entry \<Rightarrow> hb_entry \<Rightarrow> kpt_memory \<Rightarrow>
    insert_pc \<times> hb_entry \<times> kpt_memory" where
  "swap_step tag kpt expected_entry entry m =
     (let updated_entry = HashBucketEntry kpt tag False in
      case hbe_compare_exchange_strong entry expected_entry updated_entry of
        (True, _, entry) \<Rightarrow> (ILinked kpt, entry, m)
      | (False, expected_entry, entry) \<Rightarrow>
          if hbe_address expected_entry < kpt
          then (ISwap kpt expected_entry, entry, set_prev kpt (hbe_address expected_entry) m)
          else (ILoad kpt (hbe_address expected_entry), entry, m))"

text \<open>The test of the inner loop, which moves on or prepares the key pointer.\<close>

definition walk_step :: "address \<Rightarrow> address \<Rightarrow> u64 \<Rightarrow> kpt_memory \<Rightarrow> insert_pc \<times> kpt_memory" where
  "walk_step kpt expected_kpt cas m =
     (if kpt_prev_address cas > kpt then (ILoad kpt (kpt_prev_address cas), m)
      else (IAlter kpt expected_kpt cas, set_prev kpt (kpt_prev_address cas) m))"

definition alter_step :: "address \<Rightarrow> address \<Rightarrow> u64 \<Rightarrow> kpt_memory \<Rightarrow> insert_pc \<times> kpt_memory" where
  "alter_step kpt expected_kpt cas m =
     (case kpt_alter kpt cas (kpt_load m expected_kpt) of
        (True, _, control) \<Rightarrow>
          (ILinked kpt, m(expected_kpt := map_option (\<lambda>k. k\<lparr>kp_control := control\<rparr>) (m expected_kpt)))
      | (False, cas, _) \<Rightarrow> (IWalk kpt expected_kpt cas, m))"

fun insert_step :: "u16 \<Rightarrow> insert_pc \<Rightarrow> hb_entry \<Rightarrow> kpt_memory \<Rightarrow> insert_pc \<times> hb_entry \<times> kpt_memory" where
  "insert_step tag (ISwap kpt expected_entry) entry m = swap_step tag kpt expected_entry entry m"
| "insert_step tag (ILoad kpt expected_kpt) entry m =
     (IWalk kpt expected_kpt (kpt_load m expected_kpt), entry, m)"
| "insert_step tag (IWalk kpt expected_kpt cas) entry m =
     (case walk_step kpt expected_kpt cas m of (pc, m) \<Rightarrow> (pc, entry, m))"
| "insert_step tag (IAlter kpt expected_kpt cas) entry m =
     (case alter_step kpt expected_kpt cas m of (pc, m) \<Rightarrow> (pc, entry, m))"
| "insert_step tag pc entry m = (pc, entry, m)"

text \<open>
  An insertion first looks up the entry, then the record is allocated above all addresses given out
  before and its key pointer is initialised, then the steps above run.
\<close>

inductive chain_step :: "u16 \<Rightarrow> chain_state \<Rightarrow> chain_state \<Rightarrow> bool" for tag :: u16 where
  find: "t < length (cs_pcs s) \<Longrightarrow> cs_pcs s ! t = IIdle \<Longrightarrow>
    chain_step tag s (s\<lparr>cs_pcs := (cs_pcs s)[t := IFound (cs_entry s)]\<rparr>)"
| alloc: "t < length (cs_pcs s) \<Longrightarrow> cs_pcs s ! t = IFound expected \<Longrightarrow> cs_tail s \<le> kpt \<Longrightarrow>
    unat kpt + 1 < 2 ^ 48 \<Longrightarrow> kp_control k = kpt_control mode i (hbe_address expected) \<Longrightarrow>
    unat i < 2 ^ 15 \<Longrightarrow> unat mode < 2 \<Longrightarrow>
    chain_step tag s (s\<lparr>cs_kpts := (cs_kpts s)(kpt \<mapsto> k), cs_tail := kpt + 1,
      cs_pcs := (cs_pcs s)[t := ISwap kpt expected]\<rparr>)"
| run: "t < length (cs_pcs s) \<Longrightarrow> insert_step tag (cs_pcs s ! t) (cs_entry s) (cs_kpts s) = (pc, entry, m) \<Longrightarrow>
    chain_step tag s (s\<lparr>cs_entry := entry, cs_kpts := m, cs_pcs := (cs_pcs s)[t := pc]\<rparr>)"


section \<open>Chains\<close>

text \<open>The key pointers from an address down to the address where the chain ends.\<close>

fun kpt_chain :: "kpt_memory \<Rightarrow> address \<Rightarrow> address list \<Rightarrow> address \<Rightarrow> bool" where
  "kpt_chain m a [] b \<longleftrightarrow> a = b"
| "kpt_chain m a (x # xs) b \<longleftrightarrow> a = x \<and> (case m x of None \<Rightarrow> False | Some k \<Rightarrow> kpt_chain m (kpt_prev_address (kp_control k)) xs b)"

lemma kpt_chain_Cons: "kpt_chain m a (x # xs) b \<longleftrightarrow> a = x \<and> m x \<noteq> None \<and> kpt_chain m (kpt_prev_address (kpt_load m x)) xs b"
  by (auto simp: kpt_load_def split: option.split)

lemma kpt_chain_append: "kpt_chain m a (xs @ ys) b \<longleftrightarrow> (\<exists>c. kpt_chain m a xs c \<and> kpt_chain m c ys b)"
  by (induction xs arbitrary: a) (auto split: option.split)

lemma kpt_chain_other: "y \<notin> set xs \<Longrightarrow> kpt_chain (m(y := v)) a xs b = kpt_chain m a xs b"
  by (induction xs arbitrary: a) (auto split: option.split)

lemma kpt_chain_defined: "kpt_chain m a xs b \<Longrightarrow> x \<in> set xs \<Longrightarrow> m x \<noteq> None"
  by (induction xs arbitrary: a) (auto split: option.splits)

lemma kpt_chain_det:
  assumes "kpt_chain m a xs b" "kpt_chain m a ys b" "b \<notin> set xs" "b \<notin> set ys"
  shows "xs = ys"
  using assms
proof (induction xs arbitrary: a ys)
  case Nil
  then show ?case by (cases ys) auto
next
  case (Cons x xs)
  then show ?case by (cases ys) (auto split: option.splits)
qed

definition descending :: "address list \<Rightarrow> bool" where
  "descending xs = sorted_wrt (>) xs"

lemma descending_simps [simp]:
  "descending []" "descending (x # xs) \<longleftrightarrow> (\<forall>y \<in> set xs. y < x) \<and> descending xs"
  by (simp_all add: descending_def)

lemma descending_append:
  "descending (xs @ ys) \<longleftrightarrow> descending xs \<and> descending ys \<and> (\<forall>x \<in> set xs. \<forall>y \<in> set ys. y < x)"
  by (simp add: descending_def sorted_wrt_append)


section \<open>The invariant\<close>

abbreviation entry_of :: "insert_pc \<Rightarrow> address option" where
  "entry_of pc \<equiv> (case pc of IIdle \<Rightarrow> None | IFound e \<Rightarrow> None | ISwap a e \<Rightarrow> Some a | ILoad a k \<Rightarrow> Some a
     | IWalk a k c \<Rightarrow> Some a | IAlter a k c \<Rightarrow> Some a | ILinked a \<Rightarrow> Some a)"

definition is_linked :: "insert_pc \<Rightarrow> bool" where
  "is_linked pc \<longleftrightarrow> (\<exists>a. pc = ILinked a)"

text \<open>What an insertion knows, given the chain, the memory, the end of the chain and the tail.\<close>

fun pc_ok :: "address list \<Rightarrow> kpt_memory \<Rightarrow> address \<Rightarrow> address \<Rightarrow> insert_pc \<Rightarrow> bool" where
  "pc_ok xs m b lim IIdle \<longleftrightarrow> True"
| "pc_ok xs m b lim (IFound e) \<longleftrightarrow> hbe_address e < lim"
| "pc_ok xs m b lim (ISwap a e) \<longleftrightarrow> a \<notin> set xs \<and> hbe_address e < a \<and> kpt_prev_address (kpt_load m a) = hbe_address e"
| "pc_ok xs m b lim (ILoad a k) \<longleftrightarrow> a \<notin> set xs \<and> k \<in> set xs \<and> a < k"
| "pc_ok xs m b lim (IWalk a k c) \<longleftrightarrow> a \<notin> set xs \<and> k \<in> set xs \<and> a < k \<and> kpt_prev_address c \<in> insert b (set xs) \<and>
     kpt_prev_address c < k"
| "pc_ok xs m b lim (IAlter a k c) \<longleftrightarrow> a \<notin> set xs \<and> k \<in> set xs \<and> a < k \<and> kpt_prev_address c < a \<and>
     kpt_prev_address (kpt_load m a) = kpt_prev_address c"
| "pc_ok xs m b lim (ILinked a) \<longleftrightarrow> a \<in> set xs"

text \<open>The address that an insertion has allocated: above the end of the chain, in memory, its own.\<close>

definition own_ok :: "kpt_memory \<Rightarrow> address \<Rightarrow> address \<Rightarrow> insert_pc list \<Rightarrow> bool" where
  "own_ok m b lim pcs \<longleftrightarrow>
     (\<forall>t < length pcs. \<forall>a. entry_of (pcs ! t) = Some a \<longrightarrow>
        b < a \<and> a < lim \<and> unat a < 2 ^ 48 \<and> m a \<noteq> None \<and>
        (\<forall>u < length pcs. entry_of (pcs ! u) = Some a \<longrightarrow> u = t))"

definition chain_ok :: "address \<Rightarrow> address list \<Rightarrow> chain_state \<Rightarrow> bool" where
  "chain_ok b xs s \<longleftrightarrow> kpt_chain (cs_kpts s) (hbe_address (cs_entry s)) xs b \<and> descending xs \<and>
     (\<forall>a. a \<in> set xs \<longleftrightarrow> (\<exists>t < length (cs_pcs s). cs_pcs s ! t = ILinked a)) \<and>
     (\<forall>t < length (cs_pcs s). pc_ok xs (cs_kpts s) b (cs_tail s) (cs_pcs s ! t)) \<and>
     b < cs_tail s \<and> own_ok (cs_kpts s) b (cs_tail s) (cs_pcs s)"

definition chain_invar :: "address \<Rightarrow> chain_state \<Rightarrow> bool" where
  "chain_invar b s \<longleftrightarrow> (\<exists>xs. chain_ok b xs s)"

lemma chain_okD:
  assumes "chain_ok b xs s"
  shows "kpt_chain (cs_kpts s) (hbe_address (cs_entry s)) xs b" "descending xs"
    "a \<in> set xs \<longleftrightarrow> (\<exists>t < length (cs_pcs s). cs_pcs s ! t = ILinked a)"
    "t < length (cs_pcs s) \<Longrightarrow> pc_ok xs (cs_kpts s) b (cs_tail s) (cs_pcs s ! t)"
    "b < cs_tail s" "own_ok (cs_kpts s) b (cs_tail s) (cs_pcs s)"
  using assms by (auto simp: chain_ok_def)

lemma own_okD:
  assumes "own_ok m b lim pcs" "t < length pcs" "entry_of (pcs ! t) = Some a"
  shows "b < a" "a < lim" "unat a < 2 ^ 48" "m a \<noteq> None"
    "u < length pcs \<Longrightarrow> entry_of (pcs ! u) = Some a \<Longrightarrow> u = t"
  using assms unfolding own_ok_def by blast+

text \<open>What an insertion knows stays true when others link key pointers.\<close>

lemma pc_ok_mono:
  assumes "pc_ok xs m b lim pc" "set xs \<subseteq> set xs'" "lim \<le> lim'"
    and "\<And>a. entry_of pc = Some a \<Longrightarrow> a \<notin> set xs \<Longrightarrow> a \<notin> set xs' \<and> kpt_load m' a = kpt_load m a"
  shows "pc_ok xs' m' b lim' pc"
proof (cases pc)
  case (ISwap a e)
  then show ?thesis using assms(1) assms(4) [of a] by simp
next
  case (IAlter a k c)
  then show ?thesis using assms(1,2) assms(4) [of a] by auto
next
  case (ILoad a k)
  then show ?thesis using assms(1,2) assms(4) [of a] by auto
next
  case (IWalk a k c)
  then show ?thesis using assms(1,2) assms(4) [of a] by auto
qed (use assms in auto)

lemma own_ok_mono:
  assumes "own_ok m b lim pcs" "lim \<le> lim'" "\<And>x. m x \<noteq> None \<Longrightarrow> m' x \<noteq> None"
  shows "own_ok m' b lim' pcs"
  using assms unfolding own_ok_def by (meson order_less_le_trans)

text \<open>A step of an insertion that has its address.\<close>

lemma run_ok:
  assumes ok: "chain_ok b xs s" and t: "t < length (cs_pcs s)"
    and own: "entry_of (cs_pcs s ! t) = Some a" "entry_of pc = Some a" "a \<notin> set xs"
    and c: "kpt_chain m (hbe_address e) xs' b" "descending xs'"
      "set xs' = (if pc = ILinked a then insert a (set xs) else set xs)"
    and p: "pc_ok xs' m b (cs_tail s) pc"
    and mem: "\<And>x. x \<notin> set xs \<Longrightarrow> x \<noteq> a \<Longrightarrow> m x = cs_kpts s x" "\<And>x. cs_kpts s x \<noteq> None \<Longrightarrow> m x \<noteq> None"
  shows "chain_ok b xs' (s\<lparr>cs_entry := e, cs_kpts := m, cs_pcs := (cs_pcs s)[t := pc]\<rparr>)"
proof -
  let ?pcs = "(cs_pcs s)[t := pc]"
  note D = chain_okD [OF ok]
  note O = own_okD [OF D(6) t own(1)]
  have nl: "cs_pcs s ! t \<noteq> ILinked x" for x
  proof
    assume l: "cs_pcs s ! t = ILinked x"
    then have "x = a" using own(1) by simp
    then show False using l D(3) t own(3) by blast
  qed
  have "a' \<in> set xs' \<longleftrightarrow> (\<exists>u < length ?pcs. ?pcs ! u = ILinked a')" for a'
  proof -
    have "(\<exists>u < length ?pcs. ?pcs ! u = ILinked a') \<longleftrightarrow>
        pc = ILinked a' \<or> (\<exists>u < length (cs_pcs s). u \<noteq> t \<and> cs_pcs s ! u = ILinked a')"
      using t by (auto simp: nth_list_update)
    also have "\<dots> \<longleftrightarrow> pc = ILinked a' \<or> a' \<in> set xs" using D(3) nl by blast
    also have "\<dots> \<longleftrightarrow> a' \<in> set xs'"
    proof -
      have "pc = ILinked a' \<Longrightarrow> a' = a" using own(2) by simp
      then show ?thesis unfolding c(3) by auto
    qed
    finally show ?thesis by simp
  qed
  moreover have "pc_ok xs' m b (cs_tail s) (?pcs ! u)" if u: "u < length ?pcs" for u
  proof (cases "u = t")
    case True
    then show ?thesis using p t by simp
  next
    case False
    have other: "x \<notin> set xs' \<and> kpt_load m x = kpt_load (cs_kpts s) x"
      if x: "entry_of (cs_pcs s ! u) = Some x" "x \<notin> set xs" for x
    proof -
      have "x \<noteq> a" using O(5) [of u] u False x(1) by auto
      then show ?thesis using x(2) c(3) mem(1) by (auto simp: kpt_load_def)
    qed
    have "u < length (cs_pcs s)" using u by simp
    then have "pc_ok xs' m b (cs_tail s) (cs_pcs s ! u)"
      by (rule pc_ok_mono [OF D(4)]) (use c(3) other in \<open>simp_all add: subset_insertI\<close>)
    then show ?thesis using False by simp
  qed
  moreover have "own_ok m b (cs_tail s) ?pcs"
  proof -
    have "entry_of (?pcs ! u) = entry_of (cs_pcs s ! u)" if "u < length (cs_pcs s)" for u
      using own(1,2) t that by (cases "u = t") simp_all
    then have "own_ok (cs_kpts s) b (cs_tail s) ?pcs" using D(6) unfolding own_ok_def by simp
    then show ?thesis by (rule own_ok_mono) (use mem(2) in auto)
  qed
  ultimately show ?thesis using c(1,2) D(5) by (simp add: chain_ok_def)
qed

text \<open>The chain with the new key pointer in front, or between two others.\<close>

lemma kpt_load_set_prev [simp]:
  "m a \<noteq> None \<Longrightarrow> unat p < 2 ^ 48 \<Longrightarrow> kpt_prev_address (kpt_load (set_prev a p m) a) = p"
  "x \<noteq> a \<Longrightarrow> set_prev a p m x = m x" "set_prev a p m x = None \<longleftrightarrow> m x = None"
  by (auto simp: kpt_load_def set_prev_def kpt_set_prev_fields split: option.split)

lemma kpt_chain_set_prev: "a \<notin> set xs \<Longrightarrow> kpt_chain (set_prev a p m) h xs b = kpt_chain m h xs b"
  unfolding set_prev_def by (rule kpt_chain_other)

lemma swap_ok:
  assumes ok: "chain_ok b xs s" and t: "t < length (cs_pcs s)" "cs_pcs s ! t = ISwap a x"
    and st: "swap_step tag a x (cs_entry s) (cs_kpts s) = (pc, e, m)"
  shows "\<exists>xs'. chain_ok b xs' (s\<lparr>cs_entry := e, cs_kpts := m, cs_pcs := (cs_pcs s)[t := pc]\<rparr>) \<and>
    (pc \<noteq> ILinked a \<longrightarrow> xs' = xs)"
proof -
  note D = chain_okD [OF ok]
  have own: "entry_of (cs_pcs s ! t) = Some a" by (simp add: t(2))
  note O = own_okD [OF D(6) t(1) own]
  have P: "a \<notin> set xs" "hbe_address x < a" "kpt_prev_address (kpt_load (cs_kpts s) a) = hbe_address x"
    using D(4) [OF t(1)] by (simp_all add: t(2))
  show ?thesis
  proof (cases "cs_entry s = x")
    case True
    then have r: "pc = ILinked a" "e = HashBucketEntry a tag False" "m = cs_kpts s"
      using st by (auto simp: swap_step_def Let_def hbe_compare_exchange_strong_def compare_exchange_def)
    have desc: "\<forall>y \<in> set xs. y < a"
    proof (cases xs)
      case (Cons y ys)
      then have "y < a" using D(1) P(2) True by (auto split: option.splits)
      then show ?thesis using D(2) Cons by auto
    qed simp
    have "kpt_chain (cs_kpts s) a (a # xs) b" using D(1) O(4) P(3) True by (auto simp: kpt_chain_Cons simp del: kpt_chain.simps(2))
    then have "chain_ok b (a # xs) (s\<lparr>cs_entry := e, cs_kpts := m, cs_pcs := (cs_pcs s)[t := pc]\<rparr>)"
      by (intro run_ok [OF ok t(1) own]) (use r O(3) P(1) D(2) desc in auto)
    then show ?thesis using r(1) by blast
  next
    case False
    show ?thesis
    proof (cases "hbe_address (cs_entry s) < a")
      case lower: True
      then have r: "pc = ISwap a (cs_entry s)" "e = cs_entry s" "m = set_prev a (hbe_address (cs_entry s)) (cs_kpts s)"
        using st False by (auto simp: swap_step_def Let_def hbe_compare_exchange_strong_def compare_exchange_def)
      have "chain_ok b xs (s\<lparr>cs_entry := e, cs_kpts := m, cs_pcs := (cs_pcs s)[t := pc]\<rparr>)"
        by (rule run_ok [OF ok t(1) own])
          (use r O(4) P(1) D(1,2) lower hbe_address_less in \<open>simp_all add: kpt_chain_set_prev\<close>)
      then show ?thesis by blast
    next
      case higher: False
      then have r: "pc = ILoad a (hbe_address (cs_entry s))" "e = cs_entry s" "m = cs_kpts s"
        using st False by (auto simp: swap_step_def Let_def hbe_compare_exchange_strong_def compare_exchange_def)
      have "hbe_address (cs_entry s) \<in> set xs"
      proof (cases xs)
        case Nil
        then show ?thesis using D(1) higher O(1) by auto
      next
        case (Cons y ys)
        then show ?thesis using D(1) by (auto split: option.splits)
      qed
      then have k: "hbe_address (cs_entry s) \<in> set xs" "a < hbe_address (cs_entry s)"
        using higher P(1) by (auto simp: not_less order_le_less)
      have "chain_ok b xs (s\<lparr>cs_entry := e, cs_kpts := m, cs_pcs := (cs_pcs s)[t := pc]\<rparr>)"
        by (rule run_ok [OF ok t(1) own]) (use r k P(1) D(1,2) in simp_all)
      then show ?thesis by blast
    qed
  qed
qed

text \<open>The previous address of a key pointer of the chain is in the chain or its end.\<close>

lemma kpt_chain_prev:
  assumes "kpt_chain m h xs b" "k \<in> set xs"
  shows "kpt_prev_address (kpt_load m k) \<in> insert b (set xs)"
    "descending xs \<Longrightarrow> b < k \<Longrightarrow> kpt_prev_address (kpt_load m k) < k"
proof -
  from assms(2) obtain ys zs where "xs = ys @ k # zs" by (auto simp: in_set_conv_decomp)
  then have "kpt_chain m (kpt_prev_address (kpt_load m k)) zs b"
    using assms(1) by (auto simp: kpt_chain_append kpt_chain_Cons simp del: kpt_chain.simps(2))
  then show "kpt_prev_address (kpt_load m k) \<in> insert b (set xs)"
    "descending xs \<Longrightarrow> b < k \<Longrightarrow> kpt_prev_address (kpt_load m k) < k"
    using \<open>xs = ys @ k # zs\<close> by (cases zs; auto simp: descending_append split: option.splits)+
qed

lemma alter_chain:
  assumes c: "kpt_chain m h xs b" "descending xs" and k: "k \<in> set xs" "a \<notin> set xs" "a < k"
    and p: "kpt_prev_address (kpt_load m k) < a" "kpt_prev_address (kpt_load m a) = kpt_prev_address (kpt_load m k)"
    and m: "m a \<noteq> None" "unat a < 2 ^ 48"
    and m': "m' = m(k := map_option (\<lambda>k. k\<lparr>kp_control := kpt_set_prev_address a (kp_control k)\<rparr>) (m k))"
  shows "\<exists>xs'. kpt_chain m' h xs' b \<and> descending xs' \<and> set xs' = insert a (set xs)"
proof -
  from k(1) obtain ys zs where xs: "xs = ys @ k # zs" by (auto simp: in_set_conv_decomp)
  let ?p = "kpt_prev_address (kpt_load m k)"
  have nk: "k \<notin> set ys" "k \<notin> set zs" "a \<noteq> k" using c(2) k(3) by (auto simp: xs descending_append)
  have parts: "kpt_chain m h ys k" "m k \<noteq> None" "kpt_chain m ?p zs b"
    using c(1) by (auto simp: xs kpt_chain_append kpt_chain_Cons simp del: kpt_chain.simps(2))
  have load: "kpt_prev_address (kpt_load m' k) = a" "kpt_load m' a = kpt_load m a" "m' a = m a"
    using parts(2) m(2) nk(3) by (auto simp: m' kpt_load_def kpt_set_prev_fields)
  have "kpt_chain m' h ys k" "kpt_chain m' ?p zs b"
    using parts nk unfolding m' by (simp_all add: kpt_chain_other)
  then have ch: "kpt_chain m' h (ys @ k # a # zs) b"
    using parts(2) load p(2) m(1) by (auto simp: kpt_chain_append kpt_chain_Cons m' simp del: kpt_chain.simps(2))
  have "\<forall>y \<in> set zs. y < a"
  proof (cases zs)
    case (Cons y vs)
    then have "y < a" using parts(3) p(1) by (auto split: option.splits)
    then show ?thesis using c(2) by (auto simp: xs Cons descending_append)
  qed simp
  moreover have "\<forall>y \<in> set ys. a < y" using c(2) k(3) by (auto simp: xs descending_append)
  ultimately have "descending (ys @ k # a # zs)" using c(2) k(3) by (auto simp: xs descending_append)
  then show ?thesis using ch xs by (intro exI [of _ "ys @ k # a # zs"]) auto
qed

lemma load_ok:
  assumes ok: "chain_ok b xs s" and t: "t < length (cs_pcs s)" "cs_pcs s ! t = ILoad a k"
  shows "chain_ok b xs (s\<lparr>cs_pcs := (cs_pcs s)[t := IWalk a k (kpt_load (cs_kpts s) k)]\<rparr>)"
proof -
  note D = chain_okD [OF ok]
  have own: "entry_of (cs_pcs s ! t) = Some a" by (simp add: t(2))
  note O = own_okD [OF D(6) t(1) own]
  have P: "a \<notin> set xs" "k \<in> set xs" "a < k" using D(4) [OF t(1)] by (simp_all add: t(2))
  have "b < k" using O(1) P(3) by simp
  with kpt_chain_prev [OF D(1) P(2)] D(2)
  have "pc_ok xs (cs_kpts s) b (cs_tail s) (IWalk a k (kpt_load (cs_kpts s) k))" using P by simp
  then show ?thesis using run_ok [OF ok t(1) own, of "IWalk a k (kpt_load (cs_kpts s) k)" "cs_kpts s" "cs_entry s" xs] P D(1,2)
    by simp
qed

lemma walk_ok:
  assumes ok: "chain_ok b xs s" and t: "t < length (cs_pcs s)" "cs_pcs s ! t = IWalk a k c"
    and st: "walk_step a k c (cs_kpts s) = (pc, m)"
  shows "chain_ok b xs (s\<lparr>cs_kpts := m, cs_pcs := (cs_pcs s)[t := pc]\<rparr>)"
proof -
  note D = chain_okD [OF ok]
  have own: "entry_of (cs_pcs s ! t) = Some a" by (simp add: t(2))
  note O = own_okD [OF D(6) t(1) own]
  have P: "a \<notin> set xs" "k \<in> set xs" "a < k" "kpt_prev_address c \<in> insert b (set xs)"
    using D(4) [OF t(1)] by (simp_all add: t(2))
  show ?thesis
  proof (cases "kpt_prev_address c > a")
    case True
    then have r: "pc = ILoad a (kpt_prev_address c)" "m = cs_kpts s" using st by (simp_all add: walk_step_def)
    have "kpt_prev_address c \<in> set xs" using P(4) O(1) True by auto
    then show ?thesis using run_ok [OF ok t(1) own, of pc m "cs_entry s" xs] r P(1) D(1,2) True by simp
  next
    case False
    then have r: "pc = IAlter a k c" "m = set_prev a (kpt_prev_address c) (cs_kpts s)" using st by (simp_all add: walk_step_def)
    have "kpt_prev_address c \<noteq> a" using P(1,4) O(1) by auto
    then have "kpt_prev_address c < a" using False by simp
    then show ?thesis
      using run_ok [OF ok t(1) own, of pc m "cs_entry s" xs] r P D(1,2) O(4) kpt_prev_address_less [of c]
      by (simp add: kpt_chain_set_prev)
  qed
qed

lemma alter_ok:
  assumes ok: "chain_ok b xs s" and t: "t < length (cs_pcs s)" "cs_pcs s ! t = IAlter a k c"
    and st: "alter_step a k c (cs_kpts s) = (pc, m)"
  shows "\<exists>xs'. chain_ok b xs' (s\<lparr>cs_kpts := m, cs_pcs := (cs_pcs s)[t := pc]\<rparr>) \<and> (pc \<noteq> ILinked a \<longrightarrow> xs' = xs)"
proof -
  note D = chain_okD [OF ok]
  have own: "entry_of (cs_pcs s ! t) = Some a" by (simp add: t(2))
  note O = own_okD [OF D(6) t(1) own]
  have P: "a \<notin> set xs" "k \<in> set xs" "a < k" "kpt_prev_address c < a"
    "kpt_prev_address (kpt_load (cs_kpts s) a) = kpt_prev_address c"
    using D(4) [OF t(1)] by (simp_all add: t(2))
  obtain kp where kp: "cs_kpts s k = Some kp" using kpt_chain_defined [OF D(1) P(2)] by auto
  show ?thesis
  proof (cases "kpt_load (cs_kpts s) k = c")
    case True
    let ?m = "(cs_kpts s)(k := map_option (\<lambda>k. k\<lparr>kp_control := kpt_set_prev_address a (kp_control k)\<rparr>) (cs_kpts s k))"
    have r: "pc = ILinked a" "m = ?m"
      using st True kp by (auto simp: alter_step_def kpt_alter_def compare_exchange_def Let_def kpt_load_def)
    from alter_chain [OF D(1,2) P(2,1,3) _ _ O(4,3) refl] P(4,5) True
    obtain xs' where c: "kpt_chain ?m (hbe_address (cs_entry s)) xs' b" "descending xs'" "set xs' = insert a (set xs)" by auto
    have "chain_ok b xs' (s\<lparr>cs_entry := cs_entry s, cs_kpts := m, cs_pcs := (cs_pcs s)[t := pc]\<rparr>)"
      by (rule run_ok [OF ok t(1) own]) (use r c P(1,2) in auto)
    then show ?thesis using r(1) by (intro exI [of _ xs']) simp
  next
    case False
    then have r: "pc = IWalk a k (kpt_load (cs_kpts s) k)" "m = cs_kpts s"
      using st by (auto simp: alter_step_def kpt_alter_def compare_exchange_def Let_def)
    have "b < k" using O(1) P(3) by simp
    with kpt_chain_prev [OF D(1) P(2)] D(2) have "pc_ok xs (cs_kpts s) b (cs_tail s) pc" using P by (simp add: r)
    then show ?thesis using run_ok [OF ok t(1) own, of pc m "cs_entry s" xs] r P(1) D(1,2)
      by (intro exI [of _ xs]) simp
  qed
qed

lemma insert_step_ok:
  assumes ok: "chain_ok b xs s" and t: "t < length (cs_pcs s)"
    and st: "insert_step tag (cs_pcs s ! t) (cs_entry s) (cs_kpts s) = (pc, e, m)"
  shows "\<exists>xs'. chain_ok b xs' (s\<lparr>cs_entry := e, cs_kpts := m, cs_pcs := (cs_pcs s)[t := pc]\<rparr>) \<and>
    ((\<forall>a. pc \<noteq> ILinked a) \<longrightarrow> xs' = xs)"
proof (cases "cs_pcs s ! t")
  case (ISwap a x)
  then show ?thesis using swap_ok [OF ok t ISwap, of tag pc e m] st by auto
next
  case (ILoad a k)
  then have "pc = IWalk a k (kpt_load (cs_kpts s) k)" "e = cs_entry s" "m = cs_kpts s" using st by auto
  then show ?thesis using load_ok [OF ok t ILoad] by (intro exI [of _ xs]) simp
next
  case (IWalk a k c)
  then have "e = cs_entry s" "walk_step a k c (cs_kpts s) = (pc, m)" using st by (auto split: prod.splits)
  then show ?thesis using walk_ok [OF ok t IWalk, of pc m] by (intro exI [of _ xs]) simp
next
  case (IAlter a k c)
  then have "e = cs_entry s" "alter_step a k c (cs_kpts s) = (pc, m)" using st by (auto split: prod.splits)
  then show ?thesis using alter_ok [OF ok t IAlter, of pc m] by auto
next
  case IIdle
  then have "e = cs_entry s" "m = cs_kpts s" "pc = cs_pcs s ! t" using st by auto
  then show ?thesis using ok by (intro exI [of _ xs]) simp
next
  case (IFound x)
  then have "e = cs_entry s" "m = cs_kpts s" "pc = cs_pcs s ! t" using st by auto
  then show ?thesis using ok by (intro exI [of _ xs]) simp
next
  case (ILinked a)
  then have "e = cs_entry s" "m = cs_kpts s" "pc = cs_pcs s ! t" using st by auto
  then show ?thesis using ok by (intro exI [of _ xs]) simp
qed

lemma linked_update:
  assumes "\<And>a. pcs ! t \<noteq> ILinked a" "\<And>a. p \<noteq> ILinked a"
  shows "(\<exists>u < length pcs. pcs[t := p] ! u = ILinked a) \<longleftrightarrow> (\<exists>u < length pcs. pcs ! u = ILinked a)"
proof -
  have "pcs[t := p] ! u = ILinked a \<longleftrightarrow> pcs ! u = ILinked a" if "u < length pcs" for u
    using assms that by (cases "u = t") simp_all
  then show ?thesis by blast
qed

lemma find_ok:
  assumes ok: "chain_ok b xs s" and t: "t < length (cs_pcs s)" "cs_pcs s ! t = IIdle"
  shows "chain_ok b xs (s\<lparr>cs_pcs := (cs_pcs s)[t := IFound (cs_entry s)]\<rparr>)"
proof -
  note D = chain_okD [OF ok]
  have "hbe_address (cs_entry s) < cs_tail s"
  proof (cases xs)
    case (Cons x ys)
    then have x: "x = hbe_address (cs_entry s)" "x \<in> set xs" using D(1) by (auto split: option.splits)
    from D(3) x(2) obtain u where u: "u < length (cs_pcs s)" "cs_pcs s ! u = ILinked x" by blast
    then show ?thesis using own_okD(2) [OF D(6) u(1), of x] x(1) by simp
  qed (use D(1,5) in simp)
  moreover have "a \<in> set xs \<longleftrightarrow> (\<exists>u < length (cs_pcs s). (cs_pcs s)[t := IFound (cs_entry s)] ! u = ILinked a)" for a
    using D(3) [of a] linked_update [of "cs_pcs s" t "IFound (cs_entry s)" a] t(2) by simp
  moreover have "own_ok (cs_kpts s) b (cs_tail s) ((cs_pcs s)[t := IFound (cs_entry s)])"
    using D(6) t unfolding own_ok_def by (auto simp: nth_list_update)
  moreover have "pc_ok xs (cs_kpts s) b (cs_tail s) ((cs_pcs s)[t := IFound (cs_entry s)] ! u)"
    if "u < length (cs_pcs s)" for u
    using D(4) [OF that] calculation(1) t(1) by (cases "u = t") simp_all
  ultimately show ?thesis using D(1,2,5) by (simp add: chain_ok_def)
qed

lemma alloc_ok:
  assumes ok: "chain_ok b xs s" and t: "t < length (cs_pcs s)" "cs_pcs s ! t = IFound x"
    and a: "cs_tail s \<le> a" "unat a + 1 < 2 ^ 48" "kp_control k = kpt_control mode i (hbe_address x)"
      "unat i < 2 ^ 15" "unat mode < 2"
  shows "chain_ok b xs (s\<lparr>cs_kpts := (cs_kpts s)(a \<mapsto> k), cs_tail := a + 1, cs_pcs := (cs_pcs s)[t := ISwap a x]\<rparr>)"
proof -
  let ?pcs = "(cs_pcs s)[t := ISwap a x]" and ?m = "(cs_kpts s)(a \<mapsto> k)"
  note D = chain_okD [OF ok]
  have tail: "a < a + 1" using a(2) by (simp add: word_less_nat_alt unat_word_ariths)
  then have le: "cs_tail s \<le> a + 1" using a(1) by simp
  have fresh: "c \<noteq> a" if "u < length (cs_pcs s)" "entry_of (cs_pcs s ! u) = Some c" for u c
    using own_okD(2) [OF D(6) that] a(1) by auto
  have nl: "a \<notin> set xs"
  proof
    assume "a \<in> set xs"
    then obtain u where "u < length (cs_pcs s)" "cs_pcs s ! u = ILinked a" using D(3) by blast
    then show False using fresh [of u a] by simp
  qed
  have ch: "kpt_chain ?m (hbe_address (cs_entry s)) xs b" using D(1) nl by (simp add: kpt_chain_other)
  have lk: "c \<in> set xs \<longleftrightarrow> (\<exists>u < length ?pcs. ?pcs ! u = ILinked c)" for c
    using D(3) [of c] linked_update [of "cs_pcs s" t "ISwap a x" c] t(2) by simp
  have "pc_ok xs ?m b (a + 1) (?pcs ! u)" if u: "u < length ?pcs" for u
  proof (cases "u = t")
    case True
    have "hbe_address x < cs_tail s" using D(4) [OF t(1)] by (simp add: t(2))
    then have "hbe_address x < a" using a(1) by simp
    moreover have "kpt_prev_address (kpt_load ?m a) = hbe_address x"
      using kpt_control_fields(3) [OF a(4) hbe_address_less a(5)] by (simp add: kpt_load_def a(3))
    ultimately show ?thesis using True t nl by simp
  next
    case False
    have "u < length (cs_pcs s)" using u by simp
    then have "pc_ok xs ?m b (a + 1) (cs_pcs s ! u)"
      by (rule pc_ok_mono [OF D(4)])
        (use le fresh [of u] u in \<open>simp_all add: kpt_load_def\<close>)
    then show ?thesis using False by simp
  qed
  moreover have "own_ok ?m b (a + 1) ?pcs"
    unfolding own_ok_def
  proof (intro allI impI)
    fix u c
    assume u: "u < length ?pcs" "entry_of (?pcs ! u) = Some c"
    show "b < c \<and> c < a + 1 \<and> unat c < 2 ^ 48 \<and> ?m c \<noteq> None \<and>
        (\<forall>v < length ?pcs. entry_of (?pcs ! v) = Some c \<longrightarrow> v = u)"
    proof (cases "u = t")
      case True
      then have c: "c = a" using u t by simp
      have "v = t" if "v < length ?pcs" "entry_of (?pcs ! v) = Some a" for v
        using that fresh [of v a] by (cases "v = t") auto
      then show ?thesis using True c tail a(1,2) D(5) by auto
    next
      case False
      then have u': "u < length (cs_pcs s)" "entry_of (cs_pcs s ! u) = Some c" using u by simp_all
      note O = own_okD [OF D(6) u']
      have "v = u" if "v < length ?pcs" "entry_of (?pcs ! v) = Some c" for v
        using that O(5) [of v] fresh [OF u'] t by (cases "v = t") auto
      then show ?thesis using O(1-4) le by auto
    qed
  qed
  moreover have "b < a + 1" using D(5) le by simp
  ultimately show ?thesis using ch D(2) lk by (simp add: chain_ok_def)
qed

lemma chain_step_invar:
  assumes "chain_invar b s" "chain_step tag s s'"
  shows "chain_invar b s'"
proof -
  from assms(1) obtain xs where ok: "chain_ok b xs s" by (auto simp: chain_invar_def)
  from assms(2) show ?thesis
  proof cases
    case (find t)
    then show ?thesis using find_ok [OF ok] by (auto simp: chain_invar_def)
  next
    case (alloc t x a k mode i)
    have "chain_ok b xs s'" unfolding alloc(1) by (rule alloc_ok [OF ok alloc(2-8)])
    then show ?thesis by (auto simp: chain_invar_def)
  next
    case (run t pc e m)
    then show ?thesis using insert_step_ok [OF ok run(2,3)] by (auto simp: chain_invar_def)
  qed
qed

text \<open>Initially the chain is what it was: the entry leads to records that are not inserted here.\<close>

definition chain_initial :: "address \<Rightarrow> chain_state \<Rightarrow> bool" where
  "chain_initial b s \<longleftrightarrow> hbe_address (cs_entry s) = b \<and> b < cs_tail s \<and> (\<forall>pc \<in> set (cs_pcs s). pc = IIdle)"

lemma chain_initial_invar: "chain_initial b s \<Longrightarrow> chain_invar b s"
proof -
  assume i: "chain_initial b s"
  then have idle: "cs_pcs s ! t = IIdle" if "t < length (cs_pcs s)" for t using that by (simp add: chain_initial_def)
  have "hbe_address (cs_entry s) = b" "b < cs_tail s" using i by (simp_all add: chain_initial_def)
  then have "chain_ok b [] s" by (simp add: chain_ok_def own_ok_def idle)
  then show ?thesis by (auto simp: chain_invar_def)
qed

interpretation chain_ts: transition_system "chain_initial b" "chain_step tag" "chain_invar b"
  by unfold_locales (fact chain_initial_invar, fact chain_step_invar)

text \<open>
  C3: in every interleaving of the atomic accesses of any number of insertions, the hash chain
  leads strictly downwards from the bucket entry to where it ended before, through exactly the key
  pointers whose insertion has finished.
\<close>

theorem hash_chain_complete:
  assumes "chain_initial b s0" "(chain_step tag)\<^sup>*\<^sup>* s0 s"
  shows "\<exists>xs. kpt_chain (cs_kpts s) (hbe_address (cs_entry s)) xs b \<and> descending xs \<and>
    (\<forall>a. a \<in> set xs \<longleftrightarrow> ILinked a \<in> set (cs_pcs s))"
proof -
  from chain_ts.invar_reachable [OF assms] obtain xs where "chain_ok b xs s" by (auto simp: chain_invar_def)
  note D = chain_okD [OF this]
  have "\<forall>a. a \<in> set xs \<longleftrightarrow> ILinked a \<in> set (cs_pcs s)" using D(3) by (auto simp: in_set_conv_nth)
  then show ?thesis using D(1,2) by blast
qed



section \<open>An insertion on its own\<close>

text \<open>The insertion as the code runs it when no other thread interferes.\<close>

fun linked_pc :: "insert_pc \<Rightarrow> bool" where
  "linked_pc (ILinked a) = True"
| "linked_pc pc = False"

partial_function (option) insert_loop :: "u16 \<Rightarrow> insert_pc \<Rightarrow> hb_entry \<Rightarrow> kpt_memory \<Rightarrow> (hb_entry \<times> kpt_memory) option" where
  "insert_loop tag pc entry m =
     (if linked_pc pc then Some (entry, m)
      else case insert_step tag pc entry m of (pc, entry, m) \<Rightarrow> insert_loop tag pc entry m)"

declare insert_loop.simps [code]

definition below :: "address list \<Rightarrow> address \<Rightarrow> nat" where
  "below xs k = length (filter (\<lambda>y. y < k) xs)"

lemma below_less: "k' \<in> set xs \<Longrightarrow> k' < k \<Longrightarrow> below xs k' < below xs k"
proof -
  assume k: "k' \<in> set xs" "k' < k"
  have "filter (\<lambda>y. y < k') xs = filter (\<lambda>y. y < k') (filter (\<lambda>y. y < k) xs)"
    using k(2) by (induction xs) auto
  moreover have "k' \<in> set (filter (\<lambda>y. y < k) xs)" using k by simp
  ultimately show ?thesis
    unfolding below_def using length_filter_less [of k' "filter (\<lambda>y. y < k) xs" "\<lambda>y. y < k'"] by (simp only: less_irrefl simp_thms)
qed

text \<open>How far an insertion is from being done when the others pause.\<close>

fun distance :: "address list \<Rightarrow> hb_entry \<Rightarrow> kpt_memory \<Rightarrow> insert_pc \<Rightarrow> nat" where
  "distance xs e m (ISwap a x) = (if x = e then 1 else 4 * length xs + 10)"
| "distance xs e m (ILoad a k) = 4 * below xs k + 3"
| "distance xs e m (IWalk a k c) = (if c = kpt_load m k then 4 * below xs k + 2 else 4 * below xs k + 4)"
| "distance xs e m (IAlter a k c) = (if c = kpt_load m k then 1 else 4 * below xs k + 3)"
| "distance xs e m pc = 0"

lemma insert_step_own:
  assumes "entry_of pc = Some a" "insert_step tag pc e m = (pc', e', m')"
  shows "entry_of pc' = Some a"
  using assms by (cases pc) (auto simp: swap_step_def walk_step_def alter_step_def Let_def split: prod.splits bool.splits if_splits)

lemma distance_step:
  assumes ok: "chain_ok b xs s" and t: "t < length (cs_pcs s)" "entry_of (cs_pcs s ! t) = Some a"
    and n: "\<not> linked_pc (cs_pcs s ! t)" "\<not> linked_pc pc"
    and st: "insert_step tag (cs_pcs s ! t) (cs_entry s) (cs_kpts s) = (pc, e, m)"
  shows "distance xs e m pc < distance xs (cs_entry s) (cs_kpts s) (cs_pcs s ! t)"
proof -
  note P = chain_okD(4) [OF ok t(1)]
  have le: "below xs k \<le> length xs" for k by (simp add: below_def)
  show ?thesis
  proof (cases "cs_pcs s ! t")
    case (ISwap a' x)
    then show ?thesis using st n le [of "hbe_address (cs_entry s)"]
      by (auto simp: swap_step_def Let_def hbe_compare_exchange_strong_def compare_exchange_def split: if_splits)
  next
    case (ILoad a' k)
    then show ?thesis using st by auto
  next
    case (IWalk a' k c)
    have "below xs (kpt_prev_address c) < below xs k" if "kpt_prev_address c > a'"
    proof (rule below_less)
      show "kpt_prev_address c < k" using P IWalk by simp
      have "b < a'" using own_okD(1) [OF chain_okD(6) [OF ok] t] t(2) IWalk by simp
      then show "kpt_prev_address c \<in> set xs" using P IWalk that by auto
    qed
    moreover have "kpt_load (set_prev a' p (cs_kpts s)) k = kpt_load (cs_kpts s) k" for p
      using P IWalk by (auto simp: kpt_load_def)
    ultimately show ?thesis using st IWalk by (auto simp: walk_step_def split: if_splits)
  next
    case (IAlter a' k c)
    then show ?thesis using st n
      by (auto simp: alter_step_def kpt_alter_def compare_exchange_def Let_def split: if_splits)
  qed (use t(2) n in simp_all)
qed

lemma insert_loop_links:
  assumes "chain_ok b xs s" "t < length (cs_pcs s)" "entry_of (cs_pcs s ! t) = Some a"
  shows "\<exists>e m xs'. insert_loop tag (cs_pcs s ! t) (cs_entry s) (cs_kpts s) = Some (e, m) \<and>
    kpt_chain m (hbe_address e) xs' b \<and> descending xs' \<and> set xs' = insert a (set xs)"
  using assms
proof (induction "distance xs (cs_entry s) (cs_kpts s) (cs_pcs s ! t)" arbitrary: s rule: less_induct)
  case less
  note D = chain_okD [OF less.prems(1)]
  let ?pc = "cs_pcs s ! t"
  show ?case
  proof (cases "linked_pc ?pc")
    case True
    then have "?pc = ILinked a" using less.prems(3) by (cases ?pc) simp_all
    then have "a \<in> set xs" using D(3) less.prems(2) by blast
    then show ?thesis using True D(1,2) by (subst insert_loop.simps) (auto simp: insert_absorb)
  next
    case False
    obtain pc e m where st: "insert_step tag ?pc (cs_entry s) (cs_kpts s) = (pc, e, m)" by (metis prod_cases3)
    let ?s = "s\<lparr>cs_entry := e, cs_kpts := m, cs_pcs := (cs_pcs s)[t := pc]\<rparr>"
    have own: "entry_of pc = Some a" by (rule insert_step_own [OF less.prems(3) st])
    have step: "insert_loop tag ?pc (cs_entry s) (cs_kpts s) = insert_loop tag pc e m"
      using False st by (subst insert_loop.simps) simp
    from insert_step_ok [OF less.prems(1,2) st] obtain xs' where
      ok': "chain_ok b xs' ?s" "(\<forall>a. pc \<noteq> ILinked a) \<longrightarrow> xs' = xs" by blast
    show ?thesis
    proof (cases "linked_pc pc")
      case True
      then have pc: "pc = ILinked a" using own by (cases pc) simp_all
      have "x \<in> set xs' \<longleftrightarrow> x \<in> insert a (set xs)" for x
      proof -
        have nl: "?pc \<noteq> ILinked x" using False by auto
        have "x \<in> set xs' \<longleftrightarrow> (\<exists>u < length (cs_pcs s). (cs_pcs s)[t := ILinked a] ! u = ILinked x)"
          using chain_okD(3) [OF ok'(1)] pc by simp
        also have "\<dots> \<longleftrightarrow> x = a \<or> (\<exists>u < length (cs_pcs s). cs_pcs s ! u = ILinked x)"
          using less.prems(2) nl by (metis insert_pc.inject(6) nth_list_update_eq nth_list_update_neq)
        also have "\<dots> \<longleftrightarrow> x \<in> insert a (set xs)" using D(3) by simp
        finally show ?thesis .
      qed
      then have "set xs' = insert a (set xs)" by blast
      moreover have "insert_loop tag pc e m = Some (e, m)" using True by (subst insert_loop.simps) simp
      ultimately show ?thesis using step chain_okD(1,2) [OF ok'(1)] by auto
    next
      case nl: False
      then have "xs' = xs" using ok'(2) by auto
      then have ok: "chain_ok b xs ?s" using ok'(1) by simp
      have pcs: "cs_pcs ?s ! t = pc" using less.prems(2) by simp
      have "distance xs (cs_entry ?s) (cs_kpts ?s) (cs_pcs ?s ! t) < distance xs (cs_entry s) (cs_kpts s) ?pc"
        using distance_step [OF less.prems False nl st] pcs by simp
      from less.hyps [OF this ok] own pcs less.prems(2) show ?thesis unfolding step by simp
    qed
  qed
qed

text \<open>
  C7: an insertion that has its key pointer never gets stuck, whatever the others have done so far:
  if they pause, it returns, and then its key pointer and those linked before form the chain.
\<close>

theorem insertion_finishes_alone:
  assumes "chain_initial b s0" "(chain_step tag)\<^sup>*\<^sup>* s0 s" "t < length (cs_pcs s)"
    and "entry_of (cs_pcs s ! t) = Some a"
  shows "\<exists>e m xs. insert_loop tag (cs_pcs s ! t) (cs_entry s) (cs_kpts s) = Some (e, m) \<and>
    kpt_chain m (hbe_address e) xs b \<and> descending xs \<and> set xs = insert a {x. ILinked x \<in> set (cs_pcs s)}"
proof -
  from chain_ts.invar_reachable [OF assms(1,2)] obtain xs where ok: "chain_ok b xs s" by (auto simp: chain_invar_def)
  have "set xs = {x. ILinked x \<in> set (cs_pcs s)}" using chain_okD(3) [OF ok] by (auto simp: in_set_conv_nth)
  then show ?thesis using insert_loop_links [OF ok assms(3,4), of tag] by auto
qed


section \<open>A run\<close>

text \<open>
  Two insertions into an empty chain: the second, at the higher address, overtakes the first,
  which then has to go in below it.
\<close>

definition chain_find :: "nat \<Rightarrow> chain_state \<Rightarrow> chain_state" where
  "chain_find t s = s\<lparr>cs_pcs := (cs_pcs s)[t := IFound (cs_entry s)]\<rparr>"

definition chain_alloc :: "nat \<Rightarrow> address \<Rightarrow> chain_state \<Rightarrow> chain_state" where
  "chain_alloc t a s = (case cs_pcs s ! t of IFound x \<Rightarrow>
     s\<lparr>cs_kpts := (cs_kpts s)(a \<mapsto> KeyPointer_inline 0 (hbe_address x) 3 1), cs_tail := a + 1,
       cs_pcs := (cs_pcs s)[t := ISwap a x]\<rparr> | _ \<Rightarrow> s)"

definition chain_run :: "u16 \<Rightarrow> nat \<Rightarrow> chain_state \<Rightarrow> chain_state" where
  "chain_run tag t s = (case insert_step tag (cs_pcs s ! t) (cs_entry s) (cs_kpts s) of
     (pc, e, m) \<Rightarrow> s\<lparr>cs_entry := e, cs_kpts := m, cs_pcs := (cs_pcs s)[t := pc]\<rparr>)"

definition run0 :: chain_state where
  "run0 = \<lparr>cs_entry = HashBucketEntry kInvalidAddress 5 False, cs_kpts = Map.empty, cs_tail = 64, cs_pcs = [IIdle, IIdle]\<rparr>"

definition run1 :: chain_state where
  "run1 = chain_run 5 1 (chain_alloc 1 104 (chain_alloc 0 72 (chain_find 1 (chain_find 0 run0))))"

definition run2 :: chain_state where
  "run2 = chain_run 5 0 (chain_run 5 0 (chain_run 5 0 (chain_run 5 0 run1)))"

lemma run_values:
  "cs_pcs run1 = [ISwap 72 (HashBucketEntry kInvalidAddress 5 False), ILinked 104]"
  "cs_pcs run2 = [ILinked 72, ILinked 104]"
  by code_simp+

lemma chain_alloc_step:
  assumes "t < length (cs_pcs s)" "cs_pcs s ! t = IFound x" "cs_tail s \<le> a" "unat a + 1 < 2 ^ 48"
  shows "chain_step tag s (chain_alloc t a s)"
  using alloc [OF assms, of "KeyPointer_inline 0 (hbe_address x) 3 1" 1 0 tag] assms(2)
  by (simp add: chain_alloc_def KeyPointer_inline_def)

lemma run_steps:
  "chain_initial kInvalidAddress run0" "(chain_step 5)\<^sup>*\<^sup>* run0 run1" "(chain_step 5)\<^sup>*\<^sup>* run0 run2"
proof -
  have chain_run_step: "chain_step tag s (chain_run tag t s)" if "t < length (cs_pcs s)" for tag t s
    using run [OF that, of tag] by (auto simp: chain_run_def split: prod.split)
  show "chain_initial kInvalidAddress run0" by (simp add: run0_def chain_initial_def)
  have chain_run_steps: "(chain_step 5)\<^sup>*\<^sup>* s0 (chain_run 5 t s)"
    if "(chain_step 5)\<^sup>*\<^sup>* s0 s" "t < length (cs_pcs s)" for s0 s t
    by (rule rtranclp.rtrancl_into_rtrancl [OF that(1)]) (rule chain_run_step [OF that(2)])
  have len: "length (cs_pcs (chain_run tag t s)) = length (cs_pcs s)" for tag t s
    by (simp add: chain_run_def split: prod.split)
  let ?e = "HashBucketEntry kInvalidAddress 5 False"
  let ?f0 = "chain_find 0 run0" and ?f1 = "chain_find 1 (chain_find 0 run0)"
  let ?a0 = "chain_alloc 0 72 ?f1" and ?a1 = "chain_alloc 1 104 (chain_alloc 0 72 ?f1)"
  have pcs: "cs_pcs ?f0 = [IFound ?e, IIdle]" "cs_pcs ?f1 = [IFound ?e, IFound ?e]"
    "cs_pcs ?a0 = [ISwap 72 ?e, IFound ?e]" "cs_pcs ?a1 = [ISwap 72 ?e, ISwap 104 ?e]"
    by (simp_all add: chain_find_def chain_alloc_def run0_def)
  have s1: "chain_step 5 run0 ?f0" unfolding chain_find_def by (rule find) (simp_all add: run0_def)
  have s2: "chain_step 5 ?f0 ?f1"
    unfolding chain_find_def [of 1] by (rule find) (simp_all add: pcs)
  have s3: "chain_step 5 ?f1 ?a0"
    by (rule chain_alloc_step [where x = ?e]) (simp_all add: pcs, simp_all add: chain_find_def run0_def)
  have s4: "chain_step 5 ?a0 ?a1"
    by (rule chain_alloc_step [where x = ?e]) (simp_all add: pcs, simp_all add: chain_alloc_def chain_find_def run0_def)
  have s5: "chain_step 5 ?a1 run1"
    unfolding run1_def by (rule chain_run_step) (simp only: pcs, simp)
  show r1: "(chain_step 5)\<^sup>*\<^sup>* run0 run1"
    by (rule rtranclp.rtrancl_into_rtrancl [OF rtranclp.rtrancl_into_rtrancl [OF rtranclp.rtrancl_into_rtrancl
      [OF rtranclp.rtrancl_into_rtrancl [OF r_into_rtranclp [of _ run0]]]]]) (fact s1 s2 s3 s4 s5)+
  have "length (cs_pcs run1) = 2" by (simp add: run_values)
  then show "(chain_step 5)\<^sup>*\<^sup>* run0 run2"
    unfolding run2_def by (intro chain_run_steps r1) (simp_all add: len)
qed

theorem hash_chain_complete_witness:
  "\<exists>xs. kpt_chain (cs_kpts run2) (hbe_address (cs_entry run2)) xs kInvalidAddress \<and> descending xs \<and> set xs = {72, 104}"
proof -
  obtain xs where "kpt_chain (cs_kpts run2) (hbe_address (cs_entry run2)) xs kInvalidAddress" "descending xs"
    "\<forall>a. a \<in> set xs \<longleftrightarrow> ILinked a \<in> set (cs_pcs run2)"
    using hash_chain_complete [OF run_steps(1,3)] by blast
  moreover from this(3) have "set xs = {72, 104}" by (auto simp: run_values)
  ultimately show ?thesis by blast
qed

theorem insertion_finishes_alone_witness:
  "\<exists>e m xs. insert_loop 5 (cs_pcs run1 ! 0) (cs_entry run1) (cs_kpts run1) = Some (e, m) \<and>
    kpt_chain m (hbe_address e) xs kInvalidAddress \<and> descending xs \<and> set xs = {72, 104}"
proof -
  have "entry_of (cs_pcs run1 ! 0) = Some 72" "0 < length (cs_pcs run1)" by (simp_all add: run_values)
  from insertion_finishes_alone [OF run_steps(1,2) this(2,1)] show ?thesis by (simp add: run_values)
qed

end
