(* ===== verification/Contexts.thy ===== *)
theory Contexts
  imports Records Async System_State
begin

text \<open>
  \<open>internal_contexts.h\<close>: the contexts that carry an operation through the store. A pending
  context remembers the phase, version and address at which an operation went asynchronous;
  a scan context also adapts how much it prefetches; an insert context holds a payload with
  the key pointers to build for it. Per-thread execution contexts hold what a session has
  done and what it waits for.
\<close>

section \<open>Operations\<close>

datatype operation_type = Read | Insert | Scan | FullScan | Delete

datatype operation_status =
    SUCCESS | NOT_FOUND | RETRY_NOW | RETRY_LATER | RECORD_ON_DISK | SCAN_IN_PROGRESS
  | SUCCESS_UNMARK | NOT_FOUND_UNMARK | CPR_SHIFT_DETECTED

text \<open>
  What is needed to build a key pointer: the hash of its chain and the word that names the
  PSF and the value, laid out as the second word of a key pointer.
\<close>

record kpt_util =
  ku_hash :: key_hash
  ku_word :: u64

definition KPTUtil_general :: "u64 \<Rightarrow> u16 \<Rightarrow> u32 \<Rightarrow> u32 \<Rightarrow> kpt_util" where
  "KPTUtil_general hash general_psf_id value_offset value_size =
     \<lparr>ku_hash = hash,
      ku_word = bf_put 0 14 (ucast general_psf_id)
        (bf_put 14 25 (ucast value_offset) (bf_put 39 25 (ucast value_size) 0))\<rparr>"

definition KPTUtil_inline :: "u32 \<Rightarrow> u32 \<Rightarrow> kpt_util" where
  "KPTUtil_inline inline_psf_id v =
     \<lparr>ku_hash = GetHashCode2 inline_psf_id v,
      ku_word = bf_put 0 32 (ucast inline_psf_id) (bf_put 32 32 (ucast v) 0)\<rparr>"


section \<open>Pending contexts\<close>

record pending_context =
  pc_type :: operation_type
  pc_version :: u32
  pc_phase :: phase
  pc_result :: status
  pc_address :: address
  pc_start_addr :: address
  pc_end_addr :: address
  io_level :: nat

definition PendingContext :: "operation_type \<Rightarrow> pending_context" where
  "PendingContext t =
     \<lparr>pc_type = t, pc_version = 0xFFFFFFFF, pc_phase = INVALID, pc_result = Pending,
      pc_address = kInvalidAddress, pc_start_addr = 0, pc_end_addr = 0, io_level = 0\<rparr>"

definition go_async :: "phase \<Rightarrow> u32 \<Rightarrow> address \<Rightarrow> u64 \<Rightarrow> u64 \<Rightarrow> pending_context \<Rightarrow> pending_context" where
  "go_async ph version addr start end_addr c =
     c\<lparr>pc_phase := ph, pc_version := version, pc_address := addr, pc_start_addr := start, pc_end_addr := end_addr\<rparr>"

definition continue_async :: "address \<Rightarrow> pending_context \<Rightarrow> pending_context" where
  "continue_async addr c = c\<lparr>pc_address := addr\<rparr>"

text \<open>Adaptive prefetching: the I/O level grows while the gaps on the chain are small.\<close>

definition kIoLevels :: nat where "kIoLevels = 5"
definition address_offset_bit :: "nat list" where "address_offset_bit = [0, 12, 14, 16, 18]"
definition gap_thres :: u32 where "gap_thres = 138240"

definition scan_offset_bit :: "pending_context \<Rightarrow> nat" where
  "scan_offset_bit c = address_offset_bit ! io_level c"

definition setIOLevel :: "u64 \<Rightarrow> u64 \<Rightarrow> pending_context \<Rightarrow> pending_context" where
  "setIOLevel avg_rec_size gap c =
     (if gap > ucast gap_thres + avg_rec_size then c\<lparr>io_level := 0\<rparr>
      else if io_level c < kIoLevels - 1 then c\<lparr>io_level := io_level c + 1\<rparr> else c)"

text \<open>The level stays in the table, so the scan never reads past it.\<close>

lemma setIOLevel_bound: "io_level c < kIoLevels \<Longrightarrow> io_level (setIOLevel avg gap c) < kIoLevels"
  by (simp add: setIOLevel_def kIoLevels_def)

lemma length_address_offset_bit [simp]: "length address_offset_bit = kIoLevels"
  by (simp add: address_offset_bit_def kIoLevels_def)

text \<open>Larger levels prefetch more.\<close>

lemma address_offset_bit_mono:
  "i < kIoLevels \<Longrightarrow> j < kIoLevels \<Longrightarrow> i < j \<Longrightarrow> address_offset_bit ! i < address_offset_bit ! j"
proof -
  have "sorted_wrt (<) address_offset_bit" by (simp add: address_offset_bit_def)
  then show "i < kIoLevels \<Longrightarrow> j < kIoLevels \<Longrightarrow> i < j \<Longrightarrow> address_offset_bit ! i < address_offset_bit ! j"
    by (simp add: sorted_wrt_iff_nth_less)
qed


section \<open>Insert contexts\<close>

text \<open>
  A payload is a reference into a heap of buffers: a context that was deep-copied frees its
  payload when it is destroyed. Options are the values of PSFs that are not part of the
  payload.
\<close>

record nullable_string_ref =
  ns_is_null :: bool
  ns_need_free :: bool
  ns_payload :: "u8 list"

record record_insert_context =
  ric_payload :: nat
  ric_payload_size :: u32
  ric_kpts :: "kpt_util list"
  ric_options :: "nullable_string_ref list"
  ric_n_general_pts :: u16
  ric_offset :: u32
  ric_optional_size :: u32
  ric_from_deep_copy :: bool

definition RecordInsertContext :: "nat \<Rightarrow> u32 \<Rightarrow> u32 \<Rightarrow> record_insert_context" where
  "RecordInsertContext payload payload_size offset =
     \<lparr>ric_payload = payload, ric_payload_size = payload_size, ric_kpts = [], ric_options = [],
      ric_n_general_pts = 0, ric_offset = offset, ric_optional_size = 0, ric_from_deep_copy = False\<rparr>"

definition RecordInsertContext_copy :: "nat \<Rightarrow> u32 \<Rightarrow> kpt_util list \<Rightarrow> u16 \<Rightarrow> u32 \<Rightarrow> u32 \<Rightarrow> record_insert_context" where
  "RecordInsertContext_copy payload payload_size kpts n_general_pts offset option_size =
     \<lparr>ric_payload = payload, ric_payload_size = payload_size, ric_kpts = kpts, ric_options = [],
      ric_n_general_pts = n_general_pts, ric_offset = offset, ric_optional_size = option_size,
      ric_from_deep_copy = False\<rparr>"

type_synonym buffers = "nat \<rightharpoonup> u8 list"

text \<open>
  \<open>DeepCopy_Internal\<close>: the outcome of the allocation of the context, the buffer that \<open>malloc\<close>
  returns, and the heap.
\<close>

definition ric_DeepCopy_Internal :: "bool \<Rightarrow> nat \<Rightarrow> record_insert_context \<Rightarrow> buffers \<Rightarrow>
    status \<times> record_insert_context option \<times> buffers" where
  "ric_DeepCopy_Internal allocated res c h =
     (if \<not> allocated then (OutOfMemory, None, h)
      else (Ok,
            Some (RecordInsertContext_copy (ric_payload c) (ric_payload_size c) (ric_kpts c)
                    (ric_n_general_pts c) (ric_offset c) (ric_optional_size c)),
            h(res := h (ric_payload c))))"

text \<open>\<open>IAsyncContext::DeepCopy\<close> marks the copy.\<close>

definition ric_DeepCopy :: "bool \<Rightarrow> nat \<Rightarrow> record_insert_context \<Rightarrow> buffers \<Rightarrow>
    status \<times> record_insert_context option \<times> buffers" where
  "ric_DeepCopy allocated res c h =
     (if ric_from_deep_copy c then (Ok, Some c, h)
      else case ric_DeepCopy_Internal allocated res c h of
             (st, copy, h) \<Rightarrow> (st, map_option (\<lambda>x. x\<lparr>ric_from_deep_copy := True\<rparr>) copy, h))"

definition ric_destroy :: "record_insert_context \<Rightarrow> buffers \<Rightarrow> buffers" where
  "ric_destroy c h = (if ric_from_deep_copy c then h(ric_payload c := None) else h)"

text \<open>
  C34: the deep copy of an insert context refers to the payload of the original, not to the copy of the
  payload it makes, and has none of its options: destroying it frees the caller's buffer and
  leaves the copied buffer behind.
\<close>

theorem insert_context_copy_shares_payload:
  assumes "\<not> ric_from_deep_copy c" "h (ric_payload c) = Some data" "h res = None"
    and "ric_DeepCopy True res c h = (st, copy, h')"
  shows "\<exists>c'. st = Ok \<and> copy = Some c' \<and> ric_payload c' = ric_payload c \<and> ric_options c' = [] \<and>
    ric_optional_size c' = ric_optional_size c \<and>
    ric_destroy c' h' (ric_payload c) = None \<and> ric_destroy c' h' res = Some data"
proof -
  let ?c = "(RecordInsertContext_copy (ric_payload c) (ric_payload_size c) (ric_kpts c) (ric_n_general_pts c)
      (ric_offset c) (ric_optional_size c))\<lparr>ric_from_deep_copy := True\<rparr>"
  have r: "st = Ok" "copy = Some ?c" "h' = h(res := h (ric_payload c))"
    using assms(1,4) by (simp_all add: ric_DeepCopy_def ric_DeepCopy_Internal_def)
  have "res \<noteq> ric_payload c" using assms(2,3) by (cases "res = ric_payload c") simp_all
  then show ?thesis
    using r assms(2) by (intro exI [of _ ?c]) (simp add: RecordInsertContext_copy_def ric_destroy_def)
qed

theorem insert_context_copy_shares_payload_witness:
  "\<exists>c'. ric_DeepCopy True 7 (RecordInsertContext 3 2 2) [3 \<mapsto> [65, 66]] = (Ok, Some c', [3 \<mapsto> [65, 66], 7 \<mapsto> [65, 66]]) \<and>
    ric_payload c' = 3 \<and> ric_destroy c' [3 \<mapsto> [65, 66], 7 \<mapsto> [65, 66]] 3 = None"
proof -
  have "\<exists>st copy h'. ric_DeepCopy True 7 (RecordInsertContext 3 2 2) [3 \<mapsto> [65, 66]] = (st, copy, h') \<and>
      h' = [3 \<mapsto> [65, 66], 7 \<mapsto> [65, 66]]"
    by (simp add: ric_DeepCopy_def ric_DeepCopy_Internal_def RecordInsertContext_def)
  then obtain st copy where e: "ric_DeepCopy True 7 (RecordInsertContext 3 2 2) [3 \<mapsto> [65, 66]] =
      (st, copy, [3 \<mapsto> [65, 66], 7 \<mapsto> [65, 66]])" by auto
  have "\<not> ric_from_deep_copy (RecordInsertContext 3 2 2)" "ric_payload (RecordInsertContext 3 2 2) = 3"
    by (simp_all add: RecordInsertContext_def)
  then show ?thesis
    using insert_context_copy_shares_payload [of "RecordInsertContext 3 2 2" "[3 \<mapsto> [65, 66]]" "[65, 66]" 7, OF _ _ _ e] e
    by auto
qed


section \<open>Execution contexts\<close>

record 'r exec_context =
  ec_serial_num :: u64
  ec_offset :: u32
  ec_version :: u32
  ec_guid :: nat
  ec_phase :: phase
  retry_requests :: "pending_context list"
  io_id :: u64
  pending_ios :: "(u64 \<times> key_hash) list"
  pending_io_cnt :: u32
  io_responses :: "'r list"

definition ExecutionContext :: "'r exec_context" where
  "ExecutionContext =
     \<lparr>ec_serial_num = 0, ec_offset = 0, ec_version = 0, ec_guid = 0, ec_phase = INVALID,
      retry_requests = [], io_id = 0, pending_ios = [], pending_io_cnt = 0, io_responses = []\<rparr>"

definition ExecutionContext_Initialize :: "phase \<Rightarrow> u32 \<Rightarrow> nat \<Rightarrow> u64 \<Rightarrow> u32 \<Rightarrow> 'r exec_context \<Rightarrow> 'r exec_context" where
  "ExecutionContext_Initialize ph version guid serial_num offset c =
     c\<lparr>ec_serial_num := serial_num, ec_offset := offset, ec_version := version, ec_guid := guid,
       ec_phase := ph, retry_requests := [], io_id := 0, pending_ios := [], pending_io_cnt := 0,
       io_responses := []\<rparr>"

text \<open>The two contexts of a thread: the current one and the one of the version before.\<close>

record 'r thread_context =
  tc_contexts :: "'r exec_context \<times> 'r exec_context"
  tc_cur :: u8

definition ThreadContext :: "'r thread_context" where
  "ThreadContext = \<lparr>tc_contexts = (ExecutionContext, ExecutionContext), tc_cur = 0\<rparr>"

definition tc_get :: "u8 \<Rightarrow> 'r thread_context \<Rightarrow> 'r exec_context" where
  "tc_get i t = (if i = 0 then fst (tc_contexts t) else snd (tc_contexts t))"

definition tc_set :: "u8 \<Rightarrow> 'r exec_context \<Rightarrow> 'r thread_context \<Rightarrow> 'r thread_context" where
  "tc_set i c t = t\<lparr>tc_contexts := (if i = 0 then (c, snd (tc_contexts t)) else (fst (tc_contexts t), c))\<rparr>"

definition cur :: "'r thread_context \<Rightarrow> 'r exec_context" where
  "cur t = tc_get (tc_cur t) t"

definition prev :: "'r thread_context \<Rightarrow> 'r exec_context" where
  "prev t = tc_get ((tc_cur t + 1) mod 2) t"

definition swap_context :: "'r thread_context \<Rightarrow> 'r thread_context" where
  "swap_context t = t\<lparr>tc_cur := (tc_cur t + 1) mod 2\<rparr>"

definition set_cur :: "'r exec_context \<Rightarrow> 'r thread_context \<Rightarrow> 'r thread_context" where
  "set_cur c t = tc_set (tc_cur t) c t"

definition set_prev_context :: "'r exec_context \<Rightarrow> 'r thread_context \<Rightarrow> 'r thread_context" where
  "set_prev_context c t = tc_set ((tc_cur t + 1) mod 2) c t"

definition tc_ok :: "'r thread_context \<Rightarrow> bool" where
  "tc_ok t \<longleftrightarrow> tc_cur t = 0 \<or> tc_cur t = 1"

lemma swap_contexts [simp]:
  assumes "tc_ok t"
  shows "cur (swap_context t) = prev t" "prev (swap_context t) = cur t" "tc_ok (swap_context t)"
  using assms by (auto simp: tc_ok_def cur_def prev_def swap_context_def tc_get_def)

lemma set_contexts [simp]:
  assumes "tc_ok t"
  shows "cur (set_cur c t) = c" "prev (set_cur c t) = prev t" "cur (set_prev_context c t) = cur t"
    "prev (set_prev_context c t) = c" "tc_ok (set_cur c t)" "tc_ok (set_prev_context c t)"
  using assms by (auto simp: tc_ok_def cur_def prev_def set_cur_def set_prev_context_def tc_get_def tc_set_def)

end
