(* ===== verification/Chain_Scan.thy ===== *)
theory Chain_Scan
  imports Chain_Insert Contexts Hash_Index
begin

text \<open>
  Reading the store: \<open>InternalRead\<close>, \<open>InternalScan\<close> and \<open>TraceBackForMatch\<close> of \<open>fishstore.h\<close>
  follow a hash chain through the part of the log that is in memory, and \<open>InternalFullScan\<close>
  goes through a page record by record. The caller's \<open>check\<close> is a predicate on a key
  pointer and its address; what it is given (\<open>Get\<close>, \<open>Touch\<close>) is the list of record addresses.
  The value None is a read outside the log or a loop that does not end.
\<close>

section \<open>Memory\<close>

record log_mem =
  lm_kpts :: kpt_memory
  lm_headers :: "address \<rightharpoonup> record_info"

text \<open>A key pointer with the address and the header of its record.\<close>

definition kpt_at :: "log_mem \<Rightarrow> address \<Rightarrow> (key_pointer \<times> address \<times> record_info) option" where
  "kpt_at m a = (case lm_kpts m a of
     None \<Rightarrow> None
   | Some k \<Rightarrow> let rec = kpt_get_record a (kp_control k) in
       map_option (\<lambda>h. (k, rec, h)) (lm_headers m rec))"

partial_function (option) TraceBackForMatch :: "(address \<Rightarrow> key_pointer \<Rightarrow> bool) \<Rightarrow> log_mem \<Rightarrow>
    address \<Rightarrow> address \<Rightarrow> address option" where
  "TraceBackForMatch check m from_address min_offset =
     (if from_address \<ge> min_offset
      then case kpt_at m from_address of
             None \<Rightarrow> None
           | Some (kpt, _, header) \<Rightarrow>
               if \<not> ri_invalid header \<and> check from_address kpt then Some from_address
               else TraceBackForMatch check m (kpt_prev_address (kp_control kpt)) min_offset
      else Some from_address)"

declare TraceBackForMatch.simps [code]

text \<open>
  The first match from an address on, with the version of the record at that address; the
  shared beginning of \<open>InternalRead\<close> and \<open>InternalScan\<close>.
\<close>

definition first_match :: "(address \<Rightarrow> key_pointer \<Rightarrow> bool) \<Rightarrow> log_mem \<Rightarrow> address \<Rightarrow> address \<Rightarrow>
    (address \<times> u64) option" where
  "first_match check m addr head_address =
     (if addr \<ge> head_address
      then case kpt_at m addr of
             None \<Rightarrow> None
           | Some (kpt, _, header) \<Rightarrow>
               if ri_invalid header \<or> \<not> check addr kpt
               then map_option (\<lambda>a. (a, ri_checkpoint_version header))
                      (TraceBackForMatch check m (kpt_prev_address (kp_control kpt)) head_address)
               else Some (addr, ri_checkpoint_version header)
      else Some (addr, 0))"


section \<open>Read\<close>

text \<open>The status, the record that the caller is given, and the pending context.\<close>

definition InternalRead :: "(address \<Rightarrow> key_pointer \<Rightarrow> bool) \<Rightarrow> hash_index \<Rightarrow> log_mem \<Rightarrow> key_hash \<Rightarrow>
    address \<Rightarrow> address \<Rightarrow> phase \<Rightarrow> u32 \<Rightarrow> pending_context \<Rightarrow>
    (operation_status \<times> address option \<times> pending_context) option" where
  "InternalRead check hi m hash begin_address head_address ph version pc =
     (case FindEntry hi hash of
        None \<Rightarrow> None
      | Some None \<Rightarrow> Some (NOT_FOUND, None, pc)
      | Some (Some atomic_entry) \<Rightarrow>
          (case load_entry hi atomic_entry of
             None \<Rightarrow> None
           | Some entry \<Rightarrow>
               (case first_match check m (hbe_address entry) head_address of
                  None \<Rightarrow> None
                | Some (addr, latest_record_version) \<Rightarrow>
                    if ph = PREPARE \<and> latest_record_version > ucast version
                    then Some (CPR_SHIFT_DETECTED, None, go_async ph version addr 0 kMaxAddress pc)
                    else if addr \<ge> head_address
                    then map_option (\<lambda>(_, rec, _). (SUCCESS, Some rec, pc)) (kpt_at m addr)
                    else if addr \<ge> begin_address
                    then Some (RECORD_ON_DISK, None, go_async ph version addr 0 kMaxAddress pc)
                    else Some (NOT_FOUND, None, pc))))"


section \<open>Scan\<close>

partial_function (option) skip_loop :: "log_mem \<Rightarrow> address \<Rightarrow> address \<Rightarrow> address \<Rightarrow> address option" where
  "skip_loop m end_addr head_address addr =
     (if addr > end_addr \<and> addr \<ge> head_address
      then case lm_kpts m addr of
             None \<Rightarrow> None
           | Some kpt \<Rightarrow> skip_loop m end_addr head_address (kpt_prev_address (kp_control kpt))
      else Some addr)"

partial_function (option) touch_loop :: "(address \<Rightarrow> key_pointer \<Rightarrow> bool) \<Rightarrow> log_mem \<Rightarrow> address \<Rightarrow> address \<Rightarrow>
    address \<Rightarrow> address list \<Rightarrow> (address \<times> address list) option" where
  "touch_loop check m start_addr head_address addr touched =
     (if addr \<ge> start_addr \<and> addr \<ge> head_address
      then case kpt_at m addr of
             None \<Rightarrow> None
           | Some (kpt, rec, _) \<Rightarrow>
               (case TraceBackForMatch check m (kpt_prev_address (kp_control kpt)) head_address of
                  None \<Rightarrow> None
                | Some a \<Rightarrow> touch_loop check m start_addr head_address a (touched @ [rec]))
      else Some (addr, touched))"

declare skip_loop.simps [code] touch_loop.simps [code]

text \<open>The status, the records touched, whether the scan was finalized, and the pending context.\<close>

type_synonym scan_result = "operation_status \<times> address list \<times> bool \<times> pending_context"

definition scan_chain :: "(address \<Rightarrow> key_pointer \<Rightarrow> bool) \<Rightarrow> log_mem \<Rightarrow> address \<Rightarrow>
    address \<Rightarrow> address \<Rightarrow> phase \<Rightarrow> u32 \<Rightarrow> u64 \<Rightarrow> u64 \<Rightarrow> pending_context \<Rightarrow> scan_result option" where
  "scan_chain check m addr begin_address head_address ph version start_addr end_addr pc =
     (case skip_loop m end_addr head_address addr of
        None \<Rightarrow> None
      | Some addr \<Rightarrow>
          (case first_match check m addr head_address of
             None \<Rightarrow> None
           | Some (addr, latest_record_version) \<Rightarrow>
               if ph = PREPARE \<and> latest_record_version > ucast version
               then Some (CPR_SHIFT_DETECTED, [], False, go_async ph version addr 0 kMaxAddress pc)
               else
                 (case touch_loop check m start_addr head_address addr [] of
                    None \<Rightarrow> None
                  | Some (addr, touched) \<Rightarrow>
                      if addr < start_addr \<or> addr < begin_address
                      then Some (SUCCESS, touched, True, pc)
                      else Some (SCAN_IN_PROGRESS, touched, False,
                                 go_async ph version addr start_addr end_addr pc))))"

definition InternalScan :: "(address \<Rightarrow> key_pointer \<Rightarrow> bool) \<Rightarrow> hash_index \<Rightarrow> log_mem \<Rightarrow> key_hash \<Rightarrow>
    address \<Rightarrow> address \<Rightarrow> phase \<Rightarrow> u32 \<Rightarrow> u64 \<Rightarrow> u64 \<Rightarrow> pending_context \<Rightarrow> scan_result option" where
  "InternalScan check hi m hash begin_address head_address ph version start_addr end_addr pc =
     (case FindEntry hi hash of
        None \<Rightarrow> None
      | Some None \<Rightarrow> Some (SUCCESS, [], True, pc)
      | Some (Some atomic_entry) \<Rightarrow>
          (case load_entry hi atomic_entry of
             None \<Rightarrow> None
           | Some entry \<Rightarrow> scan_chain check m (hbe_address entry) begin_address head_address ph version
               start_addr end_addr pc))"


section \<open>What the loops do on a chain\<close>

text \<open>A chain in memory: its key pointers are at or above the head address, with their headers.\<close>

definition chain_in_memory :: "log_mem \<Rightarrow> address \<Rightarrow> address \<Rightarrow> address list \<Rightarrow> address \<Rightarrow> bool" where
  "chain_in_memory m head_address a xs b \<longleftrightarrow>
     kpt_chain (lm_kpts m) a xs b \<and> descending xs \<and> b < head_address \<and>
     (\<forall>x \<in> set xs. head_address \<le> x \<and> kpt_at m x \<noteq> None)"

definition record_of :: "log_mem \<Rightarrow> address \<Rightarrow> address" where
  "record_of m x = (case kpt_at m x of None \<Rightarrow> 0 | Some (_, rec, _) \<Rightarrow> rec)"

definition matches :: "(address \<Rightarrow> key_pointer \<Rightarrow> bool) \<Rightarrow> log_mem \<Rightarrow> address \<Rightarrow> bool" where
  "matches check m x \<longleftrightarrow> (case kpt_at m x of None \<Rightarrow> False
     | Some (kpt, _, header) \<Rightarrow> \<not> ri_invalid header \<and> check x kpt)"

lemma chain_in_memory_Nil: "chain_in_memory m hd_addr a [] b \<longleftrightarrow> a = b \<and> b < hd_addr"
  by (auto simp: chain_in_memory_def)

lemma chain_in_memory_Cons:
  assumes "chain_in_memory m hd_addr a (x # xs) b"
  obtains kpt rec header where "a = x" "hd_addr \<le> x" "b < x" "kpt_at m x = Some (kpt, rec, header)"
    "lm_kpts m x = Some kpt" "chain_in_memory m hd_addr (kpt_prev_address (kp_control kpt)) xs b"
    "\<forall>y \<in> set xs. y < x"
proof -
  have c: "kpt_chain (lm_kpts m) a (x # xs) b" "descending (x # xs)" "b < hd_addr" "hd_addr \<le> x" "kpt_at m x \<noteq> None"
    "\<forall>y \<in> set xs. hd_addr \<le> y \<and> kpt_at m y \<noteq> None"
    using assms by (auto simp: chain_in_memory_def)
  from c(5) obtain kpt rec header where k: "kpt_at m x = Some (kpt, rec, header)" by auto
  then have kp: "lm_kpts m x = Some kpt" by (auto simp: kpt_at_def Let_def split: option.splits)
  have "chain_in_memory m hd_addr (kpt_prev_address (kp_control kpt)) xs b"
    using c kp by (simp add: chain_in_memory_def)
  then show thesis using that c k kp by auto
qed

lemma TraceBackForMatch_chain:
  assumes "chain_in_memory m hd_addr a xs b"
  shows "TraceBackForMatch check m a hd_addr =
    Some (case dropWhile (\<lambda>x. \<not> matches check m x) xs of [] \<Rightarrow> b | y # ys \<Rightarrow> y)"
  using assms
proof (induction xs arbitrary: a)
  case Nil
  then show ?case by (subst TraceBackForMatch.simps) (auto simp: chain_in_memory_Nil)
next
  case (Cons x xs)
  from Cons.prems obtain kpt rec header where k: "a = x" "hd_addr \<le> x" "kpt_at m x = Some (kpt, rec, header)"
    "chain_in_memory m hd_addr (kpt_prev_address (kp_control kpt)) xs b"
    by (rule chain_in_memory_Cons)
  show ?case
    using Cons.IH [OF k(4)] k(1-3) by (subst TraceBackForMatch.simps) (simp add: matches_def)
qed

text \<open>The rest of the chain from one of its addresses.\<close>

lemma chain_in_memory_dropWhile:
  assumes "chain_in_memory m hd_addr a xs b"
  shows "chain_in_memory m hd_addr (case dropWhile P xs of [] \<Rightarrow> b | y # ys \<Rightarrow> y) (dropWhile P xs) b"
  using assms
proof (induction xs arbitrary: a)
  case Nil
  then show ?case by (simp add: chain_in_memory_Nil)
next
  case (Cons x xs)
  show ?case
  proof (cases "P x")
    case True
    from Cons.prems obtain kpt rec header where "kpt_at m x = Some (kpt, rec, header)"
      and t: "chain_in_memory m hd_addr (kpt_prev_address (kp_control kpt)) xs b"
      by (rule chain_in_memory_Cons)
    from Cons.IH [OF t] True show ?thesis by simp
  next
    case False
    from Cons.prems have "a = x" by (rule chain_in_memory_Cons)
    then show ?thesis using False Cons.prems by simp
  qed
qed

lemma skip_loop_chain:
  assumes "chain_in_memory m hd_addr a xs b"
  shows "skip_loop m end_addr hd_addr a =
    Some (case dropWhile (\<lambda>x. end_addr < x) xs of [] \<Rightarrow> b | y # ys \<Rightarrow> y)"
  using assms
proof (induction xs arbitrary: a)
  case Nil
  then show ?case by (subst skip_loop.simps) (auto simp: chain_in_memory_Nil)
next
  case (Cons x xs)
  from Cons.prems obtain kpt rec header where k: "a = x" "hd_addr \<le> x" "lm_kpts m x = Some kpt"
    "chain_in_memory m hd_addr (kpt_prev_address (kp_control kpt)) xs b" "kpt_at m x = Some (kpt, rec, header)"
    by (rule chain_in_memory_Cons)
  show ?case using Cons.IH [OF k(4)] k(1-3) by (subst skip_loop.simps) simp
qed

lemma touch_loop_chain:
  assumes "chain_in_memory m hd_addr a xs b" "xs = [] \<or> matches check m (hd xs)"
  shows "\<exists>c. touch_loop check m start hd_addr a acc =
      Some (c, acc @ map (record_of m) (filter (\<lambda>x. start \<le> x \<and> matches check m x) xs)) \<and>
    (b < start \<longrightarrow> c < start) \<and> (start \<le> b \<longrightarrow> c = b)"
  using assms
proof (induction "length xs" arbitrary: a xs acc rule: less_induct)
  case less
  show ?case
  proof (cases xs)
    case Nil
    then show ?thesis using less.prems(1) by (subst touch_loop.simps) (auto simp: chain_in_memory_Nil)
  next
    case (Cons x ys)
    from less.prems(1) [unfolded Cons] obtain kpt rec header where
      k: "a = x" "hd_addr \<le> x" "b < x" "kpt_at m x = Some (kpt, rec, header)"
        "chain_in_memory m hd_addr (kpt_prev_address (kp_control kpt)) ys b" "\<forall>y \<in> set ys. y < x"
      by (rule chain_in_memory_Cons)
    show ?thesis
    proof (cases "start \<le> x")
      case False
      then have "filter (\<lambda>x. start \<le> x \<and> matches check m x) xs = []"
        using k(6) Cons by (auto simp: filter_empty_conv)
      moreover have "touch_loop check m start hd_addr a acc = Some (x, acc)"
        using False k(1) by (subst touch_loop.simps) simp
      ultimately show ?thesis using False k(3) by auto
    next
      case True
      let ?zs = "dropWhile (\<lambda>x. \<not> matches check m x) ys"
      let ?a = "case ?zs of [] \<Rightarrow> b | y # ys \<Rightarrow> y"
      have st: "touch_loop check m start hd_addr a acc = touch_loop check m start hd_addr ?a (acc @ [rec])"
        using True k(1,2,4) TraceBackForMatch_chain [OF k(5), of check] by (subst touch_loop.simps) simp
      have len: "length ?zs < length xs" using length_dropWhile_le [of _ ys] by (simp add: Cons le_imp_less_Suc)
      have h: "?zs = [] \<or> matches check m (hd ?zs)" using hd_dropWhile [of "\<lambda>x. \<not> matches check m x" ys] by blast
      have f: "filter (\<lambda>x. start \<le> x \<and> matches check m x) ?zs = filter (\<lambda>x. start \<le> x \<and> matches check m x) ys"
        by (induction ys) auto
      have "matches check m x" using less.prems(2) Cons by simp
      then have "map (record_of m) (filter (\<lambda>x. start \<le> x \<and> matches check m x) xs) =
          rec # map (record_of m) (filter (\<lambda>x. start \<le> x \<and> matches check m x) ys)"
        using True k(4) by (simp add: Cons record_of_def)
      then show ?thesis
        using less.hyps [OF len chain_in_memory_dropWhile [OF k(5)] h, of "acc @ [rec]"] unfolding st f by simp
    qed
  qed
qed

lemma first_match_chain:
  assumes "chain_in_memory m hd_addr a xs b"
  shows "map_option fst (first_match check m a hd_addr) =
    Some (case dropWhile (\<lambda>x. \<not> matches check m x) xs of [] \<Rightarrow> b | y # ys \<Rightarrow> y)"
proof (cases xs)
  case Nil
  then show ?thesis using assms by (auto simp: first_match_def chain_in_memory_Nil)
next
  case (Cons x ys)
  from assms [unfolded Cons] obtain kpt rec header where
    k: "a = x" "hd_addr \<le> x" "kpt_at m x = Some (kpt, rec, header)"
      "chain_in_memory m hd_addr (kpt_prev_address (kp_control kpt)) ys b"
    by (rule chain_in_memory_Cons)
  show ?thesis
    using TraceBackForMatch_chain [OF k(4), of check] k(1-3) Cons by (auto simp: first_match_def matches_def)
qed

lemma filter_dropWhile_not:
  "(\<And>x. P x \<Longrightarrow> \<not> Q x) \<Longrightarrow> filter Q (dropWhile P xs) = filter Q xs"
  by (induction xs) auto

lemma filter_dropWhile_above:
  assumes "descending xs"
  shows "filter (\<lambda>x. start \<le> x \<and> Q x) (dropWhile (\<lambda>x. end_addr < x) xs) =
    filter (\<lambda>x. start \<le> x \<and> x \<le> end_addr \<and> Q x) xs"
  using assms
proof (induction xs)
  case (Cons x xs)
  have le: "descending xs" "\<forall>y \<in> set xs. y < x" using Cons.prems by auto
  show ?case
  proof (cases "end_addr < x")
    case True
    then show ?thesis using Cons.IH [OF le(1)] by auto
  next
    case False
    then have "\<forall>y \<in> set xs. y \<le> end_addr" using le(2) by auto
    then have "filter (\<lambda>x. start \<le> x \<and> Q x) xs = filter (\<lambda>x. start \<le> x \<and> x \<le> end_addr \<and> Q x) xs"
      by (intro filter_cong) auto
    then show ?thesis using False by auto
  qed
qed simp

lemma scan_chain_touches:
  assumes c: "chain_in_memory m hd_addr a xs b" and ph: "ph \<noteq> PREPARE"
  shows "scan_chain check m a begin_addr hd_addr ph v start end_addr pc =
    Some (let touched = map (record_of m) (filter (\<lambda>x. start \<le> x \<and> x \<le> end_addr \<and> matches check m x) xs) in
      if b < start \<or> b < begin_addr then (SUCCESS, touched, True, pc)
      else (SCAN_IN_PROGRESS, touched, False, go_async ph v b start end_addr pc))"
proof -
  let ?ys = "dropWhile (\<lambda>x. end_addr < x) xs"
  let ?zs = "dropWhile (\<lambda>x. \<not> matches check m x) ?ys"
  let ?a = "case ?ys of [] \<Rightarrow> b | y # _ \<Rightarrow> y" and ?z = "case ?zs of [] \<Rightarrow> b | y # _ \<Rightarrow> y"
  have sk: "skip_loop m end_addr hd_addr a = Some ?a" by (rule skip_loop_chain [OF c])
  have cy: "chain_in_memory m hd_addr ?a ?ys b" by (rule chain_in_memory_dropWhile [OF c])
  obtain lv where fm: "first_match check m ?a hd_addr = Some (?z, lv)"
    using first_match_chain [OF cy, of check] by (auto simp: map_option_case split: option.splits)
  have cz: "chain_in_memory m hd_addr ?z ?zs b" by (rule chain_in_memory_dropWhile [OF cy])
  have h: "?zs = [] \<or> matches check m (hd ?zs)"
    using hd_dropWhile [of "\<lambda>x. \<not> matches check m x" ?ys] by blast
  have d: "descending xs" using c by (simp add: chain_in_memory_def)
  have f: "filter (\<lambda>x. start \<le> x \<and> matches check m x) ?zs =
      filter (\<lambda>x. start \<le> x \<and> x \<le> end_addr \<and> matches check m x) xs"
    unfolding filter_dropWhile_above [OF d, symmetric] by (rule filter_dropWhile_not) simp
  obtain d where t: "touch_loop check m start hd_addr ?z [] =
      Some (d, map (record_of m) (filter (\<lambda>x. start \<le> x \<and> x \<le> end_addr \<and> matches check m x) xs))"
    "b < start \<longrightarrow> d < start" "start \<le> b \<longrightarrow> d = b"
    using touch_loop_chain [OF cz h, of start "[]"] unfolding f by auto
  have br: "(d < start \<or> d < begin_addr) \<longleftrightarrow> (b < start \<or> b < begin_addr)"
    using t(2,3) by (cases "b < start") auto
  show ?thesis
  proof (cases "b < start \<or> b < begin_addr")
    case True
    then show ?thesis using br ph by (simp add: scan_chain_def sk fm t(1) Let_def)
  next
    case False
    then have "d = b" using t(3) by auto
    then show ?thesis using br ph False by (simp add: scan_chain_def sk fm t(1) Let_def)
  qed
qed

text \<open>
  C4: outside the prepare phase an index scan of a range touches exactly the records on the hash
  chain in memory whose key pointer lies in the range, is valid and satisfies the predicate,
  from the newest to the oldest; it is final when the chain goes on below the range or
  below the log, and otherwise leaves the address and the range from which the scan goes on
  on disk.
\<close>

theorem scan_touches_matches:
  assumes "FindEntry hi hash = Some (Some p)" "load_entry hi p = Some entry"
    and "chain_in_memory m head_address (hbe_address entry) xs b" "ph \<noteq> PREPARE"
  shows "InternalScan check hi m hash begin_address head_address ph version start_addr end_addr pc =
    Some (let touched = map (record_of m)
                (filter (\<lambda>x. start_addr \<le> x \<and> x \<le> end_addr \<and> matches check m x) xs) in
      if b < start_addr \<or> b < begin_address then (SUCCESS, touched, True, pc)
      else (SCAN_IN_PROGRESS, touched, False, go_async ph version b start_addr end_addr pc))"
  using scan_chain_touches [OF assms(3,4)] assms(1,2) by (simp add: InternalScan_def)

text \<open>
  C5: a read returns the record of the newest valid key pointer on the chain that satisfies the
  predicate, when it is in memory; otherwise the operation goes to disk with the first
  address of the chain below the head, or nothing is found when that is below the log.
\<close>

theorem read_finds_newest:
  assumes "FindEntry hi hash = Some (Some p)" "load_entry hi p = Some entry"
    and "chain_in_memory m head_address (hbe_address entry) xs b" "ph \<noteq> PREPARE"
  shows "InternalRead check hi m hash begin_address head_address ph version pc =
    Some (case filter (matches check m) xs of
        x # _ \<Rightarrow> (SUCCESS, Some (record_of m x), pc)
      | [] \<Rightarrow> if begin_address \<le> b then (RECORD_ON_DISK, None, go_async ph version b 0 kMaxAddress pc)
              else (NOT_FOUND, None, pc))"
proof -
  let ?zs = "dropWhile (\<lambda>x. \<not> matches check m x) xs"
  let ?z = "case ?zs of [] \<Rightarrow> b | y # _ \<Rightarrow> y"
  obtain lv where fm: "first_match check m (hbe_address entry) head_address = Some (?z, lv)"
    using first_match_chain [OF assms(3), of check] by (auto simp: map_option_case split: option.splits)
  have f: "filter (matches check m) xs = filter (matches check m) ?zs"
    by (rule filter_dropWhile_not [symmetric]) simp
  have cz: "chain_in_memory m head_address ?z ?zs b" by (rule chain_in_memory_dropWhile [OF assms(3)])
  show ?thesis
  proof (cases ?zs)
    case Nil
    have "b < head_address" using assms(3) by (simp add: chain_in_memory_def)
    then show ?thesis using assms(1,2,4) fm Nil f by (auto simp: InternalRead_def)
  next
    case (Cons y ys)
    then have z: "?z = y" by simp
    have "matches check m y" using hd_dropWhile [of "\<lambda>x. \<not> matches check m x" xs] Cons by simp
    moreover from cz [unfolded z Cons] obtain kpt rec header
      where "head_address \<le> y" "kpt_at m y = Some (kpt, rec, header)" by (rule chain_in_memory_Cons)
    ultimately show ?thesis
      using assms(1,2,4) fm [unfolded z] unfolding f Cons by (simp add: InternalRead_def record_of_def)
  qed
qed

text \<open>
  C33: a scan that detects a checkpoint shift leaves the whole log as its range in the pending
  context, whatever range was asked for: \<open>HandleOperationStatus\<close> retries it with that range.
\<close>

theorem scan_shift_forgets_range:
  assumes "scan_chain check m a begin_address head_address ph version start_addr end_addr pc =
    Some (CPR_SHIFT_DETECTED, touched, fin, pc')"
  shows "pc_start_addr pc' = 0 \<and> pc_end_addr pc' = kMaxAddress \<and> touched = []"
  using assms
  by (auto simp: scan_chain_def go_async_def split: option.splits prod.splits if_splits)


section \<open>Full scan\<close>

text \<open>
  The header that a full scan reads at an address of a page; a page is zeroed before use, so
  where nothing was written it is null.
\<close>

definition header_at :: "log_mem \<Rightarrow> address \<Rightarrow> record_info" where
  "header_at m a = (case lm_headers m a of None \<Rightarrow> 0 | Some h \<Rightarrow> h)"

text \<open>The loop over one page, with the records touched so far.\<close>

partial_function (option) page_scan_loop :: "(address \<Rightarrow> bool) \<Rightarrow> log_mem \<Rightarrow> address \<Rightarrow> address \<Rightarrow>
    address \<Rightarrow> address list \<Rightarrow> address list option" where
  "page_scan_loop check m start_address to_address addr touched =
     (if addr \<le> to_address
      then let header = header_at m addr in
        if ri_IsNull header
        then page_scan_loop check m start_address to_address (addr_add addr sizeof_RecordInfo) touched
        else if addr < start_address
        then page_scan_loop check m start_address to_address (addr_add addr (ucast (record_size header))) touched
        else page_scan_loop check m start_address to_address (addr_add addr (ucast (record_size header)))
               (if \<not> ri_invalid header \<and> check addr then touched @ [addr] else touched)
      else Some touched)"

declare page_scan_loop.simps [code]

text \<open>
  The loop over the pages. A refresh between two pages may move the head and the beginning of
  the log: \<open>head_of n\<close> and \<open>begin_of n\<close> are the addresses that the \<open>n\<close>-th page of the scan finds.
  The result is the page it stopped at, with whether it finished the log in memory.
\<close>

partial_function (option) full_scan_loop :: "(address \<Rightarrow> bool) \<Rightarrow> log_mem \<Rightarrow> (nat \<Rightarrow> address) \<Rightarrow> (nat \<Rightarrow> address) \<Rightarrow>
    address \<Rightarrow> nat \<Rightarrow> u32 \<Rightarrow> address \<Rightarrow> address list \<Rightarrow> (bool \<times> u32 \<times> address list) option" where
  "full_scan_loop check m head_of begin_of start_address n current_page to_address touched =
     (if current_page < addr_page (head_of n) then Some (False, current_page, touched)
      else case page_scan_loop check m start_address to_address (Address current_page 0) touched of
             None \<Rightarrow> None
           | Some touched \<Rightarrow>
               if current_page = addr_page start_address \<or> current_page = addr_page (begin_of n)
               then Some (True, current_page, touched)
               else full_scan_loop check m head_of begin_of start_address (Suc n) (current_page - 1)
                      (Address (current_page - 1) kMaxOffset) touched)"

declare full_scan_loop.simps [code]

definition InternalFullScan :: "(address \<Rightarrow> bool) \<Rightarrow> log_mem \<Rightarrow> (nat \<Rightarrow> address) \<Rightarrow> (nat \<Rightarrow> address) \<Rightarrow>
    address \<Rightarrow> phase \<Rightarrow> u32 \<Rightarrow> u64 \<Rightarrow> u64 \<Rightarrow> pending_context \<Rightarrow> scan_result option" where
  "InternalFullScan check m head_of begin_of tail_address ph version begin_addr end_addr pc =
     (let to_address = if end_addr < tail_address then end_addr else tail_address in
      case full_scan_loop check m head_of begin_of begin_addr 0 (addr_page to_address) to_address [] of
        None \<Rightarrow> None
      | Some (True, _, touched) \<Rightarrow> Some (SUCCESS, touched, True, pc)
      | Some (False, current_page, touched) \<Rightarrow>
          Some (SCAN_IN_PROGRESS, touched, False,
                go_async ph version (Address current_page 0) begin_addr end_addr pc))"

text \<open>
  What a page holds from an address on: records one after the other by their sizes, with null
  words in between.
\<close>

inductive laid_out :: "log_mem \<Rightarrow> address \<Rightarrow> address \<Rightarrow> address list \<Rightarrow> bool" for m to_address where
  past: "to_address < a \<Longrightarrow> laid_out m to_address a []"
| null: "a \<le> to_address \<Longrightarrow> ri_IsNull (header_at m a) \<Longrightarrow> laid_out m to_address (addr_add a sizeof_RecordInfo) rs \<Longrightarrow>
    laid_out m to_address a rs"
| stored: "a \<le> to_address \<Longrightarrow> \<not> ri_IsNull (header_at m a) \<Longrightarrow>
    laid_out m to_address (addr_add a (ucast (record_size (header_at m a)))) rs \<Longrightarrow>
    laid_out m to_address a (a # rs)"

lemma page_scan_laid_out:
  assumes "laid_out m to_address a rs"
  shows "page_scan_loop check m start to_address a acc =
    Some (acc @ filter (\<lambda>r. start \<le> r \<and> \<not> ri_invalid (header_at m r) \<and> check r) rs)"
  using assms
proof (induction arbitrary: acc)
  case (past a)
  then show ?case by (subst page_scan_loop.simps) (simp add: not_le [symmetric])
next
  case (null a rs)
  then show ?case by (subst page_scan_loop.simps) (simp add: Let_def)
next
  case (stored a rs)
  then show ?case by (subst page_scan_loop.simps) (auto simp: Let_def)
qed

text \<open>A record takes at least its header and less than two pages: the loop goes on by a bounded step.\<close>

lemma record_size_bounds: "8 \<le> unat (record_size h)" "unat (record_size h) < 2 ^ 26"
proof -
  have b: "unat (ri_ptr_cnt h) < 2 ^ 15" "unat (ri_payload_size h) < 2 ^ 25" "unat (ri_optional_size h) < 2 ^ 8"
    using unat_bf_get_less [of 15 0 h] unat_bf_get_less [of 25 15 h] unat_bf_get_less [of 8 40 h]
    by (simp_all add: packed unat_ucast_64_32)
  have o: "unat (ri_optional_size h) < 2 ^ 25" using b(3) by simp
  have s: "unat (record_size h) =
      (8 + 16 * unat (ri_ptr_cnt h) + unat (ri_payload_size h) + unat (ri_optional_size h) + 7) div 8 * 8"
    unfolding record_size_def by (rule unat_Record_size [OF b(1,2) o])
  show "8 \<le> unat (record_size h)" unfolding s by linarith
  show "unat (record_size h) < 2 ^ 26" using b unfolding s by simp
qed

lemma unat_step:
  assumes "unat a \<le> 2 ^ 48" "8 \<le> unat d" "unat d < 2 ^ 26"
  shows "unat (a + d :: u64) = unat a + unat d"
  by (rule unat_add_lem [THEN iffD1]) (use assms in simp)

lemma laid_out_exists:
  assumes "unat to_address < 2 ^ 48"
  shows "\<exists>rs. laid_out m to_address a rs"
proof (induction "unat to_address + 1 - unat a" arbitrary: a rule: less_induct)
  case less
  show ?case
  proof (cases "a \<le> to_address")
    case False
    then show ?thesis by (auto intro: past simp: not_le)
  next
    case True
    define d where "d = (if ri_IsNull (header_at m a) then sizeof_RecordInfo else ucast (record_size (header_at m a)) :: u64)"
    have d: "8 \<le> unat d" "unat d < 2 ^ 26"
      using record_size_bounds [of "header_at m a"]
      by (auto simp: d_def sizeof_RecordInfo_def unat_ucast_32_64)
    have le: "unat a \<le> unat to_address" using True by (simp add: word_le_nat_alt)
    then have "unat (a + d) = unat a + unat d" using assms d by (intro unat_step) simp_all
    then have "unat to_address + 1 - unat (addr_add a d) < unat to_address + 1 - unat a"
      using d le by (simp add: addr_add_def)
    then obtain rs where "laid_out m to_address (addr_add a d) rs" using less.hyps by blast
    then show ?thesis using True by (cases "ri_IsNull (header_at m a)") (auto simp: d_def intro: null stored)
  qed
qed

text \<open>
  C8: the scan of a page always ends, and touches exactly the valid records of the page, up to
  the end address, that start at or after the start address and satisfy the predicate, in
  the order of the log.
\<close>

theorem page_scan_complete:
  assumes "unat to_address < 2 ^ 48"
  shows "\<exists>rs. laid_out m to_address a rs \<and>
    page_scan_loop check m start_address to_address a [] =
      Some (filter (\<lambda>r. start_address \<le> r \<and> \<not> ri_invalid (header_at m r) \<and> check r) rs)"
  using laid_out_exists [OF assms, of m a] page_scan_laid_out [of m to_address a _ check start_address "[]"] by auto


section \<open>Runs\<close>

definition demo_header :: record_info where "demo_header = RecordInfo 1 True False False 1 8 0"

definition demo_mem :: log_mem where
  "demo_mem = \<lparr>lm_kpts = [72 \<mapsto> KeyPointer_inline 0 1 3 1, 104 \<mapsto> KeyPointer_inline 0 72 3 1],
     lm_headers = [64 \<mapsto> demo_header, 96 \<mapsto> demo_header]\<rparr>"

definition demo_index :: hash_index where
  "demo_index = \<lparr>hi_table = (HashTable_Initialize 1 InternalHashTable)
      \<lparr>ht_buckets := [(HashBucket :: hash_bucket)\<lparr>hb_entries := HashBucketEntry 104 (kh_tag 5) False # tl (hb_entries HashBucket)\<rparr>]\<rparr>,
     hi_ofb = Malloc_reset HashBucket (\<lambda>_. [])\<rparr>"

definition demo_check :: "address \<Rightarrow> key_pointer \<Rightarrow> bool" where
  "demo_check a kpt \<longleftrightarrow> kpt_inline_psf_id (kp_value kpt) = 3"

lemma demo_pointers:
  "kpt_ptr_offset (kp_control (KeyPointer_inline 0 72 3 1)) = 0"
  "kpt_ptr_offset (kp_control (KeyPointer_inline 0 1 3 1)) = 0"
  "kpt_prev_address (kp_control (KeyPointer_inline 0 72 3 1)) = 72"
  "kpt_prev_address (kp_control (KeyPointer_inline 0 1 3 1)) = 1"
  "ri_invalid demo_header = False" "ri_checkpoint_version demo_header = 1"
  by (simp_all add: KeyPointer_inline_def kpt_control_fields demo_header_def RecordInfo_fields)

lemma demo_kpts:
  "kpt_at demo_mem 104 = Some (KeyPointer_inline 0 72 3 1, 96, demo_header)"
  "kpt_at demo_mem 72 = Some (KeyPointer_inline 0 1 3 1, 64, demo_header)"
  by (simp_all add: kpt_at_def demo_mem_def kpt_get_record_def demo_pointers sizeof_RecordInfo_def sizeof_KeyPointer_def)

lemma demo_matches: "matches demo_check demo_mem 104" "matches demo_check demo_mem 72"
  by (simp_all add: matches_def demo_kpts demo_check_def KeyPointer_inline_fields demo_pointers)

lemma demo_entry:
  "FindEntry demo_index 5 = Some (Some (Main 0, 0))"
  "load_entry demo_index (Main 0, 0) = Some (HashBucketEntry 104 (kh_tag 5) False)"
  by code_simp+

lemma demo_chain: "chain_in_memory demo_mem 64 104 [104, 72] 1"
  using demo_kpts demo_pointers(3,4) by (simp add: chain_in_memory_def demo_mem_def)

theorem scan_touches_matches_witness:
  "InternalScan demo_check demo_index demo_mem 5 64 64 REST 1 64 100 (PendingContext Scan) =
     Some (SUCCESS, [64], True, PendingContext Scan)"
  using scan_touches_matches [OF demo_entry, of demo_mem 64 "[104, 72]" 1 REST demo_check 64 1 64 100] demo_chain
  by (simp add: record_of_def demo_kpts demo_matches)

theorem read_finds_newest_witness:
  "InternalRead demo_check demo_index demo_mem 5 64 64 REST 1 (PendingContext Read) =
     Some (SUCCESS, Some 96, PendingContext Read)"
  using read_finds_newest [OF demo_entry, of demo_mem 64 "[104, 72]" 1 REST demo_check 64 1] demo_chain
  by (simp add: record_of_def demo_kpts demo_matches)

theorem scan_shift_forgets_range_witness:
  "case scan_chain demo_check demo_mem 104 64 64 PREPARE 0 80 100 (PendingContext Scan) of
     Some (st, touched, fin, pc') \<Rightarrow> st = CPR_SHIFT_DETECTED \<and> pc_start_addr pc' = 0 \<and> pc_end_addr pc' = kMaxAddress
   | None \<Rightarrow> False"
proof -
  let ?r = "scan_chain demo_check demo_mem 104 64 64 PREPARE 0 80 100 (PendingContext Scan)"
  have "skip_loop demo_mem 100 64 104 = Some 72"
    using skip_loop_chain [OF demo_chain, of 100] by simp
  then have "map_option fst ?r = Some CPR_SHIFT_DETECTED"
    using demo_matches(2) by (simp add: scan_chain_def first_match_def matches_def demo_kpts demo_pointers)
  then obtain touched fin pc' where r: "?r = Some (CPR_SHIFT_DETECTED, touched, fin, pc')" by auto
  from scan_shift_forgets_range [OF r] show ?thesis unfolding r by simp
qed

theorem page_scan_complete_witness:
  "\<exists>rs. laid_out demo_mem 127 64 rs \<and> page_scan_loop (\<lambda>_. True) demo_mem 64 127 64 [] =
      Some (filter (\<lambda>r. 64 \<le> r \<and> \<not> ri_invalid (header_at demo_mem r) \<and> True) rs)"
  using page_scan_complete [of 127 demo_mem 64 "\<lambda>_. True" 64] by simp

end
