(* ===== verification/Ezpsf_Types.thy ===== *)
theory Ezpsf_Types
  imports Prelude
begin

text \<open>
  The data types and operators of the expression language of EzPSF (\<open>jit/datatypes/types.h\<close> and
  the first part of \<open>jit/ast/expr_ast.h\<close>): types and operators are 32-bit codes with flag
  bits, and the predicates on types and the result type of an operator are read off the bits.
\<close>

section \<open>Types\<close>

datatype data_type = STR_T | INT8_T | INT32_T | INT64_T | UINT32_T | UINT64_T | FLOAT_T | DOUBLE_T | BOOL_T | ERROR_T

definition IS_NUM_TYPE :: u32 where "IS_NUM_TYPE = push_bit 10 1"
definition IS_INT_TYPE :: u32 where "IS_INT_TYPE = push_bit 11 1"
definition IS_FLOAT_TYPE :: u32 where "IS_FLOAT_TYPE = push_bit 12 1"
definition UNSIGNED :: u32 where "UNSIGNED = push_bit 13 1"
definition INLINE_ABLE :: u32 where "INLINE_ABLE = push_bit 14 1"

fun dt_code :: "data_type \<Rightarrow> u32" where
  "dt_code STR_T = 0"
| "dt_code INT8_T = 10 OR IS_NUM_TYPE OR INLINE_ABLE"
| "dt_code INT32_T = 20 OR IS_NUM_TYPE OR IS_INT_TYPE OR INLINE_ABLE"
| "dt_code INT64_T = 21 OR IS_NUM_TYPE OR IS_INT_TYPE"
| "dt_code UINT32_T = 30 OR IS_NUM_TYPE OR IS_INT_TYPE OR UNSIGNED OR INLINE_ABLE"
| "dt_code UINT64_T = 31 OR IS_NUM_TYPE OR IS_INT_TYPE OR UNSIGNED"
| "dt_code FLOAT_T = 40 OR IS_NUM_TYPE OR IS_FLOAT_TYPE OR INLINE_ABLE"
| "dt_code DOUBLE_T = 41 OR IS_NUM_TYPE OR IS_FLOAT_TYPE"
| "dt_code BOOL_T = 50 OR INLINE_ABLE"
| "dt_code ERROR_T = 0xffffffff"

definition dt_flag :: "data_type \<Rightarrow> u32 \<Rightarrow> bool" where
  "dt_flag t flag \<longleftrightarrow> dt_code t AND flag \<noteq> 0"

definition isNumType :: "data_type \<Rightarrow> bool" where "isNumType t = dt_flag t IS_NUM_TYPE"
definition isIntType :: "data_type \<Rightarrow> bool" where "isIntType t = dt_flag t IS_INT_TYPE"
definition isFloatType :: "data_type \<Rightarrow> bool" where "isFloatType t = dt_flag t IS_FLOAT_TYPE"
definition isSignedType :: "data_type \<Rightarrow> bool" where "isSignedType t \<longleftrightarrow> \<not> dt_flag t UNSIGNED"
definition canInline :: "data_type \<Rightarrow> bool" where "canInline t = dt_flag t INLINE_ABLE"

fun getName :: "data_type \<Rightarrow> string" where
  "getName STR_T = ''STR_T''"
| "getName INT8_T = ''INT8_T''"
| "getName INT32_T = ''INT32_T''"
| "getName INT64_T = ''INT64_T''"
| "getName UINT32_T = ''UINT32_T''"
| "getName UINT64_T = ''UINT64_T''"
| "getName DOUBLE_T = ''DOUBLE_T''"
| "getName BOOL_T = ''BOOL_T''"
| "getName ERROR_T = ''ERROR_T''"
| "getName FLOAT_T = ''illegal state''"

definition getNullableName :: "data_type \<Rightarrow> string" where
  "getNullableName t = ''NULLABLE_'' @ getName t"

text \<open>The types of LLVM that the compiler uses.\<close>

datatype llvm_type = I1 | I8 | I32 | I64 | Double | StrStruct | Void

fun llvmConvertType :: "data_type \<Rightarrow> llvm_type option" where
  "llvmConvertType STR_T = Some StrStruct"
| "llvmConvertType INT8_T = Some I8"
| "llvmConvertType INT32_T = Some I32"
| "llvmConvertType UINT32_T = Some I32"
| "llvmConvertType INT64_T = Some I64"
| "llvmConvertType UINT64_T = Some I64"
| "llvmConvertType DOUBLE_T = Some Double"
| "llvmConvertType BOOL_T = Some I1"
| "llvmConvertType ERROR_T = Some Void"
| "llvmConvertType FLOAT_T = None"


section \<open>Operators\<close>

datatype operator = Op_ERROR | Op_PRE_MINUS | Op_PRE_NOT
  | Op_MULTI | Op_DIV_INT | Op_DIV_FLOAT | Op_MOD | Op_PLUS | Op_MINUS
  | Op_BIT_AND | Op_BIT_XOR | Op_BIT_OR
  | Op_EQ | Op_NEQ | Op_LT | Op_GT | Op_LT_EQ | Op_GT_EQ | Op_AND | Op_OR | Op_BAR

definition F_SAME :: u32 where "F_SAME = push_bit 10 1"
definition F_BOOL :: u32 where "F_BOOL = push_bit 11 1"
definition F_INT :: u32 where "F_INT = push_bit 12 1"
definition F_DOUBLE :: u32 where "F_DOUBLE = push_bit 13 1"
definition F_DOUBLE_IF :: u32 where "F_DOUBLE_IF = push_bit 14 1"
definition F_STRING_IF :: u32 where "F_STRING_IF = push_bit 15 1"

fun op_code :: "operator \<Rightarrow> u32" where
  "op_code Op_ERROR = 0xffffffff"
| "op_code Op_PRE_MINUS = 0 OR F_SAME"
| "op_code Op_PRE_NOT = 1 OR F_BOOL"
| "op_code Op_MULTI = 10 OR F_DOUBLE_IF"
| "op_code Op_DIV_INT = 11 OR F_INT"
| "op_code Op_DIV_FLOAT = 12 OR F_DOUBLE"
| "op_code Op_MOD = 13 OR F_INT"
| "op_code Op_PLUS = 20 OR F_STRING_IF"
| "op_code Op_MINUS = 21 OR F_DOUBLE_IF"
| "op_code Op_BIT_AND = 30 OR F_INT"
| "op_code Op_BIT_XOR = 31 OR F_INT"
| "op_code Op_BIT_OR = 32 OR F_INT"
| "op_code Op_EQ = 40 OR F_BOOL"
| "op_code Op_NEQ = 41 OR F_BOOL"
| "op_code Op_LT = 42 OR F_BOOL"
| "op_code Op_GT = 43 OR F_BOOL"
| "op_code Op_LT_EQ = 44 OR F_BOOL"
| "op_code Op_GT_EQ = 45 OR F_BOOL"
| "op_code Op_AND = 50 OR F_BOOL"
| "op_code Op_OR = 51 OR F_BOOL"
| "op_code Op_BAR = 60 OR F_INT"

definition getReturnType :: "operator \<Rightarrow> u32" where
  "getReturnType op = op_code op AND (F_SAME OR F_BOOL OR F_INT OR F_DOUBLE OR F_DOUBLE_IF OR F_STRING_IF)"

text \<open>The cases of the switch fall through from \<open>STRING_IF\<close> to \<open>DOUBLE_IF\<close> to \<open>INT\<close>.\<close>

definition fromOp :: "data_type \<Rightarrow> data_type \<Rightarrow> operator \<Rightarrow> data_type" where
  "fromOp t1 t2 op =
     (let r = getReturnType op;
          int_case = if t1 = INT64_T \<or> t2 = INT64_T then INT64_T else INT32_T;
          double_if = if t1 = DOUBLE_T \<or> t2 = DOUBLE_T then DOUBLE_T else int_case;
          string_if = if t1 = STR_T \<or> t2 = STR_T then STR_T else double_if
      in if r = F_SAME then t1
         else if r = F_BOOL then BOOL_T
         else if r = F_DOUBLE then DOUBLE_T
         else if r = F_STRING_IF then string_if
         else if r = F_DOUBLE_IF then double_if
         else if r = F_INT then int_case
         else ERROR_T)"


section \<open>Tables\<close>

lemmas dt_defs = isNumType_def isIntType_def isFloatType_def isSignedType_def canInline_def dt_flag_def
  IS_NUM_TYPE_def IS_INT_TYPE_def IS_FLOAT_TYPE_def UNSIGNED_def INLINE_ABLE_def

lemma isNumType_simps [simp]:
  "\<not> isNumType STR_T" "isNumType INT8_T" "isNumType INT32_T" "isNumType INT64_T" "isNumType UINT32_T"
  "isNumType UINT64_T" "isNumType FLOAT_T" "isNumType DOUBLE_T" "\<not> isNumType BOOL_T" "isNumType ERROR_T"
  by (simp_all add: dt_defs)

lemma isIntType_simps [simp]:
  "\<not> isIntType STR_T" "\<not> isIntType INT8_T" "isIntType INT32_T" "isIntType INT64_T" "isIntType UINT32_T"
  "isIntType UINT64_T" "\<not> isIntType FLOAT_T" "\<not> isIntType DOUBLE_T" "\<not> isIntType BOOL_T" "isIntType ERROR_T"
  by (simp_all add: dt_defs)

lemma isFloatType_simps [simp]:
  "\<not> isFloatType STR_T" "\<not> isFloatType INT8_T" "\<not> isFloatType INT32_T" "\<not> isFloatType INT64_T"
  "\<not> isFloatType UINT32_T" "\<not> isFloatType UINT64_T" "isFloatType FLOAT_T" "isFloatType DOUBLE_T"
  "\<not> isFloatType BOOL_T" "isFloatType ERROR_T"
  by (simp_all add: dt_defs)

lemma isSignedType_simps [simp]:
  "isSignedType INT32_T" "isSignedType INT64_T" "\<not> isSignedType UINT32_T" "\<not> isSignedType UINT64_T"
  "isSignedType DOUBLE_T" "\<not> isSignedType ERROR_T"
  by (simp_all add: dt_defs)

lemma canInline_simps [simp]:
  "\<not> canInline STR_T" "canInline INT8_T" "canInline INT32_T" "\<not> canInline INT64_T" "canInline UINT32_T"
  "\<not> canInline UINT64_T" "canInline FLOAT_T" "\<not> canInline DOUBLE_T" "canInline BOOL_T" "canInline ERROR_T"
  by (simp_all add: dt_defs)

lemmas flag_defs = F_SAME_def F_BOOL_def F_INT_def F_DOUBLE_def F_DOUBLE_IF_def F_STRING_IF_def

lemma getReturnType_simps:
  "getReturnType Op_PRE_MINUS = F_SAME" "getReturnType Op_PRE_NOT = F_BOOL" "getReturnType Op_MULTI = F_DOUBLE_IF"
  "getReturnType Op_DIV_INT = F_INT" "getReturnType Op_DIV_FLOAT = F_DOUBLE" "getReturnType Op_MOD = F_INT"
  "getReturnType Op_PLUS = F_STRING_IF" "getReturnType Op_MINUS = F_DOUBLE_IF" "getReturnType Op_BIT_AND = F_INT"
  "getReturnType Op_BIT_XOR = F_INT" "getReturnType Op_BIT_OR = F_INT" "getReturnType Op_EQ = F_BOOL"
  "getReturnType Op_NEQ = F_BOOL" "getReturnType Op_LT = F_BOOL" "getReturnType Op_GT = F_BOOL"
  "getReturnType Op_LT_EQ = F_BOOL" "getReturnType Op_GT_EQ = F_BOOL" "getReturnType Op_AND = F_BOOL"
  "getReturnType Op_OR = F_BOOL" "getReturnType Op_BAR = F_INT"
  by (simp_all add: getReturnType_def flag_defs)

lemma flags_distinct:
  "F_SAME \<noteq> F_BOOL" "F_SAME \<noteq> F_INT" "F_SAME \<noteq> F_DOUBLE" "F_SAME \<noteq> F_DOUBLE_IF" "F_SAME \<noteq> F_STRING_IF"
  "F_BOOL \<noteq> F_SAME" "F_BOOL \<noteq> F_INT" "F_BOOL \<noteq> F_DOUBLE" "F_BOOL \<noteq> F_DOUBLE_IF" "F_BOOL \<noteq> F_STRING_IF"
  "F_INT \<noteq> F_SAME" "F_INT \<noteq> F_BOOL" "F_INT \<noteq> F_DOUBLE" "F_INT \<noteq> F_DOUBLE_IF" "F_INT \<noteq> F_STRING_IF"
  "F_DOUBLE \<noteq> F_SAME" "F_DOUBLE \<noteq> F_BOOL" "F_DOUBLE \<noteq> F_INT" "F_DOUBLE \<noteq> F_DOUBLE_IF" "F_DOUBLE \<noteq> F_STRING_IF"
  "F_DOUBLE_IF \<noteq> F_SAME" "F_DOUBLE_IF \<noteq> F_BOOL" "F_DOUBLE_IF \<noteq> F_INT" "F_DOUBLE_IF \<noteq> F_DOUBLE" "F_DOUBLE_IF \<noteq> F_STRING_IF"
  "F_STRING_IF \<noteq> F_SAME" "F_STRING_IF \<noteq> F_BOOL" "F_STRING_IF \<noteq> F_INT" "F_STRING_IF \<noteq> F_DOUBLE" "F_STRING_IF \<noteq> F_DOUBLE_IF"
  by (simp_all add: flag_defs)

text \<open>The result type of each operator, with \<open>wide\<close> the integer type and \<open>arith\<close> the numeric type.\<close>

definition wide :: "data_type \<Rightarrow> data_type \<Rightarrow> data_type" where
  "wide t1 t2 = (if t1 = INT64_T \<or> t2 = INT64_T then INT64_T else INT32_T)"

definition arith :: "data_type \<Rightarrow> data_type \<Rightarrow> data_type" where
  "arith t1 t2 = (if t1 = DOUBLE_T \<or> t2 = DOUBLE_T then DOUBLE_T else wide t1 t2)"

lemma fromOp_simps [simp]:
  "fromOp t1 t2 Op_PRE_MINUS = t1" "fromOp t1 t2 Op_PRE_NOT = BOOL_T" "fromOp t1 t2 Op_MULTI = arith t1 t2"
  "fromOp t1 t2 Op_DIV_INT = wide t1 t2" "fromOp t1 t2 Op_DIV_FLOAT = DOUBLE_T" "fromOp t1 t2 Op_MOD = wide t1 t2"
  "fromOp t1 t2 Op_PLUS = (if t1 = STR_T \<or> t2 = STR_T then STR_T else arith t1 t2)"
  "fromOp t1 t2 Op_MINUS = arith t1 t2" "fromOp t1 t2 Op_BIT_AND = wide t1 t2"
  "fromOp t1 t2 Op_BIT_XOR = wide t1 t2" "fromOp t1 t2 Op_BIT_OR = wide t1 t2" "fromOp t1 t2 Op_EQ = BOOL_T"
  "fromOp t1 t2 Op_NEQ = BOOL_T" "fromOp t1 t2 Op_LT = BOOL_T" "fromOp t1 t2 Op_GT = BOOL_T"
  "fromOp t1 t2 Op_LT_EQ = BOOL_T" "fromOp t1 t2 Op_GT_EQ = BOOL_T" "fromOp t1 t2 Op_AND = BOOL_T"
  "fromOp t1 t2 Op_OR = BOOL_T" "fromOp t1 t2 Op_BAR = wide t1 t2"
  by (simp_all only: fromOp_def getReturnType_simps wide_def arith_def Let_def flags_distinct if_True if_False simp_thms)

end
