(* ===== verification/Ezpsf_Code.thy ===== *)
theory Ezpsf_Code
  imports Ezpsf_Types
begin

text \<open>
  The compiler of EzPSF: the expression trees of \<open>jit/ast/lit_ast.h\<close>, \<open>json_ast.h\<close> and
  \<open>expr_ast.h\<close> with their types, the LLVM values they generate, and the functions that
  \<open>psf_ast.h\<close> builds around them. A value that the IR builder returns is a tree of the builder
  calls that made it; the state has the basic blocks (with their calls, stores and
  terminators), the insertion point, the values of the field references and the number of
  messages printed: the macros \<open>LOG\<close> and \<open>ASSERT\<close> only print. A null pointer is None inside the
  result; a builder call on a null pointer is undefined, and the whole result is then None.
\<close>

section \<open>Expressions\<close>

datatype expr_ast =
    LitInt8Ast int
  | LitInt32Ast int
  | LitInt64Ast int
  | LitDoubleAst u64
  | LitBoolAst bool
  | LitStringAst string
  | JsonRefAst nat string data_type
  | BinaryOpExprAst expr_ast expr_ast operator
  | UnaryOpExprAst expr_ast operator
  | CastExprAst expr_ast data_type
  | TernaryOpExprAst expr_ast expr_ast expr_ast
  | ShortCircuitOpExprAst expr_ast expr_ast operator

text \<open>A double literal is its bit pattern; a field reference has its position in \<open>used_ids\<close>.\<close>

primrec ast_type :: "expr_ast \<Rightarrow> data_type" where
  "ast_type (LitInt8Ast v) = INT8_T"
| "ast_type (LitInt32Ast v) = INT32_T"
| "ast_type (LitInt64Ast v) = INT64_T"
| "ast_type (LitDoubleAst v) = DOUBLE_T"
| "ast_type (LitBoolAst v) = BOOL_T"
| "ast_type (LitStringAst v) = STR_T"
| "ast_type (JsonRefAst i json t) = t"
| "ast_type (BinaryOpExprAst left right op) = fromOp (ast_type left) (ast_type right) op"
| "ast_type (UnaryOpExprAst expr op) = fromOp (ast_type expr) ERROR_T op"
| "ast_type (CastExprAst expr t) = t"
| "ast_type (TernaryOpExprAst bool_expr true_expr false_expr) = ast_type true_expr"
| "ast_type (ShortCircuitOpExprAst first_expr second_expr op) = BOOL_T"


section \<open>LLVM values\<close>

datatype llvm_binop = LAdd | LFAdd | LSub | LFSub | LMul | LFMul | LSDiv | LUDiv | LFDiv | LSRem | LAnd | LXor | LOr
datatype llvm_cmp = CEQ | CNE | CLT | CGT | CLE | CGE
datatype llvm_cast = SIToFP | UIToFP | FPToSI | FPToUI | IntCast bool | FPCast

datatype llvm_value =
    ConstInt llvm_type int
  | ConstFP u64
  | ConstStr string
  | FieldValue nat llvm_type
  | HasValue nat
  | BinOp llvm_binop llvm_value llvm_value
  | ICmp llvm_cmp llvm_value llvm_value
  | FCmp llvm_cmp llvm_value llvm_value
  | CastTo llvm_cast llvm_value llvm_type
  | LNeg llvm_value
  | LFNeg llvm_value
  | LNot llvm_value
  | StrLen llvm_value
  | CallStrCmp "llvm_value list"
  | Phi llvm_type llvm_value nat llvm_value nat

datatype llvm_inst =
    CallGet nat data_type
  | Store llvm_value
  | Ret llvm_value
  | CondBr llvm_value nat nat
  | Br nat

record gen_state =
  gs_blocks :: "llvm_inst list list"
  gs_cur :: nat
  gs_values :: "nat \<rightharpoonup> llvm_value"
  gs_log :: nat

type_synonym generated = "(llvm_value option \<times> gen_state) option"

definition log_msg :: "gen_state \<Rightarrow> gen_state" where
  "log_msg s = s\<lparr>gs_log := gs_log s + 1\<rparr>"

definition assert_msg :: "bool \<Rightarrow> gen_state \<Rightarrow> gen_state" where
  "assert_msg b s = (if b then s else log_msg s)"

definition CreateBlock :: "gen_state \<Rightarrow> nat \<times> gen_state" where
  "CreateBlock s = (length (gs_blocks s), s\<lparr>gs_blocks := gs_blocks s @ [[]]\<rparr>)"

definition SetInsertPoint :: "nat \<Rightarrow> gen_state \<Rightarrow> gen_state" where
  "SetInsertPoint b s = s\<lparr>gs_cur := b\<rparr>"

definition emit :: "llvm_inst \<Rightarrow> gen_state \<Rightarrow> gen_state" where
  "emit i s = s\<lparr>gs_blocks := (gs_blocks s)[gs_cur s := gs_blocks s ! gs_cur s @ [i]]\<rparr>"

definition build1 :: "(llvm_value \<Rightarrow> llvm_value) \<Rightarrow> llvm_value option \<Rightarrow> gen_state \<Rightarrow> generated" where
  "build1 f v s = map_option (\<lambda>v. (Some (f v), s)) v"

definition build2 :: "(llvm_value \<Rightarrow> llvm_value \<Rightarrow> llvm_value) \<Rightarrow> llvm_value option \<Rightarrow> llvm_value option \<Rightarrow>
    gen_state \<Rightarrow> generated" where
  "build2 f v w s = (case v of None \<Rightarrow> None | Some v \<Rightarrow> map_option (\<lambda>w. (Some (f v w), s)) w)"

definition emit_with :: "(llvm_value \<Rightarrow> llvm_inst) \<Rightarrow> llvm_value option \<Rightarrow> gen_state \<Rightarrow> gen_state option" where
  "emit_with f v s = map_option (\<lambda>v. emit (f v) s) v"


section \<open>Casts\<close>

definition cast_to :: "llvm_cast \<Rightarrow> llvm_value option \<Rightarrow> data_type \<Rightarrow> gen_state \<Rightarrow> generated" where
  "cast_to c v target s = (case llvmConvertType target of
     None \<Rightarrow> None
   | Some ty \<Rightarrow> build1 (\<lambda>v. CastTo c v ty) v s)"

definition castToTarget :: "llvm_value option \<Rightarrow> data_type \<Rightarrow> data_type \<Rightarrow> gen_state \<Rightarrow> generated" where
  "castToTarget v current target s =
     (if current = target then Some (v, s)
      else if isIntType current \<and> isFloatType target
      then cast_to (if isSignedType current then SIToFP else UIToFP) v target s
      else if isFloatType current \<and> isIntType target
      then cast_to (if isSignedType target then FPToSI else FPToUI) v target s
      else if isIntType current \<and> isIntType target then cast_to (IntCast (isSignedType target)) v target s
      else if isFloatType current \<and> isFloatType target then cast_to FPCast v target (log_msg s)
      else Some (None, log_msg s))"


section \<open>Operators\<close>

text \<open>The macros \<open>builderCreateFI\<close> and \<open>builderCreateCmp\<close>.\<close>

definition builderCreateFI :: "llvm_binop \<Rightarrow> llvm_binop \<Rightarrow> data_type \<Rightarrow> data_type \<Rightarrow> data_type \<Rightarrow>
    llvm_value option \<Rightarrow> llvm_value option \<Rightarrow> gen_state \<Rightarrow> generated" where
  "builderCreateFI iop fop lt rt return_type v w s =
     (let s = assert_msg (isNumType lt \<and> isNumType rt) s in
      build2 (BinOp (if isIntType return_type then iop else fop)) v w s)"

definition builderCreateCmp :: "llvm_cmp \<Rightarrow> data_type \<Rightarrow> data_type \<Rightarrow> data_type \<Rightarrow>
    llvm_value option \<Rightarrow> llvm_value option \<Rightarrow> gen_state \<Rightarrow> generated" where
  "builderCreateCmp cmp lt rt args_type v w s =
     (let s = assert_msg (isNumType lt \<and> isNumType rt) s in
      if isIntType args_type then build2 (ICmp cmp) v w s else build2 (FCmp cmp) v w s)"

definition string_cmp :: "llvm_cmp \<Rightarrow> llvm_value option \<Rightarrow> llvm_value option \<Rightarrow> gen_state \<Rightarrow> generated" where
  "string_cmp cmp = build2 (\<lambda>v w. ICmp cmp (CallStrCmp [v, w]) (ConstInt I32 0))"

definition bit_op :: "llvm_binop \<Rightarrow> data_type \<Rightarrow> data_type \<Rightarrow> llvm_value option \<Rightarrow> llvm_value option \<Rightarrow>
    gen_state \<Rightarrow> generated" where
  "bit_op b lt rt v w s = build2 (BinOp b) v w (assert_msg (isIntType lt \<and> isIntType rt) s)"

fun operator_code :: "operator \<Rightarrow> data_type \<Rightarrow> data_type \<Rightarrow> data_type \<Rightarrow> data_type \<Rightarrow>
    llvm_value option \<Rightarrow> llvm_value option \<Rightarrow> gen_state \<Rightarrow> generated" where
  "operator_code Op_MULTI lt rt return_type args_type v w s = builderCreateFI LMul LFMul lt rt return_type v w s"
| "operator_code Op_DIV_INT lt rt return_type args_type v w s =
     build2 (BinOp (if isSignedType return_type then LSDiv else LUDiv)) v w
       (assert_msg (isNumType lt \<and> isNumType rt) s)"
| "operator_code Op_DIV_FLOAT lt rt return_type args_type v w s =
     build2 (BinOp LFDiv) v w (assert_msg (isNumType lt \<and> isNumType rt) s)"
| "operator_code Op_MOD lt rt return_type args_type v w s =
     build2 (BinOp LSRem) v w (assert_msg (isSignedType return_type) (assert_msg (isNumType lt \<and> isNumType rt) s))"
| "operator_code Op_PLUS lt rt return_type args_type v w s = builderCreateFI LAdd LFAdd lt rt return_type v w s"
| "operator_code Op_MINUS lt rt return_type args_type v w s = builderCreateFI LSub LFSub lt rt return_type v w s"
| "operator_code Op_EQ lt rt return_type args_type v w s =
     (if lt = STR_T then string_cmp CEQ v w s
      else let s = assert_msg (isNumType lt \<and> isNumType rt) s in
        if isIntType lt then build2 (ICmp CEQ) v w s else build2 (FCmp CEQ) v w s)"
| "operator_code Op_NEQ lt rt return_type args_type v w s =
     (let s = assert_msg (isNumType lt \<and> isNumType rt) s in
      if lt = STR_T then string_cmp CNE v w s
      else if isIntType lt then build2 (ICmp CNE) v w s else build2 (FCmp CNE) v w s)"
| "operator_code Op_LT lt rt return_type args_type v w s = builderCreateCmp CLT lt rt args_type v w s"
| "operator_code Op_GT lt rt return_type args_type v w s = builderCreateCmp CGT lt rt args_type v w s"
| "operator_code Op_LT_EQ lt rt return_type args_type v w s = builderCreateCmp CLE lt rt args_type v w s"
| "operator_code Op_GT_EQ lt rt return_type args_type v w s = builderCreateCmp CGE lt rt args_type v w s"
| "operator_code Op_BIT_AND lt rt return_type args_type v w s = bit_op LAnd lt rt v w s"
| "operator_code Op_BIT_XOR lt rt return_type args_type v w s = bit_op LXor lt rt v w s"
| "operator_code Op_BIT_OR lt rt return_type args_type v w s = bit_op LOr lt rt v w s"
| "operator_code _ lt rt return_type args_type v w s = Some (None, log_msg s)"

text \<open>The type to which both operands are cast, or None when the return type has none.\<close>

definition args_type_of :: "data_type \<Rightarrow> data_type \<Rightarrow> data_type \<Rightarrow> data_type option" where
  "args_type_of lt rt return_type = (case return_type of
     INT32_T \<Rightarrow> Some INT32_T
   | INT64_T \<Rightarrow> Some INT64_T
   | BOOL_T \<Rightarrow> Some (fromOp lt rt Op_PLUS)
   | DOUBLE_T \<Rightarrow> Some DOUBLE_T
   | _ \<Rightarrow> None)"

definition binary_code :: "operator \<Rightarrow> data_type \<Rightarrow> data_type \<Rightarrow> llvm_value option \<Rightarrow> llvm_value option \<Rightarrow>
    gen_state \<Rightarrow> generated" where
  "binary_code op lt rt v w s =
     (if v = None \<or> w = None then Some (None, log_msg s)
      else let return_type = fromOp lt rt op in
        case args_type_of lt rt return_type of
          None \<Rightarrow> Some (None, log_msg s)
        | Some args_type \<Rightarrow>
            (case castToTarget v lt args_type s of
               None \<Rightarrow> None
             | Some (v, s) \<Rightarrow>
                 (case castToTarget w rt args_type s of
                    None \<Rightarrow> None
                  | Some (w, s) \<Rightarrow> operator_code op lt rt return_type args_type v w s)))"

definition phi_code :: "data_type \<Rightarrow> llvm_value option \<Rightarrow> nat \<Rightarrow> llvm_value option \<Rightarrow> nat \<Rightarrow> gen_state \<Rightarrow> generated" where
  "phi_code t v b w c s = (case llvmConvertType t of
     None \<Rightarrow> None
   | Some ty \<Rightarrow> build2 (\<lambda>v w. Phi ty v b w c) v w s)"

primrec code :: "expr_ast \<Rightarrow> gen_state \<Rightarrow> generated" where
  "code (LitInt8Ast v) s = Some (Some (ConstInt I8 v), s)"
| "code (LitInt32Ast v) s = Some (Some (ConstInt I32 v), s)"
| "code (LitInt64Ast v) s = Some (Some (ConstInt I64 v), s)"
| "code (LitDoubleAst v) s = Some (Some (ConstFP v), s)"
| "code (LitBoolAst v) s = Some (Some (ConstInt I1 (of_bool v)), s)"
| "code (LitStringAst v) s = Some (Some (ConstStr v), s)"
| "code (JsonRefAst i json t) s =
     (case gs_values s i of None \<Rightarrow> Some (None, log_msg s) | Some v \<Rightarrow> Some (Some v, s))"
| "code (BinaryOpExprAst left right op) s =
     (case code left s of
        None \<Rightarrow> None
      | Some (v, s) \<Rightarrow>
          (case code right s of
             None \<Rightarrow> None
           | Some (w, s) \<Rightarrow> binary_code op (ast_type left) (ast_type right) v w s))"
| "code (UnaryOpExprAst expr op) s =
     (case op of
        Op_BAR \<Rightarrow>
          (case code expr (assert_msg (ast_type expr = STR_T) s) of
             None \<Rightarrow> None | Some (v, s) \<Rightarrow> build1 StrLen v s)
      | Op_PRE_MINUS \<Rightarrow>
          (case code expr (assert_msg (isNumType (ast_type expr)) s) of
             None \<Rightarrow> None
           | Some (v, s) \<Rightarrow> build1 (if isIntType (ast_type expr) then LNeg else LFNeg) v s)
      | Op_PRE_NOT \<Rightarrow>
          (case code expr (assert_msg (ast_type expr = BOOL_T) s) of
             None \<Rightarrow> None | Some (v, s) \<Rightarrow> build1 LNot v s)
      | _ \<Rightarrow> Some (None, log_msg s))"
| "code (CastExprAst expr t) s =
     (case code expr s of None \<Rightarrow> None | Some (v, s) \<Rightarrow> castToTarget v (ast_type expr) t s)"
| "code (TernaryOpExprAst bool_expr true_expr false_expr) s =
     (case code bool_expr s of
        None \<Rightarrow> None
      | Some (c, s) \<Rightarrow>
          let (bb_true, s) = CreateBlock s; (bb_false, s) = CreateBlock s; (bb_merge, s) = CreateBlock s in
          (case emit_with (\<lambda>c. CondBr c bb_true bb_false) c s of
             None \<Rightarrow> None
           | Some s \<Rightarrow>
               (case code true_expr (SetInsertPoint bb_true s) of
                  None \<Rightarrow> None
                | Some (v, s) \<Rightarrow>
                    (case code false_expr (SetInsertPoint bb_false (emit (Br bb_merge) s)) of
                       None \<Rightarrow> None
                     | Some (w, s) \<Rightarrow>
                         phi_code (ast_type true_expr) v bb_true w bb_false
                           (SetInsertPoint bb_merge (emit (Br bb_merge) s))))))"
| "code (ShortCircuitOpExprAst first_expr second_expr op) s =
     (case code first_expr s of
        None \<Rightarrow> None
      | Some (v, s) \<Rightarrow>
          let bb_try_fir = gs_cur s; (bb_try_sec, s) = CreateBlock s; (bb_merge, s) = CreateBlock s in
          (if op \<noteq> Op_AND \<and> op \<noteq> Op_OR then Some (None, log_msg s)
           else case emit_with (\<lambda>v. if op = Op_AND then CondBr v bb_try_sec bb_merge
                                    else CondBr v bb_merge bb_try_sec) v s of
                  None \<Rightarrow> None
                | Some s \<Rightarrow>
                    (case code second_expr (SetInsertPoint bb_try_sec s) of
                       None \<Rightarrow> None
                     | Some (w, s) \<Rightarrow>
                         phi_code BOOL_T v bb_try_fir w bb_try_sec
                           (SetInsertPoint bb_merge (emit (Br bb_merge) s)))))"


section \<open>Functions\<close>

text \<open>The extraction functions and nullable structures that \<open>EzPsfInit\<close> and \<open>conversion.h\<close> provide.\<close>

fun getFieldFunc :: "data_type \<Rightarrow> string option" where
  "getFieldFunc STR_T = Some ''@__STRING_CONV_GET''"
| "getFieldFunc INT32_T = Some ''@__INT32_CONV_GET''"
| "getFieldFunc INT64_T = Some ''@__INT64_CONV_GET''"
| "getFieldFunc DOUBLE_T = Some ''@__DOUBLE_CONV_GET''"
| "getFieldFunc BOOL_T = Some ''@__BOOL_CONV_GET''"
| "getFieldFunc _ = None"

definition nullable_structs :: "data_type list" where
  "nullable_structs = [BOOL_T, INT32_T, INT64_T, DOUBLE_T, STR_T]"

definition str_cmp_params :: "data_type list" where "str_cmp_params = [STR_T]"

record psf_function_ast =
  pf_name :: string
  pf_return_type :: data_type
  pf_default_value :: "expr_ast option"
  pf_ret :: expr_ast

definition PsfFunctionAst_create :: "string \<Rightarrow> expr_ast option \<Rightarrow> expr_ast \<Rightarrow> nat \<Rightarrow> psf_function_ast \<times> nat" where
  "PsfFunctionAst_create name default_value ret log =
     (\<lparr>pf_name = name, pf_return_type = ast_type ret, pf_default_value = default_value, pf_ret = ret\<rparr>,
      case default_value of
        Some d \<Rightarrow> if ast_type d = ast_type ret then log else log + 1
      | None \<Rightarrow> log)"

definition returnIsNullable :: "psf_function_ast \<Rightarrow> bool" where
  "returnIsNullable p \<longleftrightarrow> pf_default_value p = None"

text \<open>
  The checks of the fields, in the order of \<open>used_ids\<close>; the first component is the block in which
  the next check would go on. None is a missing extraction function or structure.
\<close>

fun field_checks :: "nat \<Rightarrow> (nat \<times> string \<times> data_type) list \<Rightarrow> nat \<Rightarrow> gen_state \<Rightarrow> (nat \<times> gen_state) option" where
  "field_checks default_ret [] fall_through s = Some (fall_through, s)"
| "field_checks default_ret ((i, json, t) # ids) fall_through s =
     (if getFieldFunc t = None \<or> t \<notin> set nullable_structs then None
      else case llvmConvertType t of
             None \<Rightarrow> None
           | Some ty \<Rightarrow>
               let s = emit (CallGet i t) s;
                   s = emit (CondBr (HasValue i) fall_through default_ret) s;
                   s = SetInsertPoint fall_through s;
                   s = s\<lparr>gs_values := (gs_values s)(i \<mapsto> FieldValue i ty)\<rparr>;
                   (fall_through, s) = CreateBlock s
               in field_checks default_ret ids fall_through s)"

definition generate :: "psf_function_ast \<Rightarrow> (nat \<times> string \<times> data_type) list \<Rightarrow> (string list \<times> gen_state) option" where
  "generate p used_ids =
     (let s = \<lparr>gs_blocks = [], gs_cur = 0, gs_values = Map.empty, gs_log = 0\<rparr>;
          (func_body, s) = CreateBlock s;
          (default_ret, s) = CreateBlock s;
          s = SetInsertPoint default_ret s
      in case (case pf_default_value p of
                 None \<Rightarrow> Some (emit (Ret (ConstInt I1 0)) s)
               | Some d \<Rightarrow>
                   (case code d s of
                      None \<Rightarrow> None
                    | Some (v, s) \<Rightarrow> map_option (emit (Ret (ConstInt I1 1))) (emit_with Store v s))) of
           None \<Rightarrow> None
         | Some s \<Rightarrow>
             let s = SetInsertPoint func_body s;
                 (fall_through, s) = CreateBlock s
             in case field_checks default_ret used_ids fall_through s of
                  None \<Rightarrow> None
                | Some (_, s) \<Rightarrow>
                    (case code (pf_ret p) s of
                       None \<Rightarrow> None
                     | Some (v, s) \<Rightarrow>
                         map_option (\<lambda>s. (map (fst \<circ> snd) used_ids, emit (Ret (ConstInt I1 1)) s))
                           (emit_with Store v s)))"

end
