(* ===== verification/Ezpsf_Typing.thy ===== *)
theory Ezpsf_Typing
  imports Ezpsf_Code
begin

text \<open>
  What the compiler of EzPSF generates: the typing rules of the LLVM values it uses, the
  expressions for which it generates well-typed values, and the blocks of a generated function.
\<close>

section \<open>Types of values\<close>

text \<open>The typing rules of the LLVM language for the instructions used; None is an ill-typed value.\<close>

fun int_type :: "llvm_type \<Rightarrow> bool" where
  "int_type I1 = True" | "int_type I8 = True" | "int_type I32 = True" | "int_type I64 = True"
| "int_type _ = False"

definition float_op :: "llvm_binop \<Rightarrow> bool" where
  "float_op b \<longleftrightarrow> b = LFAdd \<or> b = LFSub \<or> b = LFMul \<or> b = LFDiv"

fun cast_type :: "llvm_cast \<Rightarrow> llvm_type \<Rightarrow> llvm_type \<Rightarrow> bool" where
  "cast_type (IntCast _) a b = (int_type a \<and> int_type b)"
| "cast_type FPCast a b = (a = Double \<and> b = Double)"
| "cast_type SIToFP a b = (int_type a \<and> b = Double)"
| "cast_type UIToFP a b = (int_type a \<and> b = Double)"
| "cast_type FPToSI a b = (a = Double \<and> int_type b)"
| "cast_type FPToUI a b = (a = Double \<and> int_type b)"

definition same_int :: "llvm_type option \<Rightarrow> llvm_type option \<Rightarrow> llvm_type option" where
  "same_int a b = (case a of Some t \<Rightarrow> if int_type t \<and> b = Some t then Some t else None | None \<Rightarrow> None)"

definition both_double :: "llvm_type option \<Rightarrow> llvm_type option \<Rightarrow> llvm_type option" where
  "both_double a b = (if a = Some Double \<and> b = Some Double then Some Double else None)"

fun value_type :: "llvm_value \<Rightarrow> llvm_type option" where
  "value_type (ConstInt t _) = (if int_type t then Some t else None)"
| "value_type (ConstFP _) = Some Double"
| "value_type (ConstStr _) = Some StrStruct"
| "value_type (FieldValue _ t) = Some t"
| "value_type (HasValue _) = Some I1"
| "value_type (BinOp b v w) =
     (if float_op b then both_double (value_type v) (value_type w) else same_int (value_type v) (value_type w))"
| "value_type (ICmp _ v w) = map_option (\<lambda>_. I1) (same_int (value_type v) (value_type w))"
| "value_type (FCmp _ v w) = map_option (\<lambda>_. I1) (both_double (value_type v) (value_type w))"
| "value_type (CastTo c v t) =
     (case value_type v of Some u \<Rightarrow> if cast_type c u t then Some t else None | None \<Rightarrow> None)"
| "value_type (LNeg v) = same_int (value_type v) (value_type v)"
| "value_type (LFNeg v) = both_double (value_type v) (value_type v)"
| "value_type (LNot v) = same_int (value_type v) (value_type v)"
| "value_type (StrLen v) = (if value_type v = Some StrStruct then Some I32 else None)"
| "value_type (CallStrCmp vs) = (if map value_type vs = map llvmConvertType str_cmp_params then Some I32 else None)"
| "value_type (Phi t v _ w _) = (if value_type v = Some t \<and> value_type w = Some t then Some t else None)"


section \<open>Well-typed expressions\<close>

definition num :: "data_type \<Rightarrow> bool" where
  "num t \<longleftrightarrow> t \<in> {INT32_T, INT64_T, UINT32_T, UINT64_T, DOUBLE_T}"

text \<open>
  The operand types for which an operator is compiled without a message. An equality of an
  integer with a double is not one of them: both are cast to double and compared as integers.
\<close>

fun binary_ok :: "operator \<Rightarrow> data_type \<Rightarrow> data_type \<Rightarrow> bool" where
  "binary_ok Op_BIT_AND lt rt \<longleftrightarrow> num lt \<and> num rt \<and> isIntType lt \<and> isIntType rt"
| "binary_ok Op_BIT_XOR lt rt \<longleftrightarrow> num lt \<and> num rt \<and> isIntType lt \<and> isIntType rt"
| "binary_ok Op_BIT_OR lt rt \<longleftrightarrow> num lt \<and> num rt \<and> isIntType lt \<and> isIntType rt"
| "binary_ok Op_EQ lt rt \<longleftrightarrow> num lt \<and> num rt \<and> \<not> (isIntType lt \<and> rt = DOUBLE_T)"
| "binary_ok Op_NEQ lt rt \<longleftrightarrow> num lt \<and> num rt \<and> \<not> (isIntType lt \<and> rt = DOUBLE_T)"
| "binary_ok op lt rt \<longleftrightarrow> num lt \<and> num rt \<and>
     op \<in> {Op_MULTI, Op_DIV_INT, Op_DIV_FLOAT, Op_MOD, Op_PLUS, Op_MINUS, Op_LT, Op_GT, Op_LT_EQ, Op_GT_EQ}"

fun unary_ok :: "operator \<Rightarrow> data_type \<Rightarrow> bool" where
  "unary_ok Op_BAR t \<longleftrightarrow> t = STR_T"
| "unary_ok Op_PRE_MINUS t \<longleftrightarrow> num t"
| "unary_ok Op_PRE_NOT t \<longleftrightarrow> t = BOOL_T"
| "unary_ok _ t \<longleftrightarrow> False"

primrec ast_ok :: "expr_ast \<Rightarrow> bool" where
  "ast_ok (LitInt8Ast v) \<longleftrightarrow> True"
| "ast_ok (LitInt32Ast v) \<longleftrightarrow> True"
| "ast_ok (LitInt64Ast v) \<longleftrightarrow> True"
| "ast_ok (LitDoubleAst v) \<longleftrightarrow> True"
| "ast_ok (LitBoolAst v) \<longleftrightarrow> True"
| "ast_ok (LitStringAst v) \<longleftrightarrow> True"
| "ast_ok (JsonRefAst i json t) \<longleftrightarrow> t \<in> set nullable_structs"
| "ast_ok (BinaryOpExprAst left right op) \<longleftrightarrow> ast_ok left \<and> ast_ok right \<and> binary_ok op (ast_type left) (ast_type right)"
| "ast_ok (UnaryOpExprAst expr op) \<longleftrightarrow> ast_ok expr \<and> unary_ok op (ast_type expr)"
| "ast_ok (CastExprAst expr t) \<longleftrightarrow> ast_ok expr \<and> (ast_type expr = t \<or> num (ast_type expr) \<and> num t)"
| "ast_ok (TernaryOpExprAst bool_expr true_expr false_expr) \<longleftrightarrow> ast_ok bool_expr \<and> ast_ok true_expr \<and> ast_ok false_expr \<and>
     ast_type bool_expr = BOOL_T \<and> ast_type true_expr = ast_type false_expr \<and> ast_type true_expr \<noteq> FLOAT_T"
| "ast_ok (ShortCircuitOpExprAst first_expr second_expr op) \<longleftrightarrow> ast_ok first_expr \<and> ast_ok second_expr \<and>
     ast_type first_expr = BOOL_T \<and> ast_type second_expr = BOOL_T \<and> (op = Op_AND \<or> op = Op_OR)"

primrec refs :: "expr_ast \<Rightarrow> (nat \<times> data_type) set" where
  "refs (LitInt8Ast v) = {}"
| "refs (LitInt32Ast v) = {}"
| "refs (LitInt64Ast v) = {}"
| "refs (LitDoubleAst v) = {}"
| "refs (LitBoolAst v) = {}"
| "refs (LitStringAst v) = {}"
| "refs (JsonRefAst i json t) = {(i, t)}"
| "refs (BinaryOpExprAst left right op) = refs left \<union> refs right"
| "refs (UnaryOpExprAst expr op) = refs expr"
| "refs (CastExprAst expr t) = refs expr"
| "refs (TernaryOpExprAst bool_expr true_expr false_expr) = refs bool_expr \<union> refs true_expr \<union> refs false_expr"
| "refs (ShortCircuitOpExprAst first_expr second_expr op) = refs first_expr \<union> refs second_expr"

definition fields_ready :: "(nat \<times> data_type) set \<Rightarrow> gen_state \<Rightarrow> bool" where
  "fields_ready rs s \<longleftrightarrow> (\<forall>(i, t) \<in> rs. \<exists>v. gs_values s i = Some v \<and> value_type v = llvmConvertType t)"

text \<open>What the code of an expression promises: a value of the type, and no message.\<close>

definition gives :: "data_type \<Rightarrow> gen_state \<Rightarrow> generated \<Rightarrow> bool" where
  "gives t s r \<longleftrightarrow> (\<exists>v s'. r = Some (Some v, s') \<and> value_type v = llvmConvertType t \<and>
     gs_values s' = gs_values s \<and> gs_log s' = gs_log s)"

lemma castToTarget_gives:
  assumes "num lt" "num t" "value_type v = llvmConvertType lt"
  shows "\<exists>v'. castToTarget (Some v) lt t s = Some (Some v', s) \<and> value_type v' = llvmConvertType t"
  using assms by (cases lt; cases t) (simp_all add: castToTarget_def cast_to_def build1_def num_def)

lemma num_cases: "num t \<Longrightarrow> (t = INT32_T \<Longrightarrow> P) \<Longrightarrow> (t = INT64_T \<Longrightarrow> P) \<Longrightarrow> (t = UINT32_T \<Longrightarrow> P) \<Longrightarrow>
    (t = UINT64_T \<Longrightarrow> P) \<Longrightarrow> (t = DOUBLE_T \<Longrightarrow> P) \<Longrightarrow> P"
  by (auto simp: num_def)

lemma num_arith: "num lt \<Longrightarrow> num rt \<Longrightarrow> arith lt rt \<in> {INT32_T, INT64_T, DOUBLE_T}"
  "wide lt rt \<in> {INT32_T, INT64_T}"
  by (simp_all add: arith_def wide_def)

lemma binary_ok_num: "binary_ok op lt rt \<Longrightarrow> num lt \<and> num rt"
  by (cases op) simp_all

lemma num_not_string [simp]: "num t \<Longrightarrow> t \<noteq> STR_T" "\<not> num STR_T" "\<not> num BOOL_T"
  by (auto simp: num_def)

lemma num_isNumType [simp]: "num t \<Longrightarrow> isNumType t"
  by (auto elim: num_cases)

lemma num_int_or_double: "num t \<Longrightarrow> isIntType t \<longleftrightarrow> t \<noteq> DOUBLE_T"
  by (auto elim: num_cases)

text \<open>Both operands are cast to one type, the one the operator works on.\<close>

definition operand_type :: "operator \<Rightarrow> data_type \<Rightarrow> data_type \<Rightarrow> data_type" where
  "operand_type op lt rt =
     (if op \<in> {Op_DIV_INT, Op_MOD, Op_BIT_AND, Op_BIT_XOR, Op_BIT_OR} then wide lt rt
      else if op = Op_DIV_FLOAT then DOUBLE_T else arith lt rt)"

lemma args_type_of_number: "t \<in> {INT32_T, INT64_T, DOUBLE_T} \<Longrightarrow> args_type_of lt rt t = Some t"
  by (auto simp: args_type_of_def)

lemma args_type_of_bool: "num lt \<Longrightarrow> num rt \<Longrightarrow> args_type_of lt rt BOOL_T = Some (arith lt rt)"
  by (auto simp: args_type_of_def)

lemma args_type_operand:
  assumes "binary_ok op lt rt"
  shows "args_type_of lt rt (fromOp lt rt op) = Some (operand_type op lt rt)"
proof -
  have n: "num lt" "num rt" using binary_ok_num [OF assms] by auto
  have a: "args_type_of lt rt (arith lt rt) = Some (arith lt rt)"
    "args_type_of lt rt (wide lt rt) = Some (wide lt rt)" "args_type_of lt rt DOUBLE_T = Some DOUBLE_T"
    using num_arith(1) [OF n] num_arith(2) [of lt rt] by (auto intro: args_type_of_number)
  show ?thesis
    using assms n by (cases op) (simp_all add: operand_type_def a args_type_of_bool)
qed

lemma arith_cases:
  assumes "num lt" "num rt"
  shows "isIntType lt \<and> isIntType rt \<and> (arith lt rt = INT32_T \<or> arith lt rt = INT64_T) \<or>
    (\<not> isIntType lt \<or> \<not> isIntType rt) \<and> arith lt rt = DOUBLE_T"
  using assms by (auto simp: num_int_or_double arith_def wide_def)

lemma operand_type_num: "num lt \<Longrightarrow> num rt \<Longrightarrow> num (operand_type op lt rt)"
  by (auto simp: operand_type_def num_def arith_def wide_def)

lemmas code_defs = builderCreateFI_def builderCreateCmp_def bit_op_def build2_def assert_msg_def
  same_int_def both_double_def float_op_def

lemma operator_code_gives:
  assumes ok: "binary_ok op lt rt"
    and v: "value_type v = llvmConvertType (operand_type op lt rt)" "value_type w = llvmConvertType (operand_type op lt rt)"
  shows "\<exists>u. operator_code op lt rt (fromOp lt rt op) (operand_type op lt rt) (Some v) (Some w) s = Some (Some u, s) \<and>
    value_type u = llvmConvertType (fromOp lt rt op)"
proof -
  have n: "num lt" "num rt" "isNumType lt" "isNumType rt" "lt \<noteq> STR_T" using binary_ok_num [OF ok] by auto
  have d: "isIntType rt \<longleftrightarrow> rt \<noteq> DOUBLE_T" using n(2) by (rule num_int_or_double)
  have w: "wide lt rt = INT32_T \<or> wide lt rt = INT64_T" using num_arith(2) [of lt rt] by simp
  from arith_cases [OF n(1,2)] w show ?thesis
    by (elim disjE conjE; cases op; insert ok v n d; simp add: operand_type_def code_defs Let_def)
qed

lemma binary_code_gives:
  assumes ok: "binary_ok op lt rt" and v: "value_type v = llvmConvertType lt" and w: "value_type w = llvmConvertType rt"
  shows "\<exists>u. binary_code op lt rt (Some v) (Some w) s = Some (Some u, s) \<and> value_type u = llvmConvertType (fromOp lt rt op)"
proof -
  have n: "num lt" "num rt" using binary_ok_num [OF ok] by auto
  let ?t = "operand_type op lt rt"
  have t: "num ?t" using n by (rule operand_type_num)
  obtain v' where v': "castToTarget (Some v) lt ?t s = Some (Some v', s)" "value_type v' = llvmConvertType ?t"
    using castToTarget_gives [OF n(1) t v] by blast
  obtain w' where w': "castToTarget (Some w) rt ?t s = Some (Some w', s)" "value_type w' = llvmConvertType ?t"
    using castToTarget_gives [OF n(2) t w] by blast
  from operator_code_gives [OF ok v'(2) w'(2), of s] show ?thesis
    by (simp add: binary_code_def args_type_operand [OF ok] v'(1) w'(1) Let_def)
qed

lemma givesE:
  assumes "gives t s r"
  obtains v s' where "r = Some (Some v, s')" "value_type v = llvmConvertType t" "gs_values s' = gs_values s" "gs_log s' = gs_log s"
  using assms by (auto simp: gives_def)

lemma givesI:
  "r = Some (Some v, s') \<Longrightarrow> value_type v = llvmConvertType t \<Longrightarrow> gs_values s' = gs_values s \<Longrightarrow> gs_log s' = gs_log s \<Longrightarrow>
    gives t s r"
  by (auto simp: gives_def)

lemma state_ops_keep [simp]:
  "gs_values (emit i s) = gs_values s" "gs_log (emit i s) = gs_log s"
  "gs_values (SetInsertPoint b s) = gs_values s" "gs_log (SetInsertPoint b s) = gs_log s"
  "gs_values (snd (CreateBlock s)) = gs_values s" "gs_log (snd (CreateBlock s)) = gs_log s"
  by (simp_all add: emit_def SetInsertPoint_def CreateBlock_def)

lemma phi_code_gives:
  assumes "t \<noteq> FLOAT_T" "value_type v = llvmConvertType t" "value_type w = llvmConvertType t"
  shows "gives t s (phi_code t (Some v) b (Some w) c s)"
  using assms by (cases t) (auto simp: phi_code_def build2_def gives_def)

lemma gives_state: "gives t s r \<Longrightarrow> gs_values s = gs_values s0 \<Longrightarrow> gs_log s = gs_log s0 \<Longrightarrow> gives t s0 r"
  by (simp add: gives_def)

lemma fields_ready_cong: "gs_values s' = gs_values s \<Longrightarrow> fields_ready rs s' = fields_ready rs s"
  by (simp add: fields_ready_def)

lemma fields_ready_Un [simp]: "fields_ready (rs \<union> rs') s \<longleftrightarrow> fields_ready rs s \<and> fields_ready rs' s"
  by (simp add: fields_ready_def ball_Un)

lemma ternary_code_gives:
  assumes b: "gives BOOL_T s (code bool_expr s)" and nf: "ast_type true_expr \<noteq> FLOAT_T"
    and t: "\<And>s'. gs_values s' = gs_values s \<Longrightarrow> gives (ast_type true_expr) s' (code true_expr s')"
    and f: "\<And>s'. gs_values s' = gs_values s \<Longrightarrow> gives (ast_type true_expr) s' (code false_expr s')"
  shows "gives (ast_type true_expr) s (code (TernaryOpExprAst bool_expr true_expr false_expr) s)"
proof -
  obtain c s1 where c: "code bool_expr s = Some (Some c, s1)" "gs_values s1 = gs_values s" "gs_log s1 = gs_log s"
    using b by (rule givesE)
  obtain b1 s2 b2 s3 b3 s4 where bl: "CreateBlock s1 = (b1, s2)" "CreateBlock s2 = (b2, s3)" "CreateBlock s3 = (b3, s4)"
    by (metis surj_pair)
  have k4: "gs_values s4 = gs_values s" "gs_log s4 = gs_log s"
    using bl c state_ops_keep(5,6) [of s1] state_ops_keep(5,6) [of s2] state_ops_keep(5,6) [of s3] by simp_all
  let ?s5 = "SetInsertPoint b1 (emit (CondBr c b1 b2) s4)"
  obtain v s6 where v: "code true_expr ?s5 = Some (Some v, s6)" "value_type v = llvmConvertType (ast_type true_expr)"
    "gs_values s6 = gs_values s" "gs_log s6 = gs_log s"
    using t [of ?s5] k4 by (auto elim: givesE)
  let ?s7 = "SetInsertPoint b2 (emit (Br b3) s6)"
  obtain w s8 where w: "code false_expr ?s7 = Some (Some w, s8)" "value_type w = llvmConvertType (ast_type true_expr)"
    "gs_values s8 = gs_values s" "gs_log s8 = gs_log s"
    using f [of ?s7] v by (auto elim: givesE)
  let ?s9 = "SetInsertPoint b3 (emit (Br b3) s8)"
  have "gives (ast_type true_expr) ?s9 (phi_code (ast_type true_expr) (Some v) b1 (Some w) b2 ?s9)"
    by (rule phi_code_gives [OF nf v(2) w(2)])
  then have "gives (ast_type true_expr) s (phi_code (ast_type true_expr) (Some v) b1 (Some w) b2 ?s9)"
    by (rule gives_state) (simp_all add: w)
  then show ?thesis by (simp add: c(1) bl emit_with_def v(1) w(1))
qed

lemma short_circuit_code_gives:
  assumes a: "gives BOOL_T s (code first_expr s)" and op: "op = Op_AND \<or> op = Op_OR"
    and t: "\<And>s'. gs_values s' = gs_values s \<Longrightarrow> gives BOOL_T s' (code second_expr s')"
  shows "gives BOOL_T s (code (ShortCircuitOpExprAst first_expr second_expr op) s)"
proof -
  obtain c s1 where c: "code first_expr s = Some (Some c, s1)" "value_type c = llvmConvertType BOOL_T"
    "gs_values s1 = gs_values s" "gs_log s1 = gs_log s"
    using a by (rule givesE)
  obtain b1 s2 b2 s3 where bl: "CreateBlock s1 = (b1, s2)" "CreateBlock s2 = (b2, s3)"
    by (metis surj_pair)
  have k: "gs_values s3 = gs_values s" "gs_log s3 = gs_log s"
    using bl c state_ops_keep(5,6) [of s1] state_ops_keep(5,6) [of s2] by simp_all
  let ?i = "if op = Op_AND then CondBr c b1 b2 else CondBr c b2 b1"
  let ?s4 = "SetInsertPoint b1 (emit ?i s3)"
  obtain w s5 where w: "code second_expr ?s4 = Some (Some w, s5)" "value_type w = llvmConvertType BOOL_T"
    "gs_values s5 = gs_values s" "gs_log s5 = gs_log s"
    using t [of ?s4] k by (auto elim: givesE)
  let ?s6 = "SetInsertPoint b2 (emit (Br b2) s5)"
  have "gives BOOL_T ?s6 (phi_code BOOL_T (Some c) (gs_cur s1) (Some w) b1 ?s6)"
    by (rule phi_code_gives [OF _ c(2) w(2)]) simp
  then have "gives BOOL_T s (phi_code BOOL_T (Some c) (gs_cur s1) (Some w) b1 ?s6)"
    by (rule gives_state) (simp_all add: w)
  moreover have "code (ShortCircuitOpExprAst first_expr second_expr op) s =
      phi_code BOOL_T (Some c) (gs_cur s1) (Some w) b1 ?s6"
    using op w(1) by (auto simp: c(1) bl emit_with_def)
  ultimately show ?thesis by simp
qed

lemma unary_code_gives:
  assumes "unary_ok op (ast_type e)" "gives (ast_type e) s (code e s)"
  shows "gives (ast_type (UnaryOpExprAst e op)) s (code (UnaryOpExprAst e op) s)"
proof -
  obtain v s' where v: "code e s = Some (Some v, s')" "value_type v = llvmConvertType (ast_type e)"
    "gs_values s' = gs_values s" "gs_log s' = gs_log s"
    using assms(2) by (rule givesE)
  show ?thesis
  proof (cases "op = Op_PRE_MINUS")
    case True
    then have "num (ast_type e)" using assms(1) by simp
    then show ?thesis
      using v True by (auto elim!: num_cases simp: assert_msg_def build1_def gives_def same_int_def both_double_def)
  next
    case False
    then show ?thesis
      using v assms(1)
      by (cases op) (auto simp: assert_msg_def build1_def gives_def same_int_def wide_def)
  qed
qed

lemma code_gives: "ast_ok e \<Longrightarrow> fields_ready (refs e) s \<Longrightarrow> gives (ast_type e) s (code e s)"
proof (induction e arbitrary: s)
  case (JsonRefAst i json t)
  then show ?case by (auto simp: fields_ready_def gives_def)
next
  case (BinaryOpExprAst left right op)
  have ok: "ast_ok left" "ast_ok right" "binary_ok op (ast_type left) (ast_type right)" using BinaryOpExprAst.prems by auto
  have fr: "fields_ready (refs left) s" "fields_ready (refs right) s" using BinaryOpExprAst.prems(2) by simp_all
  obtain v s1 where v: "code left s = Some (Some v, s1)" "value_type v = llvmConvertType (ast_type left)"
    "gs_values s1 = gs_values s" "gs_log s1 = gs_log s"
    using BinaryOpExprAst.IH(1) [OF ok(1) fr(1)] by (rule givesE)
  have "fields_ready (refs right) s1" using fr(2) fields_ready_cong [OF v(3)] by simp
  from BinaryOpExprAst.IH(2) [OF ok(2) this] obtain w s2 where
    w: "code right s1 = Some (Some w, s2)" "value_type w = llvmConvertType (ast_type right)"
      "gs_values s2 = gs_values s1" "gs_log s2 = gs_log s1"
    by (rule givesE)
  obtain u where "binary_code op (ast_type left) (ast_type right) (Some v) (Some w) s2 = Some (Some u, s2)"
    "value_type u = llvmConvertType (fromOp (ast_type left) (ast_type right) op)"
    using binary_code_gives [OF ok(3) v(2) w(2)] by blast
  then show ?case using v(3,4) w(3,4) by (simp add: gives_def v(1) w(1))
next
  case (UnaryOpExprAst e op)
  then show ?case by (intro unary_code_gives) (simp_all del: code.simps)
next
  case (CastExprAst e t)
  obtain v s1 where v: "code e s = Some (Some v, s1)" "value_type v = llvmConvertType (ast_type e)"
    "gs_values s1 = gs_values s" "gs_log s1 = gs_log s"
    using CastExprAst.IH [of s] CastExprAst.prems by (auto elim: givesE)
  have "\<exists>v'. castToTarget (Some v) (ast_type e) t s1 = Some (Some v', s1) \<and> value_type v' = llvmConvertType t"
  proof (cases "ast_type e = t")
    case True
    then show ?thesis using v(2) by (simp add: castToTarget_def)
  next
    case False
    then show ?thesis using CastExprAst.prems(1) v(2) by (intro castToTarget_gives) auto
  qed
  then show ?case using v by (auto simp: gives_def)
next
  case (TernaryOpExprAst b t f)
  have ok: "ast_ok b" "ast_ok t" "ast_ok f" "ast_type b = BOOL_T" "ast_type f = ast_type t" "ast_type t \<noteq> FLOAT_T"
    using TernaryOpExprAst.prems(1) by auto
  have fr: "fields_ready (refs b) s" "fields_ready (refs t) s" "fields_ready (refs f) s"
    using TernaryOpExprAst.prems(2) by simp_all
  have "gives (ast_type t) s (code (TernaryOpExprAst b t f) s)"
  proof (rule ternary_code_gives)
    show "gives BOOL_T s (code b s)" using TernaryOpExprAst.IH(1) [OF ok(1) fr(1)] ok(4) by simp
    show "gives (ast_type t) s' (code t s')" if "gs_values s' = gs_values s" for s'
      using TernaryOpExprAst.IH(2) [OF ok(2)] fr(2) fields_ready_cong [OF that] by simp
    show "gives (ast_type t) s' (code f s')" if "gs_values s' = gs_values s" for s'
      using TernaryOpExprAst.IH(3) [OF ok(3), of s'] fr(3) fields_ready_cong [OF that] ok(5) by simp
  qed (rule ok(6))
  then show ?case by (simp del: code.simps)
next
  case (ShortCircuitOpExprAst e f op)
  have ok: "ast_ok e" "ast_ok f" "ast_type e = BOOL_T" "ast_type f = BOOL_T" "op = Op_AND \<or> op = Op_OR"
    using ShortCircuitOpExprAst.prems(1) by simp_all
  have fr: "fields_ready (refs e) s" "fields_ready (refs f) s" using ShortCircuitOpExprAst.prems(2) by simp_all
  have "gives BOOL_T s (code (ShortCircuitOpExprAst e f op) s)"
  proof (rule short_circuit_code_gives)
    show "gives BOOL_T s (code e s)" using ShortCircuitOpExprAst.IH(1) [OF ok(1) fr(1)] ok(3) by simp
    show "gives BOOL_T s' (code f s')" if "gs_values s' = gs_values s" for s'
      using ShortCircuitOpExprAst.IH(2) [OF ok(2), of s'] fr(2) fields_ready_cong [OF that] ok(4) by simp
  qed (rule ok(5))
  then show ?case by (simp del: code.simps)
qed (simp_all add: gives_def)


section \<open>Blocks of a generated function\<close>

definition stores :: "gen_state \<Rightarrow> llvm_value set" where
  "stores s = {v. \<exists>b < length (gs_blocks s). Store v \<in> set (gs_blocks s ! b)}"

text \<open>
  Generating code leaves the blocks before \<open>n\<close> alone, except the block \<open>c\<close> it starts in, and
  stores nothing.
\<close>

definition inside :: "nat \<Rightarrow> nat \<Rightarrow> gen_state \<Rightarrow> bool" where
  "inside n c s \<longleftrightarrow> (gs_cur s = c \<or> n \<le> gs_cur s) \<and> gs_cur s < length (gs_blocks s) \<and> n \<le> length (gs_blocks s)"

definition moves :: "nat \<Rightarrow> nat \<Rightarrow> gen_state \<Rightarrow> gen_state \<Rightarrow> bool" where
  "moves n c s s' \<longleftrightarrow> inside n c s' \<and> length (gs_blocks s) \<le> length (gs_blocks s') \<and>
     (\<forall>b < n. b \<noteq> c \<longrightarrow> gs_blocks s' ! b = gs_blocks s ! b) \<and> stores s' = stores s"

lemma moves_trans: "moves n c s s' \<Longrightarrow> moves n c s' s'' \<Longrightarrow> moves n c s s''"
  by (simp add: moves_def)

lemma moves_inside: "moves n c s s' \<Longrightarrow> inside n c s'"
  by (simp add: moves_def)

lemma moves_same: "inside n c s \<Longrightarrow> gs_blocks s' = gs_blocks s \<Longrightarrow> gs_cur s' = gs_cur s \<Longrightarrow> moves n c s s'"
  by (simp add: moves_def inside_def stores_def)

lemma moves_refl: "inside n c s \<Longrightarrow> moves n c s s"
  by (rule moves_same) simp_all

lemma stores_emit:
  assumes "gs_cur s < length (gs_blocks s)"
  shows "stores (emit i s) = stores s \<union> {v. i = Store v}"
proof -
  have nth: "gs_blocks (emit i s) ! b = (if b = gs_cur s then gs_blocks s ! b @ [i] else gs_blocks s ! b)"
    if "b < length (gs_blocks s)" for b
    using that assms by (simp add: emit_def nth_list_update)
  have len: "length (gs_blocks (emit i s)) = length (gs_blocks s)" by (simp add: emit_def)
  have "v \<in> stores (emit i s) \<longleftrightarrow> v \<in> stores s \<or> i = Store v" for v
    using nth assms by (auto simp: stores_def len split: if_splits)
  then show ?thesis by auto
qed

lemma emit_shape [simp]: "gs_cur (emit i s) = gs_cur s" "length (gs_blocks (emit i s)) = length (gs_blocks s)"
  by (simp_all add: emit_def)

lemma moves_emit: "inside n c s \<Longrightarrow> (\<And>v. i \<noteq> Store v) \<Longrightarrow> moves n c s (emit i s)"
  using stores_emit [of s i] by (auto simp: moves_def inside_def emit_def nth_list_update)

lemma stores_CreateBlock: "stores (snd (CreateBlock s)) = stores s"
  by (auto simp: stores_def CreateBlock_def nth_append less_Suc_eq)

lemma moves_CreateBlock: "inside n c s \<Longrightarrow> moves n c s (snd (CreateBlock s))"
  using stores_CreateBlock [of s] by (auto simp: moves_def inside_def CreateBlock_def nth_append)

lemma moves_SetInsertPoint: "inside n c s \<Longrightarrow> n \<le> b \<Longrightarrow> b < length (gs_blocks s) \<Longrightarrow> moves n c s (SetInsertPoint b s)"
  by (simp add: moves_def inside_def SetInsertPoint_def stores_def)

lemma CreateBlock_eq: "CreateBlock s = (b, s') \<Longrightarrow> b = length (gs_blocks s) \<and> length (gs_blocks s') = Suc b"
  by (auto simp: CreateBlock_def)

lemma build_state:
  "build1 f v s = Some (u, s') \<Longrightarrow> s' = s" "build2 g v w s = Some (u, s') \<Longrightarrow> s' = s"
  "phi_code t v b w c s = Some (u, s') \<Longrightarrow> s' = s" "cast_to k v t s = Some (u, s') \<Longrightarrow> s' = s"
  by (auto simp: build1_def build2_def phi_code_def cast_to_def split: option.splits)

definition same_blocks :: "gen_state \<Rightarrow> gen_state \<Rightarrow> bool" where
  "same_blocks s s' \<longleftrightarrow> gs_blocks s' = gs_blocks s \<and> gs_cur s' = gs_cur s"

lemma same_blocks_simps [simp]:
  "same_blocks s s" "same_blocks s (log_msg s') \<longleftrightarrow> same_blocks s s'" "same_blocks s (assert_msg b s') \<longleftrightarrow> same_blocks s s'"
  by (simp_all add: same_blocks_def log_msg_def assert_msg_def)

lemma castToTarget_blocks: "castToTarget v t u s = Some (w, s') \<Longrightarrow> same_blocks s s'"
  by (auto simp: castToTarget_def dest!: build_state(4) split: if_splits)

lemma operator_code_blocks: "operator_code op lt rt ret args v w s = Some (u, s') \<Longrightarrow> same_blocks s s'"
  by (cases op) (auto simp: builderCreateFI_def builderCreateCmp_def bit_op_def string_cmp_def Let_def
      dest!: build_state(2) split: if_splits)

lemma binary_code_blocks: "binary_code op lt rt v w s = Some (u, s') \<Longrightarrow> same_blocks s s'"
  by (auto simp: binary_code_def Let_def dest!: castToTarget_blocks operator_code_blocks
      split: option.splits if_splits) (simp add: same_blocks_def)

lemma moves_blocks: "inside n c s \<Longrightarrow> same_blocks s s' \<Longrightarrow> moves n c s s'"
  by (rule moves_same) (simp_all add: same_blocks_def)

lemma emit_with_SomeD: "emit_with f v s = Some s' \<Longrightarrow> \<exists>u. v = Some u \<and> s' = emit (f u) s"
  by (auto simp: emit_with_def)

lemma inside_less: "inside n c s \<Longrightarrow> n \<le> length (gs_blocks s)"
  by (simp add: inside_def)

lemma moves_jump:
  assumes "moves n c s s1" "\<And>v. i \<noteq> Store v" "n \<le> b" "b < length (gs_blocks s1)"
  shows "moves n c s (SetInsertPoint b (emit i s1))"
proof -
  have e: "moves n c s1 (emit i s1)" using assms(1,2) by (intro moves_emit moves_inside)
  then have "moves n c (emit i s1) (SetInsertPoint b (emit i s1))"
    using assms(3,4) by (intro moves_SetInsertPoint moves_inside [OF e]) (simp_all add: emit_def)
  then show ?thesis by (rule moves_trans [OF moves_trans [OF assms(1) e]])
qed

lemma jump_blocks [simp]: "length (gs_blocks (SetInsertPoint b (emit i s))) = length (gs_blocks s)"
  by (simp add: SetInsertPoint_def emit_def)

lemma moves_length: "moves n c s s' \<Longrightarrow> length (gs_blocks s) \<le> length (gs_blocks s')"
  by (simp add: moves_def)

definition code_local :: "expr_ast \<Rightarrow> bool" where
  "code_local e \<longleftrightarrow> (\<forall>s v s' n c. code e s = Some (v, s') \<longrightarrow> inside n c s \<longrightarrow> moves n c s s')"

lemma code_localD: "code_local e \<Longrightarrow> code e s = Some (v, s') \<Longrightarrow> inside n c s \<Longrightarrow> moves n c s s'"
  unfolding code_local_def by blast

lemma ternary_local:
  assumes "code_local b" "code_local t" "code_local f"
  shows "code_local (TernaryOpExprAst b t f)"
  unfolding code_local_def
proof (intro allI impI)
  fix s v s' n c
  assume code: "code (TernaryOpExprAst b t f) s = Some (v, s')" and ins: "inside n c s"
  obtain c0 s1 where c0: "code b s = Some (c0, s1)" using code by (auto split: option.splits)
  obtain b1 s2 b2 s3 b3 s4 where bl: "CreateBlock s1 = (b1, s2)" "CreateBlock s2 = (b2, s3)" "CreateBlock s3 = (b3, s4)"
    by (metis surj_pair)
  from code c0 bl obtain u v1 s6 w s8 where t: "code t (SetInsertPoint b1 (emit (CondBr u b1 b2) s4)) = Some (v1, s6)"
    and f: "code f (SetInsertPoint b2 (emit (Br b3) s6)) = Some (w, s8)"
    and s': "s' = SetInsertPoint b3 (emit (Br b3) s8)"
    by (auto simp: emit_with_def split: option.splits dest!: build_state(3))
  have m1: "moves n c s s1" by (rule code_localD [OF assms(1) c0 ins])
  have lens: "b1 = length (gs_blocks s1)" "b2 = Suc b1" "b3 = Suc b2" "length (gs_blocks s4) = Suc b3"
    using CreateBlock_eq [OF bl(1)] CreateBlock_eq [OF bl(2)] CreateBlock_eq [OF bl(3)] by simp_all
  have m4: "moves n c s s4"
    using m1 moves_CreateBlock [of n c s1] moves_CreateBlock [of n c s2] moves_CreateBlock [of n c s3] bl
    by (metis moves_inside moves_trans snd_conv)
  have n: "n \<le> b1" using inside_less [OF moves_inside [OF m1]] lens(1) by simp
  have m5: "moves n c s (SetInsertPoint b1 (emit (CondBr u b1 b2) s4))"
    by (rule moves_jump [OF m4]) (use n lens in simp_all)
  note mt = code_localD [OF assms(2) t moves_inside [OF m5]]
  have l6: "Suc b3 \<le> length (gs_blocks s6)" using moves_length [OF mt] lens by simp
  have m7: "moves n c s (SetInsertPoint b2 (emit (Br b3) s6))"
    by (rule moves_jump [OF moves_trans [OF m5 mt]]) (use n lens l6 in simp_all)
  note mf = code_localD [OF assms(3) f moves_inside [OF m7]]
  have "Suc b3 \<le> length (gs_blocks s8)" using moves_length [OF mf] l6 by simp
  then show "moves n c s s'"
    unfolding s' by (intro moves_jump [OF moves_trans [OF m7 mf]]) (use n lens in simp_all)
qed

lemma short_circuit_local:
  assumes "code_local e" "code_local f"
  shows "code_local (ShortCircuitOpExprAst e f op)"
  unfolding code_local_def
proof (intro allI impI)
  fix s v s' n c
  assume code: "code (ShortCircuitOpExprAst e f op) s = Some (v, s')" and ins: "inside n c s"
  obtain c0 s1 where c0: "code e s = Some (c0, s1)" using code by (auto split: option.splits)
  obtain b1 s2 b2 s3 where bl: "CreateBlock s1 = (b1, s2)" "CreateBlock s2 = (b2, s3)"
    by (metis surj_pair)
  have m1: "moves n c s s1" by (rule code_localD [OF assms(1) c0 ins])
  have lens: "b1 = length (gs_blocks s1)" "b2 = Suc b1" "length (gs_blocks s3) = Suc b2"
    using CreateBlock_eq [OF bl(1)] CreateBlock_eq [OF bl(2)] by simp_all
  have m3: "moves n c s s3"
    using m1 moves_CreateBlock [of n c s1] moves_CreateBlock [of n c s2] bl by (metis moves_inside moves_trans snd_conv)
  have n: "n \<le> b1" using inside_less [OF moves_inside [OF m1]] lens(1) by simp
  show "moves n c s s'"
  proof (cases "op = Op_AND \<or> op = Op_OR")
    case False
    then have "s' = log_msg s3" using code c0 bl by auto
    then show ?thesis using moves_trans [OF m3 moves_blocks [OF moves_inside [OF m3]]] by simp
  next
    case True
    with code c0 bl obtain u w s5 where
      f: "code f (SetInsertPoint b1 (emit (if op = Op_AND then CondBr u b1 b2 else CondBr u b2 b1) s3)) = Some (w, s5)"
      and s': "s' = SetInsertPoint b2 (emit (Br b2) s5)"
      by (auto simp: emit_with_def split: option.splits dest!: build_state(3))
    have m4: "moves n c s (SetInsertPoint b1 (emit (if op = Op_AND then CondBr u b1 b2 else CondBr u b2 b1) s3))"
      by (rule moves_jump [OF m3]) (use n lens in simp_all)
    note m = code_localD [OF assms(2) f moves_inside [OF m4]]
    have "Suc b2 \<le> length (gs_blocks s5)" using moves_length [OF m] lens by simp
    then show ?thesis
      unfolding s' by (intro moves_jump [OF moves_trans [OF m4 m]]) (use n lens in simp_all)
  qed
qed

lemma code_moves: "code_local e"
proof (induction e)
  case (JsonRefAst i json t)
  show ?case by (auto simp: code_local_def split: option.splits intro!: moves_blocks)
next
  case (BinaryOpExprAst left right op)
  show ?case
    unfolding code_local_def
  proof (intro allI impI)
    fix s v s' n c
    assume "code (BinaryOpExprAst left right op) s = Some (v, s')" and ins: "inside n c s"
    then obtain v1 s1 w s2 where "code left s = Some (v1, s1)" "code right s1 = Some (w, s2)"
      "binary_code op (ast_type left) (ast_type right) v1 w s2 = Some (v, s')"
      by (auto split: option.splits)
    then show "moves n c s s'"
      using BinaryOpExprAst.IH ins by (meson code_localD binary_code_blocks moves_blocks moves_inside moves_trans)
  qed
next
  case (UnaryOpExprAst e op)
  show ?case
    unfolding code_local_def
  proof (intro allI impI)
    fix s v s' n c
    assume code: "code (UnaryOpExprAst e op) s = Some (v, s')" and ins: "inside n c s"
    have "\<exists>b v1. code e (assert_msg b s) = Some (v1, s') \<or> same_blocks s s'"
      using code by (cases op) (auto split: option.splits dest!: build_state(1))
    moreover have "moves n c s (assert_msg b s)" for b using ins by (rule moves_blocks) simp
    ultimately show "moves n c s s'"
      using UnaryOpExprAst.IH ins by (meson code_localD moves_blocks moves_inside moves_trans)
  qed
next
  case (CastExprAst e t)
  show ?case
    unfolding code_local_def
  proof (intro allI impI)
    fix s v s' n c
    assume "code (CastExprAst e t) s = Some (v, s')" and ins: "inside n c s"
    then obtain v1 s1 where "code e s = Some (v1, s1)" "castToTarget v1 (ast_type e) t s1 = Some (v, s')"
      by (auto split: option.splits)
    then show "moves n c s s'"
      using CastExprAst.IH ins by (meson code_localD castToTarget_blocks moves_blocks moves_inside moves_trans)
  qed
next
  case (TernaryOpExprAst b t f)
  then show ?case by (rule ternary_local)
next
  case (ShortCircuitOpExprAst e f op)
  then show ?case by (rule short_circuit_local)
qed (auto simp: code_local_def intro: moves_refl)

text \<open>
  The state between the checks of the fields: the insertion point and the next block are two
  different blocks, and the next one is empty.
\<close>

definition check_state :: "nat \<Rightarrow> gen_state \<Rightarrow> bool" where
  "check_state b s \<longleftrightarrow> gs_cur s < length (gs_blocks s) \<and> b < length (gs_blocks s) \<and> gs_blocks s ! b = [] \<and> b \<noteq> gs_cur s"

definition check_field :: "nat \<Rightarrow> nat \<Rightarrow> nat \<Rightarrow> data_type \<Rightarrow> llvm_type \<Rightarrow> gen_state \<Rightarrow> gen_state" where
  "check_field d b i t ty s = snd (CreateBlock
     ((SetInsertPoint b (emit (CondBr (HasValue i) b d) (emit (CallGet i t) s)))
        \<lparr>gs_values := (gs_values s)(i \<mapsto> FieldValue i ty)\<rparr>))"

lemma field_checks_Cons:
  assumes "getFieldFunc t \<noteq> None" "t \<in> set nullable_structs" "llvmConvertType t = Some ty"
  shows "field_checks d ((i, json, t) # ids) b s = field_checks d ids (length (gs_blocks s)) (check_field d b i t ty s)"
  using assms by (auto simp: check_field_def CreateBlock_def SetInsertPoint_def emit_def Let_def)

lemma field_checks_ConsD:
  assumes "field_checks d ((i, json, t) # ids) b s \<noteq> None"
  obtains ty where "getFieldFunc t \<noteq> None" "t \<in> set nullable_structs" "llvmConvertType t = Some ty"
  using assms by (auto split: if_splits option.splits)

lemma check_field_result:
  assumes "check_state b s"
  shows "check_state (length (gs_blocks s)) (check_field d b i t ty s)" "stores (check_field d b i t ty s) = stores s"
    "gs_log (check_field d b i t ty s) = gs_log s"
    "gs_values (check_field d b i t ty s) = (gs_values s)(i \<mapsto> FieldValue i ty)"
proof -
  have l: "gs_cur s < length (gs_blocks s)" using assms by (simp add: check_state_def)
  show "check_state (length (gs_blocks s)) (check_field d b i t ty s)"
    using assms by (simp add: check_field_def check_state_def CreateBlock_def SetInsertPoint_def emit_def nth_append)
  have "stores (x\<lparr>gs_values := f\<rparr>) = stores x" "stores (SetInsertPoint b x) = stores x" for x f
    by (simp_all add: stores_def SetInsertPoint_def)
  then show "stores (check_field d b i t ty s) = stores s"
    using l by (simp add: check_field_def stores_CreateBlock stores_emit)
qed (simp_all add: check_field_def CreateBlock_def SetInsertPoint_def emit_def)

lemma field_checks_result:
  assumes "check_state b s" "\<forall>(i, json, t) \<in> set ids. t \<in> set nullable_structs" "distinct (map fst ids)"
  shows "\<exists>b' s'. field_checks d ids b s = Some (b', s') \<and> check_state b' s' \<and> stores s' = stores s \<and> gs_log s' = gs_log s \<and>
    (\<forall>i. i \<notin> fst ` set ids \<longrightarrow> gs_values s' i = gs_values s i) \<and>
    (\<forall>(i, json, t) \<in> set ids. \<exists>v. gs_values s' i = Some v \<and> value_type v = llvmConvertType t)"
  using assms
proof (induction ids arbitrary: b s)
  case (Cons a ids)
  obtain i json t where a: "a = (i, json, t)" by (cases a)
  have t: "t \<in> set nullable_structs" using Cons.prems(2) by (simp add: a)
  then obtain ty where ty: "llvmConvertType t = Some ty" "getFieldFunc t \<noteq> None"
    by (auto simp: nullable_structs_def)
  note st = check_field_result [OF Cons.prems(1), of d i t ty]
  have "\<forall>(i, json, t) \<in> set ids. t \<in> set nullable_structs" "distinct (map fst ids)" and ni: "i \<notin> fst ` set ids"
    using Cons.prems(2,3) by (auto simp: a)
  from Cons.IH [OF st(1) this(1,2)] show ?case
    unfolding a field_checks_Cons [OF ty(2) t ty(1)] using ni ty(1) by (auto simp: st(2-4))
qed simp

lemma field_checks_state:
  "field_checks d ids b s = Some (b', s') \<Longrightarrow> check_state b s \<Longrightarrow> check_state b' s'"
proof (induction ids arbitrary: b s)
  case (Cons a ids)
  obtain i json t where a: "a = (i, json, t)" by (cases a)
  have "field_checks d ((i, json, t) # ids) b s \<noteq> None" using Cons.prems(1) by (simp add: a del: field_checks.simps)
  then obtain ty where ty: "getFieldFunc t \<noteq> None" "t \<in> set nullable_structs" "llvmConvertType t = Some ty"
    by (rule field_checks_ConsD)
  show ?case
    by (rule Cons.IH [OF Cons.prems(1) [unfolded a field_checks_Cons [OF ty]] check_field_result(1) [OF Cons.prems(2)]])
qed simp

definition psf_ok :: "psf_function_ast \<Rightarrow> (nat \<times> string \<times> data_type) list \<Rightarrow> bool" where
  "psf_ok p ids \<longleftrightarrow> ast_ok (pf_ret p) \<and> pf_return_type p = ast_type (pf_ret p) \<and>
     (\<forall>(i, t) \<in> refs (pf_ret p). \<exists>json. (i, json, t) \<in> set ids) \<and>
     (\<forall>(i, json, t) \<in> set ids. t \<in> set nullable_structs) \<and> distinct (map fst ids) \<and>
     (case pf_default_value p of None \<Rightarrow> True
      | Some d \<Rightarrow> ast_ok d \<and> refs d = {} \<and> ast_type d = ast_type (pf_ret p))"

text \<open>The block of the default value, and the state in which the fields are checked.\<close>

definition default_block :: "psf_function_ast \<Rightarrow> gen_state option" where
  "default_block p =
     (let s = \<lparr>gs_blocks = [[], []], gs_cur = 1, gs_values = Map.empty, gs_log = 0\<rparr> in
      case pf_default_value p of
        None \<Rightarrow> Some (emit (Ret (ConstInt I1 0)) s)
      | Some d \<Rightarrow>
          (case code d s of
             None \<Rightarrow> None
           | Some (v, s) \<Rightarrow> map_option (emit (Ret (ConstInt I1 1))) (emit_with Store v s)))"

lemma generate_default_block:
  "generate p ids =
     (case default_block p of
        None \<Rightarrow> None
      | Some s \<Rightarrow>
          (case field_checks 1 ids (length (gs_blocks s)) (snd (CreateBlock (SetInsertPoint 0 s))) of
             None \<Rightarrow> None
           | Some (_, s) \<Rightarrow>
               (case code (pf_ret p) s of
                  None \<Rightarrow> None
                | Some (v, s) \<Rightarrow>
                    map_option (\<lambda>s. (map (fst \<circ> snd) ids, emit (Ret (ConstInt I1 1)) s)) (emit_with Store v s))))"
  unfolding generate_def default_block_def
  by (simp add: CreateBlock_def SetInsertPoint_def Let_def cong: option.case_cong)

lemma default_block_result:
  assumes "default_block p = Some s"
  shows "check_state (length (gs_blocks s)) (snd (CreateBlock (SetInsertPoint 0 s)))"
proof -
  let ?s0 = "\<lparr>gs_blocks = [[], []], gs_cur = 1, gs_values = Map.empty, gs_log = 0\<rparr>"
  have "0 < length (gs_blocks s)"
  proof (cases "pf_default_value p")
    case None
    then show ?thesis using assms by (auto simp: default_block_def emit_def)
  next
    case (Some d)
    then obtain v s1 where c: "code d ?s0 = Some (Some v, s1)" "s = emit (Ret (ConstInt I1 1)) (emit (Store v) s1)"
      using assms by (auto simp: default_block_def emit_with_def split: option.splits)
    have "moves 2 1 ?s0 s1" by (rule code_localD [OF code_moves c(1)]) (simp add: inside_def)
    then show ?thesis using c(2) by (auto simp: moves_def emit_def)
  qed
  then show ?thesis by (auto simp: check_state_def CreateBlock_def SetInsertPoint_def nth_append)
qed

lemma default_block_typed:
  assumes "psf_ok p ids"
  shows "\<exists>s. default_block p = Some s \<and> gs_log s = 0 \<and>
    (\<forall>v \<in> stores s. value_type v = llvmConvertType (pf_return_type p))"
proof (cases "pf_default_value p")
  case None
  then show ?thesis by (auto simp: default_block_def emit_def stores_def less_Suc_eq)
next
  case (Some d)
  let ?s0 = "\<lparr>gs_blocks = [[], []], gs_cur = 1, gs_values = Map.empty, gs_log = 0\<rparr>"
  have d: "ast_ok d" "refs d = {}" "ast_type d = pf_return_type p" using assms Some by (simp_all add: psf_ok_def)
  obtain v s1 where c: "code d ?s0 = Some (Some v, s1)" "value_type v = llvmConvertType (pf_return_type p)" "gs_log s1 = 0"
    using code_gives [OF d(1), of ?s0] d(2,3) by (auto simp: fields_ready_def gives_def)
  have m: "moves 2 1 ?s0 s1" by (rule code_localD [OF code_moves c(1)]) (simp add: inside_def)
  have "stores s1 = {}" using m by (simp add: moves_def) (auto simp: stores_def less_Suc_eq)
  moreover have l: "gs_cur s1 < length (gs_blocks s1)" using m by (simp add: moves_def inside_def)
  ultimately have "stores (emit (Ret (ConstInt I1 1)) (emit (Store v) s1)) = {v}"
    by (simp add: stores_emit)
  then show ?thesis using c Some by (auto simp: default_block_def emit_with_def)
qed

text \<open>
  For a PSF whose expressions are well-typed, with a default value that refers to no field, the
  compiler generates a function without any message, and both the default block and the body
  store a value of the type of the PSF.
\<close>

lemma generate_typed:
  assumes "psf_ok p ids"
  shows "\<exists>s. generate p ids = Some (map (fst \<circ> snd) ids, s) \<and> gs_log s = 0 \<and> stores s \<noteq> {} \<and>
    (\<forall>v \<in> stores s. value_type v = llvmConvertType (pf_return_type p))"
proof -
  obtain s0 where s0: "default_block p = Some s0" "gs_log s0 = 0"
    "\<forall>v \<in> stores s0. value_type v = llvmConvertType (pf_return_type p)"
    using default_block_typed [OF assms] by blast
  let ?s1 = "snd (CreateBlock (SetInsertPoint 0 s0))"
  have k1: "stores ?s1 = stores s0" "gs_log ?s1 = 0"
    using s0(2) by (simp_all add: stores_CreateBlock) (simp add: stores_def SetInsertPoint_def)
  obtain b s2 where s2: "field_checks 1 ids (length (gs_blocks s0)) ?s1 = Some (b, s2)" "check_state b s2"
    "stores s2 = stores s0" "gs_log s2 = 0"
    "\<forall>(i, json, t) \<in> set ids. \<exists>v. gs_values s2 i = Some v \<and> value_type v = llvmConvertType t"
    using field_checks_result [OF default_block_result [OF s0(1)], of ids 1] assms unfolding k1 by (auto simp: psf_ok_def)
  have ok: "ast_ok (pf_ret p)" "fields_ready (refs (pf_ret p)) s2" "pf_return_type p = ast_type (pf_ret p)"
    using assms s2(5) by (fastforce simp: psf_ok_def fields_ready_def)+
  obtain v s3 where v: "code (pf_ret p) s2 = Some (Some v, s3)" "value_type v = llvmConvertType (pf_return_type p)"
    "gs_log s3 = 0"
    using code_gives [OF ok(1,2)] s2(4) ok(3) by (auto simp: gives_def)
  have m: "moves 0 (gs_cur s2) s2 s3"
    by (rule code_localD [OF code_moves v(1)]) (use s2(2) in \<open>simp add: inside_def check_state_def\<close>)
  then have "stores (emit (Ret (ConstInt I1 1)) (emit (Store v) s3)) = stores s0 \<union> {v}"
    by (auto simp: moves_def inside_def stores_emit s2(3))
  then show ?thesis
    using s0 v s2(1) by (auto simp: generate_default_block emit_with_def)
qed

text \<open>
  C36: every function that the compiler generates has an empty basic block, without the
  terminator that LLVM requires: the block prepared for one more field check is never used.
\<close>

theorem generate_open_block:
  assumes "generate p ids = Some (fs, s)"
  shows "\<exists>b < length (gs_blocks s). gs_blocks s ! b = []"
proof -
  obtain s0 where s0: "default_block p = Some s0"
    using assms by (auto simp: generate_default_block split: option.splits)
  let ?s1 = "snd (CreateBlock (SetInsertPoint 0 s0))"
  obtain b s2 v s3 where s2: "field_checks 1 ids (length (gs_blocks s0)) ?s1 = Some (b, s2)"
    and v: "code (pf_ret p) s2 = Some (Some v, s3)" and s: "s = emit (Ret (ConstInt I1 1)) (emit (Store v) s3)"
    using assms by (auto simp: generate_default_block s0 emit_with_def split: option.splits)
  have b: "check_state b s2" using field_checks_state [OF s2 default_block_result [OF s0]] .
  let ?n = "length (gs_blocks s2)"
  have m: "moves ?n (gs_cur s2) s2 s3"
    by (rule code_localD [OF code_moves v]) (use b in \<open>simp add: inside_def check_state_def\<close>)
  then have "gs_blocks s3 ! b = []" "b < length (gs_blocks s3)" "gs_cur s3 \<noteq> b"
    using b by (auto simp: moves_def check_state_def inside_def)
  then show ?thesis by (auto simp: s emit_def intro!: exI [of _ b])
qed

text \<open>
  C35: an equality whose left operand is an integer and whose right operand is a double is
  compiled without a message to an integer comparison of two doubles, which has no type; with
  the operands exchanged the comparison is well-typed.
\<close>

theorem int_eq_double_ill_typed:
  assumes "ast_ok e" "ast_ok d" "fields_ready (refs e) s" "fields_ready (refs d) s"
    and "num (ast_type e)" "isIntType (ast_type e)" "ast_type d = DOUBLE_T"
  shows "(\<exists>v s'. code (BinaryOpExprAst e d Op_EQ) s = Some (Some v, s') \<and> value_type v = None \<and> gs_log s' = gs_log s) \<and>
    gives BOOL_T s (code (BinaryOpExprAst d e Op_EQ) s)"
proof
  have ok: "ast_ok (BinaryOpExprAst d e Op_EQ)" using assms by (simp add: num_def)
  from code_gives [OF ok, of s] show "gives BOOL_T s (code (BinaryOpExprAst d e Op_EQ) s)"
    using assms(3,4) by (simp del: code.simps)
  obtain v s1 where v: "code e s = Some (Some v, s1)" "value_type v = llvmConvertType (ast_type e)"
    "gs_values s1 = gs_values s" "gs_log s1 = gs_log s"
    using code_gives [OF assms(1,3)] by (rule givesE)
  have "fields_ready (refs d) s1" using assms(4) fields_ready_cong [OF v(3)] by simp
  from code_gives [OF assms(2) this] obtain w s2 where
    w: "code d s1 = Some (Some w, s2)" "value_type w = llvmConvertType DOUBLE_T" "gs_log s2 = gs_log s1"
    unfolding assms(7) by (rule givesE)
  obtain v' where v': "castToTarget (Some v) (ast_type e) DOUBLE_T s2 = Some (Some v', s2)" "value_type v' = Some Double"
    using castToTarget_gives [OF assms(5) _ v(2), of DOUBLE_T s2] by (auto simp: num_def)
  have "binary_code Op_EQ (ast_type e) DOUBLE_T (Some v) (Some w) s2 = Some (Some (ICmp CEQ v' w), s2)"
    using assms(5,6) v'
    by (auto simp: binary_code_def args_type_of_def arith_def castToTarget_def [of _ DOUBLE_T DOUBLE_T] build2_def
        assert_msg_def Let_def)
  then show "\<exists>v s'. code (BinaryOpExprAst e d Op_EQ) s = Some (Some v, s') \<and> value_type v = None \<and> gs_log s' = gs_log s"
    using v w v' by (auto simp: assms(7) same_int_def)
qed

text \<open>A comparison of strings calls the comparison with two arguments, which is declared with one.\<close>

lemma string_eq_ill_typed:
  assumes "code l s = Some (Some v, s1)" "code r s1 = Some (Some w, s2)" "ast_type l = STR_T" "ast_type r = STR_T"
  shows "code (BinaryOpExprAst l r Op_EQ) s = Some (Some (ICmp CEQ (CallStrCmp [v, w]) (ConstInt I32 0)), s2) \<and>
    value_type (ICmp CEQ (CallStrCmp [v, w]) (ConstInt I32 0)) = None"
  using assms
  by (simp add: binary_code_def args_type_of_def castToTarget_def string_cmp_def build2_def same_int_def str_cmp_params_def)

text \<open>
  In a ternary expression whose true branch is a ternary expression the value of that branch
  comes from its merge block, but the outer phi names the block the branch starts in, from
  which no branch goes to the outer merge block.
\<close>

definition branches_to :: "nat \<Rightarrow> llvm_inst list \<Rightarrow> bool" where
  "branches_to b is = list_ex (\<lambda>i. case i of Br c \<Rightarrow> c = b | CondBr _ c d \<Rightarrow> c = b \<or> d = b | _ \<Rightarrow> False) is"

definition nested_ternary :: expr_ast where
  "nested_ternary = TernaryOpExprAst (LitBoolAst True)
     (TernaryOpExprAst (LitBoolAst True) (LitInt32Ast 1) (LitInt32Ast 2)) (LitInt32Ast 3)"

lemma nested_ternary_wrong_phi:
  "\<exists>v s. code nested_ternary \<lparr>gs_blocks = [[]], gs_cur = 0, gs_values = Map.empty, gs_log = 0\<rparr> =
      Some (Some (Phi I32 v 1 (ConstInt I32 3) 2), s) \<and> gs_cur s = 3 \<and> \<not> branches_to 3 (gs_blocks s ! 1)"
  by (simp add: nested_ternary_def CreateBlock_def SetInsertPoint_def emit_def emit_with_def phi_code_def build2_def
      branches_to_def)


section \<open>Runs\<close>

definition demo_psf :: psf_function_ast where
  "demo_psf = fst (PsfFunctionAst_create ''p'' (Some (LitInt32Ast 0))
     (BinaryOpExprAst (JsonRefAst 0 ''a'' INT32_T) (LitInt32Ast 1) Op_PLUS) 0)"

definition demo_ids :: "(nat \<times> string \<times> data_type) list" where "demo_ids = [(0, ''a'', INT32_T)]"

theorem generate_open_block_witness:
  "case generate demo_psf demo_ids of None \<Rightarrow> False
   | Some (fs, s) \<Rightarrow> \<exists>b < length (gs_blocks s). gs_blocks s ! b = []"
proof -
  have "generate demo_psf demo_ids \<noteq> None" by code_simp
  then obtain fs s where g: "generate demo_psf demo_ids = Some (fs, s)" by auto
  from generate_open_block [OF g] show ?thesis by (simp add: g)
qed

theorem int_eq_double_ill_typed_witness:
  "\<exists>v s'. code (BinaryOpExprAst (LitInt32Ast 1) (LitDoubleAst 0) Op_EQ)
      \<lparr>gs_blocks = [[]], gs_cur = 0, gs_values = Map.empty, gs_log = 0\<rparr> = Some (Some v, s') \<and>
    value_type v = None \<and> gs_log s' = 0"
  using int_eq_double_ill_typed [of "LitInt32Ast 1" "LitDoubleAst 0"
      "\<lparr>gs_blocks = [[]], gs_cur = 0, gs_values = Map.empty, gs_log = 0\<rparr>"]
  by (simp add: fields_ready_def num_def del: code.simps)

end
