(* ===== verification/Text.thy ===== *)
theory Text
  imports Prelude
begin

text \<open>
  The text formats the store uses: decimal numbers as \<open>fprintf\<close> and \<open>std::to_string\<close> write them, and
  the words and numbers that \<open>operator>>\<close> of an input stream extracts. An extraction takes the
  characters left in the stream and gives the value and the characters left after it; None is a
  failed extraction. A sign before an unsigned number, which nothing writes, is not modelled.
\<close>

section \<open>Decimal numbers\<close>

definition digit :: "char \<Rightarrow> bool" where
  "digit c \<longleftrightarrow> 48 \<le> (of_char c :: nat) \<and> (of_char c :: nat) \<le> 57"

fun nat_text :: "nat \<Rightarrow> string" where
  "nat_text n = (if n < 10 then [char_of (48 + n)] else nat_text (n div 10) @ [char_of (48 + n mod 10)])"

declare nat_text.simps [simp del]

definition digits_value :: "string \<Rightarrow> nat" where
  "digits_value = foldl (\<lambda>n c. 10 * n + (of_char c - 48)) 0"

definition int_text :: "int \<Rightarrow> string" where
  "int_text k = (if k < 0 then ''-'' @ nat_text (nat (- k)) else nat_text (nat k))"

lemma of_char_digit: "n < 10 \<Longrightarrow> (of_char (char_of (48 + n) :: char) :: nat) = 48 + n"
  by (simp add: of_char_of)

lemma nat_text_digits: "nat_text n \<noteq> [] \<and> list_all digit (nat_text n)"
proof (induction n rule: nat_text.induct)
  case (1 n)
  show ?case
  proof (cases "n < 10")
    case True
    then show ?thesis by (simp add: nat_text.simps [of n] digit_def of_char_digit)
  next
    case False
    have "n mod 10 < 10" by simp
    then show ?thesis using 1 False by (simp add: nat_text.simps [of n] digit_def of_char_digit)
  qed
qed

lemma digits_value_nat_text: "digits_value (nat_text n) = n"
proof (induction n rule: nat_text.induct)
  case (1 n)
  show ?case
  proof (cases "n < 10")
    case True
    then show ?thesis by (simp add: nat_text.simps [of n] digits_value_def of_char_digit)
  next
    case False
    have "n mod 10 < 10" by simp
    then show ?thesis using 1 False by (simp add: nat_text.simps [of n] digits_value_def of_char_digit)
  qed
qed


section \<open>Extraction from a stream\<close>

definition isspace :: "char \<Rightarrow> bool" where
  "isspace c \<longleftrightarrow> c = CHR '' '' \<or> (9 \<le> (of_char c :: nat) \<and> (of_char c :: nat) \<le> 13)"

abbreviation skipws :: "string \<Rightarrow> string" where
  "skipws \<equiv> dropWhile isspace"

definition extract_word :: "string \<Rightarrow> (string \<times> string) option" where
  "extract_word s = (let s = skipws s in
     if s = [] then None else Some (takeWhile (\<lambda>c. \<not> isspace c) s, dropWhile (\<lambda>c. \<not> isspace c) s))"

definition extract_digits :: "string \<Rightarrow> (nat \<times> string) option" where
  "extract_digits s =
     (if takeWhile digit s = [] then None else Some (digits_value (takeWhile digit s), dropWhile digit s))"

definition extract_unsigned :: "nat \<Rightarrow> string \<Rightarrow> (nat \<times> string) option" where
  "extract_unsigned w s = (case extract_digits (skipws s) of
     None \<Rightarrow> None
   | Some (n, rest) \<Rightarrow> if n < 2 ^ w then Some (n, rest) else None)"

definition extract_signed :: "nat \<Rightarrow> string \<Rightarrow> (int \<times> string) option" where
  "extract_signed w s = (case skipws s of
     [] \<Rightarrow> None
   | c # cs \<Rightarrow>
       (case extract_digits (if c = CHR ''-'' \<or> c = CHR ''+'' then cs else c # cs) of
          None \<Rightarrow> None
        | Some (n, rest) \<Rightarrow>
            let k = (if c = CHR ''-'' then - int n else int n) in
            if - (2 ^ (w - 1)) \<le> k \<and> k < 2 ^ (w - 1) then Some (k, rest) else None))"

text \<open>What a word is: what an extraction gives back when a space follows it.\<close>

definition word_text :: "string \<Rightarrow> bool" where
  "word_text t \<longleftrightarrow> t \<noteq> [] \<and> list_all (\<lambda>c. \<not> isspace c) t"

lemma digit_not_space: "digit c \<Longrightarrow> \<not> isspace c"
  by (auto simp: digit_def isspace_def)

lemma isspace_simps [simp]: "isspace CHR '' ''" "isspace CHR 0x0A"
  by (simp_all add: isspace_def)

lemma extract_word_text:
  assumes "word_text t" "isspace c"
  shows "extract_word (t @ c # s) = Some (t, c # s)"
proof -
  have "takeWhile (\<lambda>c. \<not> isspace c) (t @ c # s) = t" "dropWhile (\<lambda>c. \<not> isspace c) (t @ c # s) = c # s"
    using assms by (auto simp: word_text_def list_all_iff takeWhile_append2 dropWhile_append2)
  moreover have "skipws (t @ c # s) = t @ c # s" using assms(1) by (cases t) (auto simp: word_text_def)
  ultimately show ?thesis by (simp add: extract_word_def)
qed

lemma extract_digits_text:
  assumes "isspace c"
  shows "extract_digits (nat_text n @ c # s) = Some (n, c # s)"
proof -
  have "\<not> digit c" using assms digit_not_space by blast
  then have "takeWhile digit (nat_text n @ c # s) = nat_text n" "dropWhile digit (nat_text n @ c # s) = c # s"
    using nat_text_digits [of n] by (auto simp: list_all_iff takeWhile_append2 dropWhile_append2)
  then show ?thesis using nat_text_digits [of n] digits_value_nat_text [of n] by (simp add: extract_digits_def)
qed

lemma nat_text_Cons: "\<exists>c cs. nat_text n = c # cs \<and> digit c"
  using nat_text_digits [of n] by (cases "nat_text n") auto

lemma extract_unsigned_text:
  assumes "n < 2 ^ w" "isspace c"
  shows "extract_unsigned w (nat_text n @ c # s) = Some (n, c # s)"
proof -
  have "skipws (nat_text n @ c # s) = nat_text n @ c # s"
    using nat_text_Cons [of n] digit_not_space by auto
  then show ?thesis using assms by (simp add: extract_unsigned_def extract_digits_text)
qed

lemma extract_signed_text:
  assumes "- (2 ^ (w - 1)) \<le> k" "k < 2 ^ (w - 1)" "isspace c"
  shows "extract_signed w (int_text k @ c # s) = Some (k, c # s)"
proof (cases "k < 0")
  case True
  have "\<not> isspace CHR ''-''" by (simp add: isspace_def)
  then show ?thesis using True assms by (simp add: extract_signed_def int_text_def extract_digits_text)
next
  case False
  obtain d ds where d: "nat_text (nat k) = d # ds" "digit d" using nat_text_Cons by blast
  have "d \<noteq> CHR ''-''" "d \<noteq> CHR ''+''" "\<not> isspace d" using d(2) digit_not_space by (auto simp: digit_def)
  then show ?thesis
    using False assms d(1) extract_digits_text [OF assms(3), of "nat k" s] by (simp add: extract_signed_def int_text_def)
qed

lemma skipws_idem [simp]: "skipws (skipws s) = skipws s"
  by (induction s) auto

lemma skipws_space: "isspace c \<Longrightarrow> skipws (c # s) = skipws s"
  by simp

lemma extract_word_skipws: "extract_word (skipws s) = extract_word s"
  by (simp add: extract_word_def Let_def)

lemma extract_unsigned_skipws: "extract_unsigned w (skipws s) = extract_unsigned w s"
  by (simp add: extract_unsigned_def)

lemma extract_signed_skipws: "extract_signed w (skipws s) = extract_signed w s"
  by (simp add: extract_signed_def)

end
