(* ===== verification/Ezpsf_Visitor.thy ===== *)
theory Ezpsf_Visitor
  imports Ezpsf_Typing Text
begin

text \<open>
  The front end of EzPSF: the parse trees of the grammar, as the generated parser hands them
  to the visitor of \<open>jit/ezpsf_visitor.h\<close>, the visitor, and \<open>getPsf\<close> of \<open>jit/ezpsf.h\<close>; and the
  functions that generated code calls (\<open>jit/datatypes/conversion_declaration.h\<close> and
  \<open>str_info.h\<close>). A visit that fails returns a null pointer, which the enclosing visit turns
  into a failure of its own after printing a message.
\<close>

section \<open>Parse trees\<close>

datatype type_ctx = Ty_STR | Ty_BYTE | Ty_INT32 | Ty_INT64 | Ty_UINT32 | Ty_UINT64 | Ty_FLOAT | Ty_DOUBLE | Ty_BOOL

datatype literal_ctx = Lit_INT string | Lit_FLOAT string | Lit_STRING string | Lit_TRUE | Lit_FALSE | Lit_NULL

datatype expr_ctx =
    IdExpr type_ctx string
  | LitExpr literal_ctx
  | ParenExpr expr_ctx
  | BarExpr expr_ctx
  | CastExpr expr_ctx type_ctx
  | IndexExpr expr_ctx expr_ctx
  | PreUnaryExpr operator expr_ctx
  | MultiDivExpr expr_ctx operator expr_ctx
  | PlusMinusExpr expr_ctx operator expr_ctx
  | CmpExpr expr_ctx operator expr_ctx
  | BitAndExpr expr_ctx expr_ctx
  | BitXorExpr expr_ctx expr_ctx
  | BitOrExpr expr_ctx expr_ctx
  | AndExpr expr_ctx expr_ctx
  | OrExpr expr_ctx expr_ctx
  | TernaryExpr expr_ctx expr_ctx expr_ctx

text \<open>An operator token is written as the operator to which the visitor maps it.\<close>

record psf_ctx =
  px_name :: "string option"
  px_ret :: expr_ctx
  px_default :: "expr_ctx option"


section \<open>Literals and types\<close>

text \<open>
  \<open>std::stoi\<close> reads the leading digits and ignores the rest; it throws when there are none and
  when the number does not fit.
\<close>

definition stoi :: "string \<Rightarrow> int option" where
  "stoi text = (let ds = takeWhile digit text;
                    n = fold (\<lambda>c n. 10 * n + (of_char c - 48)) ds (0 :: int)
                in if ds = [] \<or> n > 2 ^ 31 - 1 then None else Some n)"

record visitor_state =
  vs_used :: "(nat \<times> string \<times> data_type) list"
  vs_log :: nat

definition vs_msg :: "nat \<Rightarrow> visitor_state \<Rightarrow> visitor_state" where
  "vs_msg n st = st\<lparr>vs_log := vs_log st + n\<rparr>"

fun visitLiteral :: "(string \<Rightarrow> u64 option) \<Rightarrow> literal_ctx \<Rightarrow> visitor_state \<Rightarrow> expr_ast option \<times> visitor_state" where
  "visitLiteral stod (Lit_INT text) st =
     (case stoi text of Some v \<Rightarrow> (Some (LitInt32Ast v), st) | None \<Rightarrow> (None, vs_msg 1 st))"
| "visitLiteral stod (Lit_FLOAT text) st =
     (case stod text of Some v \<Rightarrow> (Some (LitDoubleAst v), st) | None \<Rightarrow> (None, vs_msg 1 st))"
| "visitLiteral stod (Lit_STRING text) st = (Some (LitStringAst (take (length text - 1) (drop 1 text))), st)"
| "visitLiteral stod Lit_TRUE st = (Some (LitBoolAst True), st)"
| "visitLiteral stod Lit_FALSE st = (Some (LitBoolAst False), st)"
| "visitLiteral stod Lit_NULL st = (None, vs_msg 2 st)"

fun visitType :: "type_ctx \<Rightarrow> data_type" where
  "visitType Ty_STR = STR_T"
| "visitType Ty_BYTE = INT8_T"
| "visitType Ty_INT32 = INT32_T"
| "visitType Ty_INT64 = INT64_T"
| "visitType Ty_UINT32 = UINT32_T"
| "visitType Ty_UINT64 = UINT64_T"
| "visitType Ty_FLOAT = FLOAT_T"
| "visitType Ty_DOUBLE = DOUBLE_T"
| "visitType Ty_BOOL = BOOL_T"

text \<open>A field reference enters itself into \<open>used_ids\<close>.\<close>

definition visitAnyId :: "type_ctx \<Rightarrow> string \<Rightarrow> visitor_state \<Rightarrow> expr_ast option \<times> visitor_state" where
  "visitAnyId t json st =
     (let i = length (vs_used st) in
      (Some (JsonRefAst i json (visitType t)), st\<lparr>vs_used := vs_used st @ [(i, json, visitType t)]\<rparr>))"


section \<open>Expressions\<close>

text \<open>One, two and three operands, visited from the left; a null operand is a failed \<open>any_cast\<close>.\<close>

definition visit1 :: "(visitor_state \<Rightarrow> expr_ast option \<times> visitor_state) \<Rightarrow> (expr_ast \<Rightarrow> expr_ast) \<Rightarrow>
    visitor_state \<Rightarrow> expr_ast option \<times> visitor_state" where
  "visit1 v f st = (case v st of
     (Some e, st) \<Rightarrow> (Some (f e), st)
   | (None, st) \<Rightarrow> (None, vs_msg 1 st))"

definition visit2 :: "(visitor_state \<Rightarrow> expr_ast option \<times> visitor_state) \<Rightarrow> (visitor_state \<Rightarrow> expr_ast option \<times> visitor_state) \<Rightarrow>
    (expr_ast \<Rightarrow> expr_ast \<Rightarrow> expr_ast) \<Rightarrow> visitor_state \<Rightarrow> expr_ast option \<times> visitor_state" where
  "visit2 v w f st = (case v st of
     (Some l, st) \<Rightarrow> visit1 w (f l) st
   | (None, st) \<Rightarrow> (None, vs_msg 1 st))"

text \<open>The checks of the constructors only print.\<close>

definition short_circuit_checks :: "expr_ast option \<times> visitor_state \<Rightarrow> expr_ast option \<times> visitor_state" where
  "short_circuit_checks r = (case r of
     (Some (ShortCircuitOpExprAst e f op), st) \<Rightarrow>
       (Some (ShortCircuitOpExprAst e f op),
        vs_msg (of_bool (ast_type e \<noteq> BOOL_T) + of_bool (ast_type f \<noteq> BOOL_T)) st)
   | _ \<Rightarrow> r)"

definition ternary_checks :: "expr_ast option \<times> visitor_state \<Rightarrow> expr_ast option \<times> visitor_state" where
  "ternary_checks r = (case r of
     (Some (TernaryOpExprAst b t f), st) \<Rightarrow>
       (Some (TernaryOpExprAst b t f),
        vs_msg (of_bool (ast_type t \<noteq> ast_type t) + of_bool (ast_type b \<noteq> BOOL_T)) st)
   | _ \<Rightarrow> r)"

primrec visit :: "(string \<Rightarrow> u64 option) \<Rightarrow> expr_ctx \<Rightarrow> visitor_state \<Rightarrow> expr_ast option \<times> visitor_state" where
  "visit stod (IdExpr t json) = visitAnyId t json"
| "visit stod (LitExpr lit) = visitLiteral stod lit"
| "visit stod (ParenExpr e) = visit stod e"
| "visit stod (BarExpr e) = visit1 (visit stod e) (\<lambda>e. UnaryOpExprAst e Op_BAR)"
| "visit stod (CastExpr e t) = visit1 (visit stod e) (\<lambda>e. CastExprAst e (visitType t))"
| "visit stod (IndexExpr e i) = (\<lambda>st. (None, vs_msg 1 st))"
| "visit stod (PreUnaryExpr op e) = visit1 (visit stod e) (\<lambda>e. UnaryOpExprAst e op)"
| "visit stod (MultiDivExpr l op r) = visit2 (visit stod l) (visit stod r) (\<lambda>l r. BinaryOpExprAst l r op)"
| "visit stod (PlusMinusExpr l op r) = visit2 (visit stod l) (visit stod r) (\<lambda>l r. BinaryOpExprAst l r op)"
| "visit stod (CmpExpr l op r) = visit2 (visit stod l) (visit stod r) (\<lambda>l r. BinaryOpExprAst l r op)"
| "visit stod (BitAndExpr l r) = visit2 (visit stod l) (visit stod r) (\<lambda>l r. BinaryOpExprAst l r Op_BIT_AND)"
| "visit stod (BitXorExpr l r) = visit2 (visit stod l) (visit stod r) (\<lambda>l r. BinaryOpExprAst l r Op_BIT_XOR)"
| "visit stod (BitOrExpr l r) = visit2 (visit stod l) (visit stod r) (\<lambda>l r. BinaryOpExprAst l r Op_BIT_OR)"
| "visit stod (AndExpr l r) = (\<lambda>st. short_circuit_checks
     (visit2 (visit stod l) (visit stod r) (\<lambda>l r. ShortCircuitOpExprAst l r Op_AND) st))"
| "visit stod (OrExpr l r) = (\<lambda>st. short_circuit_checks
     (visit2 (visit stod l) (visit stod r) (\<lambda>l r. ShortCircuitOpExprAst l r Op_OR) st))"
| "visit stod (TernaryExpr b t f) = (\<lambda>st. ternary_checks
     (case visit stod b st of
        (Some b, st) \<Rightarrow> visit2 (visit stod t) (visit stod f) (\<lambda>t f. TernaryOpExprAst b t f) st
      | (None, st) \<Rightarrow> (None, vs_msg 1 st)))"


section \<open>PSFs\<close>

text \<open>The default value is visited first; the counter numbers the anonymous PSFs.\<close>

definition createPsf :: "(string \<Rightarrow> u64 option) \<Rightarrow> psf_ctx \<Rightarrow> nat \<Rightarrow> visitor_state \<Rightarrow>
    psf_function_ast option \<times> nat \<times> visitor_state" where
  "createPsf stod px counter st =
     (let (name, counter) = (case px_name px of
            None \<Rightarrow> (''anonymousPsf'' @ nat_text counter, Suc counter)
          | Some json \<Rightarrow> (json, counter))
      in case (case px_default px of
                 None \<Rightarrow> (Some None, st)
               | Some d \<Rightarrow> (case visit stod d st of (v, st) \<Rightarrow> (map_option Some v, st))) of
           (None, st) \<Rightarrow> (None, counter, vs_msg 1 st)
         | (Some default_value, st) \<Rightarrow>
             (case visit stod (px_ret px) st of
                (None, st) \<Rightarrow> (None, counter, vs_msg 1 st)
              | (Some ret, st) \<Rightarrow>
                  (case PsfFunctionAst_create name default_value ret (vs_log st) of
                     (p, log) \<Rightarrow> (Some p, counter, st\<lparr>vs_log := log\<rparr>))))"

record psf_info =
  pi_name :: string
  pi_type :: data_type
  pi_fields :: "string list"
  pi_code :: gen_state

text \<open>
  \<open>getPsf\<close>: None is the use of a null tree or a null function; after generation \<open>used_ids\<close> is
  empty again.
\<close>

definition getPsf :: "(string \<Rightarrow> u64 option) \<Rightarrow> psf_ctx \<Rightarrow> nat \<Rightarrow> (psf_info \<times> nat) option" where
  "getPsf stod px counter =
     (case createPsf stod px counter \<lparr>vs_used = [], vs_log = 0\<rparr> of
        (None, _) \<Rightarrow> None
      | (Some p, counter, st) \<Rightarrow>
          map_option (\<lambda>(fs, s). (\<lparr>pi_name = pf_name p, pi_type = pf_return_type p, pi_fields = fs, pi_code = s\<rparr>, counter))
            (generate p (vs_used st)))"


section \<open>What generated code calls\<close>

text \<open>The extraction functions: \<open>get\<close> is the accessor of the adapter for the type; a field that is not there throws.\<close>

definition conversion_get :: "('f \<Rightarrow> bool \<times> 'v) \<Rightarrow> 'f list \<Rightarrow> nat \<Rightarrow> (bool \<times> 'v) option" where
  "conversion_get get rec field_identifier =
     (if field_identifier < length rec then Some (get (rec ! field_identifier)) else None)"

text \<open>\<open>std::strncmp\<close> stops at a null byte; only the sign of its result is specified.\<close>

fun strncmp :: "u8 list \<Rightarrow> u8 list \<Rightarrow> nat \<Rightarrow> int" where
  "strncmp (a # as) (b # bs) (Suc n) =
     (if a \<noteq> b then (if a < b then -1 else 1) else if a = 0 then 0 else strncmp as bs n)"
| "strncmp _ _ _ = 0"

definition FUNC_STR_CMP :: "u8 list \<Rightarrow> u8 list \<Rightarrow> int" where
  "FUNC_STR_CMP s1 s2 =
     (let num_to_cmp = min (length s1) (length s2); result = strncmp s1 s2 num_to_cmp in
      if result = 0 then sint (word_of_int (int (length s1) - int (length s2)) :: u32) else result)"


section \<open>Field references of a visited expression\<close>

definition ref_of :: "nat \<times> string \<times> data_type \<Rightarrow> nat \<times> data_type" where
  "ref_of = (\<lambda>(i, json, t). (i, t))"

text \<open>A visit that succeeds appends exactly the field references of its expression, numbered on.\<close>

definition enters :: "visitor_state \<Rightarrow> (nat \<times> data_type) set \<Rightarrow> visitor_state \<Rightarrow> bool" where
  "enters st rs st' \<longleftrightarrow> (\<exists>new. vs_used st' = vs_used st @ new \<and> ref_of ` set new = rs \<and>
     map fst new = [length (vs_used st)..<length (vs_used st) + length new])"

lemma enters_refl: "vs_used st' = vs_used st \<Longrightarrow> enters st {} st'"
  by (simp add: enters_def)

lemma enters_msg [simp]: "enters st rs (vs_msg n st') = enters st rs st'"
  by (simp add: enters_def vs_msg_def)

lemma enters_trans:
  assumes "enters st rs st'" "enters st' rs' st''"
  shows "enters st (rs \<union> rs') st''"
proof -
  from assms obtain new new' where "vs_used st' = vs_used st @ new" "ref_of ` set new = rs"
    "map fst new = [length (vs_used st)..<length (vs_used st) + length new]"
    "vs_used st'' = vs_used st' @ new'" "ref_of ` set new' = rs'"
    "map fst new' = [length (vs_used st')..<length (vs_used st') + length new']"
    by (auto simp: enters_def)
  then have "vs_used st'' = vs_used st @ (new @ new')" "ref_of ` set (new @ new') = rs \<union> rs'"
    "map fst (new @ new') = [length (vs_used st)..<length (vs_used st) + length (new @ new')]"
    using upt_add_eq_append [of "length (vs_used st)" "length (vs_used st) + length new" "length new'"]
    by (simp_all add: image_Un add.assoc [symmetric])
  then show ?thesis unfolding enters_def by blast
qed

lemma visit1_Some:
  "visit1 v f st = (Some a, st') \<Longrightarrow> \<exists>e. v st = (Some e, st') \<and> a = f e"
  by (auto simp: visit1_def split: prod.splits option.splits)

lemma visit2_Some:
  "visit2 v w f st = (Some a, st') \<Longrightarrow> \<exists>l st1 r. v st = (Some l, st1) \<and> w st1 = (Some r, st') \<and> a = f l r"
  by (auto simp: visit2_def split: prod.splits option.splits dest!: visit1_Some)

lemma enters_cong: "vs_used st' = vs_used st1 \<Longrightarrow> enters st rs st' = enters st rs st1"
  by (simp add: enters_def)

lemma checks_Some:
  "short_circuit_checks r = (Some a, st') \<Longrightarrow> \<exists>st1. r = (Some a, st1) \<and> vs_used st' = vs_used st1"
  "ternary_checks r = (Some a, st') \<Longrightarrow> \<exists>st1. r = (Some a, st1) \<and> vs_used st' = vs_used st1"
  by (cases r; simp add: short_circuit_checks_def ternary_checks_def split: option.splits expr_ast.splits;
      auto simp: vs_msg_def)+

lemma visit2_enters:
  assumes "visit2 v w f st = (Some a, st')" "\<And>l r. refs (f l r) = refs l \<union> refs r"
    and "\<And>l st1. v st = (Some l, st1) \<Longrightarrow> enters st (refs l) st1"
    and "\<And>st1 r st2. w st1 = (Some r, st2) \<Longrightarrow> enters st1 (refs r) st2"
  shows "enters st (refs a) st'"
  using visit2_Some [OF assms(1)] assms(2-4) enters_trans by metis

lemma visitLiteral_enters: "visitLiteral stod lit st = (Some a, st') \<Longrightarrow> enters st (refs a) st'"
  by (cases lit) (auto split: option.splits intro: enters_refl)

lemma visit_enters: "visit stod e st = (Some a, st') \<Longrightarrow> enters st (refs a) st'"
proof (induction e arbitrary: st a st')
  case (IdExpr t json)
  then show ?case by (auto simp: visitAnyId_def Let_def enters_def ref_of_def)
next
  case (TernaryExpr b t f)
  obtain st1 where c: "(case visit stod b st of
        (Some b, st) \<Rightarrow> visit2 (visit stod t) (visit stod f) (\<lambda>t f. TernaryOpExprAst b t f) st
      | (None, st) \<Rightarrow> (None, vs_msg 1 st)) = (Some a, st1)" and u: "vs_used st' = vs_used st1"
    using checks_Some(2) [OF TernaryExpr.prems [unfolded visit.simps]] by blast
  obtain b' st2 where v1: "visit stod b st = (Some b', st2)"
    using c by (cases "visit stod b st"; cases "fst (visit stod b st)") auto
  from c obtain t' st3 f' where v: "visit stod t st2 = (Some t', st3)" "visit stod f st3 = (Some f', st1)"
      "a = TernaryOpExprAst b' t' f'"
    unfolding v1 by (auto dest!: visit2_Some)
  have "enters st (refs b' \<union> refs t' \<union> refs f') st1"
    using enters_trans [OF enters_trans [OF TernaryExpr.IH(1) [OF v1] TernaryExpr.IH(2) [OF v(1)]]
      TernaryExpr.IH(3) [OF v(2)]] .
  then show ?case by (simp add: v(3) enters_cong [OF u])
next
  case (AndExpr l r)
  obtain st1 where
    v: "visit2 (visit stod l) (visit stod r) (\<lambda>l r. ShortCircuitOpExprAst l r Op_AND) st = (Some a, st1)"
      "vs_used st' = vs_used st1"
    using checks_Some(1) [OF AndExpr.prems [unfolded visit.simps]] by blast
  show ?case
    unfolding enters_cong [OF v(2)] by (rule visit2_enters [OF v(1)]) (simp, erule AndExpr.IH(1), erule AndExpr.IH(2))
next
  case (OrExpr l r)
  obtain st1 where
    v: "visit2 (visit stod l) (visit stod r) (\<lambda>l r. ShortCircuitOpExprAst l r Op_OR) st = (Some a, st1)"
      "vs_used st' = vs_used st1"
    using checks_Some(1) [OF OrExpr.prems [unfolded visit.simps]] by blast
  show ?case
    unfolding enters_cong [OF v(2)] by (rule visit2_enters [OF v(1)]) (simp, erule OrExpr.IH(1), erule OrExpr.IH(2))
next
  case (MultiDivExpr l op r)
  show ?case
    by (rule visit2_enters [OF MultiDivExpr.prems [unfolded visit.simps]]) (simp, erule MultiDivExpr.IH(1), erule MultiDivExpr.IH(2))
next
  case (PlusMinusExpr l op r)
  show ?case
    by (rule visit2_enters [OF PlusMinusExpr.prems [unfolded visit.simps]]) (simp, erule PlusMinusExpr.IH(1), erule PlusMinusExpr.IH(2))
next
  case (CmpExpr l op r)
  show ?case
    by (rule visit2_enters [OF CmpExpr.prems [unfolded visit.simps]]) (simp, erule CmpExpr.IH(1), erule CmpExpr.IH(2))
next
  case (BitAndExpr l r)
  show ?case
    by (rule visit2_enters [OF BitAndExpr.prems [unfolded visit.simps]]) (simp, erule BitAndExpr.IH(1), erule BitAndExpr.IH(2))
next
  case (BitXorExpr l r)
  show ?case
    by (rule visit2_enters [OF BitXorExpr.prems [unfolded visit.simps]]) (simp, erule BitXorExpr.IH(1), erule BitXorExpr.IH(2))
next
  case (BitOrExpr l r)
  show ?case
    by (rule visit2_enters [OF BitOrExpr.prems [unfolded visit.simps]]) (simp, erule BitOrExpr.IH(1), erule BitOrExpr.IH(2))
qed (auto dest!: visit1_Some intro: visitLiteral_enters)

lemma ast_ok_refs: "ast_ok e \<Longrightarrow> (i, t) \<in> refs e \<Longrightarrow> t \<in> set nullable_structs"
  by (induction e) auto


lemma createPsf_ret:
  assumes "(case visit stod e st0 of
        (None, st) \<Rightarrow> (None, counter, vs_msg 1 st)
      | (Some ret, st) \<Rightarrow>
          (case PsfFunctionAst_create name d ret (vs_log st) of (p, log) \<Rightarrow> (Some p, counter, st\<lparr>vs_log := log\<rparr>))) =
      (Some p, n', st)"
  shows "\<exists>st2. visit stod e st0 = (Some (pf_ret p), st2) \<and> vs_used st = vs_used st2 \<and> pf_default_value p = d \<and>
    pf_return_type p = ast_type (pf_ret p)"
proof -
  obtain r st2 where v: "visit stod e st0 = (r, st2)" by (cases "visit stod e st0")
  show ?thesis using assms by (cases r) (auto simp: v PsfFunctionAst_create_def)
qed

lemma createPsf_Some:
  assumes "createPsf stod px n st0 = (Some p, n', st)"
  shows "\<exists>st1 st2. (case px_default px of None \<Rightarrow> pf_default_value p = None \<and> st1 = st0
      | Some e \<Rightarrow> \<exists>a. visit stod e st0 = (Some a, st1) \<and> pf_default_value p = Some a) \<and>
    visit stod (px_ret px) st1 = (Some (pf_ret p), st2) \<and> vs_used st = vs_used st2 \<and> pf_return_type p = ast_type (pf_ret p)"
proof -
  obtain name counter where nm: "(case px_name px of None \<Rightarrow> (''anonymousPsf'' @ nat_text n, Suc n) | Some json \<Rightarrow> (json, n)) =
      (name, counter)" by (metis surj_pair)
  show ?thesis
  proof (cases "px_default px")
    case None
    then show ?thesis using assms unfolding createPsf_def nm by (auto dest!: createPsf_ret)
  next
    case (Some e)
    obtain r st1 where v: "visit stod e st0 = (r, st1)" by (cases "visit stod e st0")
    then show ?thesis using assms Some unfolding createPsf_def nm by (cases r) (auto dest!: createPsf_ret)
  qed
qed


section \<open>Properties\<close>



text \<open>The grammar allows underscores in a number, but \<open>std::stoi\<close> stops at the first.\<close>

lemma stoi_underscore: "stoi ''1_000'' = Some 1"
  by code_simp

text \<open>The comparison of strings decides equality, for strings without null bytes.\<close>

lemma strncmp_eq:
  "0 \<notin> set s \<Longrightarrow> 0 \<notin> set t \<Longrightarrow> strncmp s t (min (length s) (length t)) = 0 \<longleftrightarrow>
    take (min (length s) (length t)) s = take (min (length s) (length t)) t"
proof (induction s arbitrary: t)
  case (Cons a s)
  then show ?case by (cases t) auto
qed simp

lemma FUNC_STR_CMP_eq:
  assumes "0 \<notin> set s" "0 \<notin> set t" "length s < 2 ^ 31" "length t < 2 ^ 31"
  shows "FUNC_STR_CMP s t = 0 \<longleftrightarrow> s = t"
proof -
  have "sint (word_of_int k :: u32) = k" if "- (2 ^ 31) \<le> k" "k < 2 ^ 31" for k
    unfolding sint_sbintrunc' using that by (intro signed_take_bit_int_eq_self) simp_all
  from this [of "int (length s) - int (length t)"]
  have "sint (word_of_int (int (length s) - int (length t)) :: u32) = int (length s) - int (length t)"
    using assms(3,4) by (simp del: of_int_diff)
  then show ?thesis
    using strncmp_eq [OF assms(1,2)] by (cases "length s = length t") (auto simp: FUNC_STR_CMP_def Let_def)
qed


section \<open>A run\<close>

text \<open>\<open>p => (Int) a + 1 default (0)\<close>\<close>

definition demo_px :: psf_ctx where
  "demo_px = \<lparr>px_name = Some ''p'',
     px_ret = PlusMinusExpr (IdExpr Ty_INT32 ''a'') Op_PLUS (LitExpr (Lit_INT ''1'')),
     px_default = Some (LitExpr (Lit_INT ''0''))\<rparr>"


end
