(* ===== verification/Psf_Registry.thy ===== *)
theory Psf_Registry
  imports Contexts Ezpsf_Types
begin

text \<open>
  The naming service and the registry of PSFs of \<open>fishstore.h\<close> and \<open>psf.h\<close>: field identifiers,
  loaded libraries, inline and general PSFs, and the two parser states with the fields that the
  registered PSFs need. A loaded function is a value of the type \<open>'e\<close>; the functions \<open>absolute\<close>,
  \<open>dlopen\<close> and \<open>dlsym\<close> are arguments. An unordered set is a list without duplicates: its order is the order of
  insertion, and no property depends on it. None is an access outside a vector.
\<close>

section \<open>PSFs\<close>

definition LIB_PROJECTION :: int where "LIB_PROJECTION = -1"
definition LIB_EZ_PSF :: int where "LIB_EZ_PSF = -2"

datatype psf_type = INLINE | GENERAL

record 'e inline_psf =
  ip_fields :: "u16 list"
  ip_eval :: 'e
  ip_lib_id :: int
  ip_func_name :: string

record 'e general_psf =
  gp_fields :: "u16 list"
  gp_eval :: 'e
  gp_lib_id :: int
  gp_func_name :: string
  gp_ret_type :: data_type

record psf_lookup =
  pl_id :: u32
  pl_type :: psf_type

text \<open>A PSF is evaluated on the values of its fields, or gives null when one is missing.\<close>

fun psf_args :: "(u16 \<rightharpoonup> 'f) \<Rightarrow> u16 list \<Rightarrow> 'f list option" where
  "psf_args field_map [] = Some []"
| "psf_args field_map (field_id # fs) =
     (case field_map field_id of
        None \<Rightarrow> None
      | Some v \<Rightarrow> map_option (Cons v) (psf_args field_map fs))"

record ('h, 'e) psf_registry =
  field_names :: "string list"
  field_lookup_map :: "string \<rightharpoonup> u16"
  libs :: "(string \<times> 'h) list"
  inline_psf_map :: "'e inline_psf list"
  general_psf_map :: "'e general_psf list"
  named_psfs :: "string \<rightharpoonup> psf_lookup"
  psf_irs :: "(string \<times> string) list"


section \<open>The naming service\<close>

definition AcquireFieldID :: "string \<Rightarrow> ('h, 'e) psf_registry \<Rightarrow> u16 \<times> ('h, 'e) psf_registry" where
  "AcquireFieldID field r =
     (case field_lookup_map r field of
        Some field_id \<Rightarrow> (field_id, r)
      | None \<Rightarrow>
          let field_id = word_of_nat (length (field_names r)) in
          (field_id, r\<lparr>field_names := field_names r @ [field],
                       field_lookup_map := (field_lookup_map r)(field \<mapsto> field_id)\<rparr>))"

text \<open>The loop over the fields of a PSF, which may register fields on the fly.\<close>

fun acquire_fields :: "string list \<Rightarrow> ('h, 'e) psf_registry \<Rightarrow> u16 list \<times> ('h, 'e) psf_registry" where
  "acquire_fields [] r = ([], r)"
| "acquire_fields (field # flds) r =
     (let (field_id, r) = AcquireFieldID field r; (ids, r) = acquire_fields flds r in (field_id # ids, r))"

definition LoadPSFLibrary :: "(string \<Rightarrow> string) \<Rightarrow> (string \<Rightarrow> 'h option) \<Rightarrow> string \<Rightarrow> ('h, 'e) psf_registry \<Rightarrow>
    u64 \<times> ('h, 'e) psf_registry" where
  "LoadPSFLibrary absolute dlopen lib_path r =
     (let path = absolute lib_path in
      case dlopen path of
        None \<Rightarrow> (- 1, r)
      | Some h \<Rightarrow> (word_of_nat (length (libs r)), r\<lparr>libs := libs r @ [(path, h)]\<rparr>))"

definition MakeInlinePSF :: "('h \<Rightarrow> string \<Rightarrow> 'e option) \<Rightarrow> string list \<Rightarrow> nat \<Rightarrow> string \<Rightarrow>
    ('h, 'e) psf_registry \<Rightarrow> u32 \<times> ('h, 'e) psf_registry" where
  "MakeInlinePSF dlsym flds lib_id func_name r =
     (if length (libs r) \<le> lib_id then (- 1, r)
      else case dlsym (snd (libs r ! lib_id)) func_name of
             None \<Rightarrow> (- 1, r)
           | Some func_ptr \<Rightarrow>
               let (ids, r) = acquire_fields flds r;
                   psf = \<lparr>ip_fields = ids, ip_eval = func_ptr, ip_lib_id = int lib_id, ip_func_name = func_name\<rparr>;
                   inline_psf_id = length (inline_psf_map r)
               in if inline_psf_id > 2 ^ 32 - 1 then (- 1, r)
                  else (word_of_nat inline_psf_id, r\<lparr>inline_psf_map := inline_psf_map r @ [psf]\<rparr>))"

text \<open>The end of the three functions that make a general PSF.\<close>

definition add_general :: "'e general_psf \<Rightarrow> ('h, 'e) psf_registry \<Rightarrow> u16 \<times> ('h, 'e) psf_registry" where
  "add_general psf r =
     (let general_psf_id = length (general_psf_map r) in
      if general_psf_id > 2 ^ 14 - 1 then (- 1, r)
      else (word_of_nat general_psf_id, r\<lparr>general_psf_map := general_psf_map r @ [psf]\<rparr>))"

definition MakeProjection :: "'e \<Rightarrow> string \<Rightarrow> ('h, 'e) psf_registry \<Rightarrow> u16 \<times> ('h, 'e) psf_registry" where
  "MakeProjection projection field r =
     (let (field_id, r) = AcquireFieldID field r in
      add_general \<lparr>gp_fields = [field_id], gp_eval = projection, gp_lib_id = -1, gp_func_name = ''proj'',
                   gp_ret_type = ERROR_T\<rparr> r)"

definition MakeGeneralPSF :: "('h \<Rightarrow> string \<Rightarrow> 'e option) \<Rightarrow> string list \<Rightarrow> nat \<Rightarrow> string \<Rightarrow>
    ('h, 'e) psf_registry \<Rightarrow> u16 \<times> ('h, 'e) psf_registry" where
  "MakeGeneralPSF dlsym flds lib_id func_name r =
     (if length (libs r) \<le> lib_id then (- 1, r)
      else case dlsym (snd (libs r ! lib_id)) func_name of
             None \<Rightarrow> (- 1, r)
           | Some func_ptr \<Rightarrow>
               let (ids, r) = acquire_fields flds r in
               add_general \<lparr>gp_fields = ids, gp_eval = func_ptr, gp_lib_id = int lib_id, gp_func_name = func_name,
                            gp_ret_type = ERROR_T\<rparr> r)"

text \<open>A map keeps the entry it has: \<open>std::unordered_map::insert\<close>.\<close>

definition map_insert :: "'k \<Rightarrow> 'v \<Rightarrow> ('k \<rightharpoonup> 'v) \<Rightarrow> ('k \<rightharpoonup> 'v)" where
  "map_insert k v m = (if m k = None then m(k \<mapsto> v) else m)"

definition alist_insert :: "'k \<Rightarrow> 'v \<Rightarrow> ('k \<times> 'v) list \<Rightarrow> ('k \<times> 'v) list" where
  "alist_insert k v xs = (if k \<in> fst ` set xs then xs else xs @ [(k, v)])"

text \<open>The compiled PSF has its name, type, fields, code and IR.\<close>

definition MakeEzPsf :: "string \<Rightarrow> data_type \<Rightarrow> string list \<Rightarrow> 'e \<Rightarrow> string \<Rightarrow> ('h, 'e) psf_registry \<Rightarrow>
    psf_lookup \<times> ('h, 'e) psf_registry" where
  "MakeEzPsf name t flds psf ir r =
     (let r = r\<lparr>psf_irs := alist_insert name ir (psf_irs r)\<rparr>;
          (ids, r) = acquire_fields flds r
      in if canInline t
         then let inline_psf_id = length (inline_psf_map r) in
              if inline_psf_id > 2 ^ 32 - 1 then (\<lparr>pl_id = - 1, pl_type = INLINE\<rparr>, r)
              else let lookup = \<lparr>pl_id = word_of_nat inline_psf_id, pl_type = INLINE\<rparr> in
                (lookup, r\<lparr>inline_psf_map := inline_psf_map r @
                               [\<lparr>ip_fields = ids, ip_eval = psf, ip_lib_id = LIB_EZ_PSF, ip_func_name = name\<rparr>],
                           named_psfs := map_insert name lookup (named_psfs r)\<rparr>)
         else let general_psf_id = length (general_psf_map r) in
              if general_psf_id > 2 ^ 14 - 1 then (\<lparr>pl_id = - 1, pl_type = GENERAL\<rparr>, r)
              else let lookup = \<lparr>pl_id = word_of_nat general_psf_id, pl_type = INLINE\<rparr> in
                (lookup, r\<lparr>general_psf_map := general_psf_map r @
                               [\<lparr>gp_fields = ids, gp_eval = psf, gp_lib_id = LIB_EZ_PSF, gp_func_name = name,
                                 gp_ret_type = t\<rparr>],
                           named_psfs := map_insert name lookup (named_psfs r)\<rparr>))"


section \<open>Parser states\<close>

record parser_state =
  ptr_general_psf :: "u16 list"
  ptr_inline_psf :: "u32 list"
  main_parser_fields :: "string list"
  main_parser_field_ids :: "u16 list"

definition ParserState :: parser_state where
  "ParserState = \<lparr>ptr_general_psf = [], ptr_inline_psf = [], main_parser_fields = [], main_parser_field_ids = []\<rparr>"

datatype parser_action_type = REGISTER_INLINE_PSF | DEREGISTER_INLINE_PSF | REGISTER_GENERAL_PSF | DEREGISTER_GENERAL_PSF

record parser_action =
  pa_type :: parser_action_type
  pa_id :: u32

definition apply_action :: "parser_action \<Rightarrow> parser_state \<Rightarrow> parser_state" where
  "apply_action act st = (case pa_type act of
     REGISTER_INLINE_PSF \<Rightarrow> st\<lparr>ptr_inline_psf := List.insert (pa_id act) (ptr_inline_psf st)\<rparr>
   | REGISTER_GENERAL_PSF \<Rightarrow> st\<lparr>ptr_general_psf := List.insert (ucast (pa_id act)) (ptr_general_psf st)\<rparr>
   | DEREGISTER_INLINE_PSF \<Rightarrow> st\<lparr>ptr_inline_psf := removeAll (pa_id act) (ptr_inline_psf st)\<rparr>
   | DEREGISTER_GENERAL_PSF \<Rightarrow> st\<lparr>ptr_general_psf := removeAll (ucast (pa_id act)) (ptr_general_psf st)\<rparr>)"

text \<open>Access to a vector.\<close>

definition at :: "'x list \<Rightarrow> nat \<Rightarrow> 'x option" where
  "at xs i = (if i < length xs then Some (xs ! i) else None)"

fun all_some :: "'x option list \<Rightarrow> 'x list option" where
  "all_some [] = Some []"
| "all_some (x # xs) = (case x of None \<Rightarrow> None | Some y \<Rightarrow> map_option (Cons y) (all_some xs))"

text \<open>The fields of the registered PSFs, and the names under which the parser looks for them.\<close>

definition needed_fields :: "('h, 'e) psf_registry \<Rightarrow> parser_state \<Rightarrow> u16 list option" where
  "needed_fields r st =
     (case all_some (map (\<lambda>i. map_option ip_fields (at (inline_psf_map r) (unat i))) (ptr_inline_psf st)) of
        None \<Rightarrow> None
      | Some fs \<Rightarrow>
          (case all_some (map (\<lambda>i. map_option gp_fields (at (general_psf_map r) (unat i))) (ptr_general_psf st)) of
             None \<Rightarrow> None
           | Some gs \<Rightarrow> Some (fold List.insert (concat fs @ concat gs) [])))"

definition construct_parser :: "('h, 'e) psf_registry \<Rightarrow> parser_state \<Rightarrow> parser_state option" where
  "construct_parser r st =
     (case needed_fields r st of
        None \<Rightarrow> None
      | Some field_ids \<Rightarrow>
          map_option (\<lambda>names. st\<lparr>main_parser_fields := names, main_parser_field_ids := field_ids\<rparr>)
            (all_some (map (\<lambda>i. at (field_names r) (unat i)) field_ids)))"

definition ParserStateApplyActions :: "('h, 'e) psf_registry \<Rightarrow> parser_action list \<Rightarrow> parser_state \<Rightarrow> parser_state option" where
  "ParserStateApplyActions r actions st = construct_parser r (fold apply_action actions st)"


section \<open>A well-formed registry\<close>

text \<open>Names and identifiers correspond, and every PSF refers to registered fields.\<close>

definition names_ok :: "('h, 'e) psf_registry \<Rightarrow> bool" where
  "names_ok r \<longleftrightarrow> length (field_names r) \<le> 2 ^ 16 \<and>
     (\<forall>f i. field_lookup_map r f = Some i \<longleftrightarrow> unat i < length (field_names r) \<and> field_names r ! unat i = f)"

definition registry_ok :: "('h, 'e) psf_registry \<Rightarrow> bool" where
  "registry_ok r \<longleftrightarrow> names_ok r \<and>
     (\<forall>p \<in> set (inline_psf_map r). \<forall>i \<in> set (ip_fields p). unat i < length (field_names r)) \<and>
     (\<forall>p \<in> set (general_psf_map r). \<forall>i \<in> set (gp_fields p). unat i < length (field_names r))"

text \<open>Only the naming service has changed, and only by new fields at the end.\<close>

definition more_names :: "('h, 'e) psf_registry \<Rightarrow> ('h, 'e) psf_registry \<Rightarrow> bool" where
  "more_names r r' \<longleftrightarrow> (\<exists>new m. r' = r\<lparr>field_names := field_names r @ new, field_lookup_map := m\<rparr>)"

lemma more_names_refl: "more_names r r"
  unfolding more_names_def by (rule exI [of _ "[]"], rule exI [of _ "field_lookup_map r"]) simp

lemma more_names_trans: "more_names r r' \<Longrightarrow> more_names r' r'' \<Longrightarrow> more_names r r''"
  unfolding more_names_def by (elim exE, rule exI, rule exI) simp

lemma AcquireFieldID_ok:
  assumes "names_ok r" "length (field_names r) < 2 ^ 16" "AcquireFieldID f r = (i, r')"
  shows "names_ok r'" "unat i < length (field_names r')" "field_names r' ! unat i = f" "more_names r r'"
    "length (field_names r') \<le> Suc (length (field_names r))"
proof -
  have "names_ok r' \<and> unat i < length (field_names r') \<and> field_names r' ! unat i = f \<and> more_names r r' \<and>
    length (field_names r') \<le> Suc (length (field_names r))"
  proof (cases "field_lookup_map r f")
    case (Some j)
    then have "r' = r" "i = j" using assms(3) by (simp_all add: AcquireFieldID_def)
    then show ?thesis using assms(1) Some more_names_refl by (auto simp: names_ok_def)
  next
    case None
    let ?n = "length (field_names r)"
    have i: "i = word_of_nat ?n" and r': "r' = r\<lparr>field_names := field_names r @ [f], field_lookup_map := (field_lookup_map r)(f \<mapsto> i)\<rparr>"
      using assms(3) None by (auto simp: AcquireFieldID_def Let_def)
    have u: "unat i = ?n" using assms(2) unfolding i by (simp add: unat_of_nat take_bit_nat_eq_self)
    have lk: "field_lookup_map r g = Some j \<longleftrightarrow> unat j < ?n \<and> field_names r ! unat j = g" for g j
      using assms(1) unfolding names_ok_def by blast
    have nf: "field_names r ! unat j \<noteq> f" if "unat j < ?n" for j :: u16 using lk [of f j] None that by simp
    have "field_lookup_map r' g = Some j \<longleftrightarrow> unat j < length (field_names r') \<and> field_names r' ! unat j = g" for g j
    proof (cases "unat j = ?n")
      case True
      then have j: "j = i" using u by (simp add: word_unat_eq_iff)
      have "field_lookup_map r g \<noteq> Some i" using lk [of g i] u by simp
      then show ?thesis by (auto simp: r' j u)
    next
      case False
      then have "j \<noteq> i" using u by auto
      then show ?thesis
        using False lk [of g j] nf [of j] by (auto simp: r' nth_append less_Suc_eq)
    qed
    moreover have "length (field_names r') \<le> 2 ^ 16" using assms(2) by (simp add: r')
    moreover have "more_names r r'" unfolding more_names_def r' by blast
    ultimately show ?thesis using u by (simp add: names_ok_def r')
  qed
  then show "names_ok r'" "unat i < length (field_names r')" "field_names r' ! unat i = f" "more_names r r'"
    "length (field_names r') \<le> Suc (length (field_names r))" by auto
qed

lemma more_names_nth:
  assumes "more_names r r'" "unat i < length (field_names r)"
  shows "unat i < length (field_names r')" "field_names r' ! unat i = field_names r ! unat i"
  using assms by (auto simp: more_names_def nth_append)

lemma acquire_fields_ok:
  assumes "names_ok r" "length (field_names r) + length fs \<le> 2 ^ 16" "acquire_fields fs r = (ids, r')"
  shows "names_ok r' \<and> more_names r r' \<and> (\<forall>i \<in> set ids. unat i < length (field_names r')) \<and>
    map (\<lambda>i. field_names r' ! unat i) ids = fs"
  using assms
proof (induction fs arbitrary: r ids)
  case Nil
  then show ?case by (simp add: more_names_refl)
next
  case (Cons f fs)
  obtain i r1 where a: "AcquireFieldID f r = (i, r1)" by (cases "AcquireFieldID f r")
  obtain ids' where b: "acquire_fields fs r1 = (ids', r')" "ids = i # ids'"
    using Cons.prems(3) a by (auto split: prod.splits)
  have "length (field_names r) < 2 ^ 16" using Cons.prems(2) by simp
  note ok = AcquireFieldID_ok [OF Cons.prems(1) this a]
  have "length (field_names r1) + length fs \<le> 2 ^ 16" using ok(5) Cons.prems(2) by simp
  from Cons.IH [OF ok(1) this b(1)] show ?case
    using ok(2,3) more_names_nth [of r1 r' i] more_names_trans [OF ok(4)] by (auto simp: b(2))
qed

lemma registry_ok_more_names: "registry_ok r \<Longrightarrow> more_names r r' \<Longrightarrow> names_ok r' \<Longrightarrow> registry_ok r'"
  by (fastforce simp: registry_ok_def more_names_def)

lemma registry_ok_add_general:
  "registry_ok r \<Longrightarrow> \<forall>i \<in> set (gp_fields p). unat i < length (field_names r) \<Longrightarrow> registry_ok (snd (add_general p r))"
  by (auto simp: registry_ok_def names_ok_def add_general_def Let_def)

text \<open>Every function that makes a PSF keeps the registry well-formed.\<close>

lemma MakeGeneralPSF_ok:
  assumes "registry_ok r" "length (field_names r) + length fs \<le> 2 ^ 16"
  shows "registry_ok (snd (MakeGeneralPSF dlsym fs lib func r))"
proof -
  obtain ids r1 where a: "acquire_fields fs r = (ids, r1)" by (cases "acquire_fields fs r")
  note ok = acquire_fields_ok [OF _ assms(2) a]
  have r1: "registry_ok r1" "\<forall>i \<in> set ids. unat i < length (field_names r1)"
    using ok assms(1) registry_ok_more_names [OF assms(1)] by (auto simp: registry_ok_def)
  then show ?thesis
    using assms(1) by (auto simp: MakeGeneralPSF_def a intro: registry_ok_add_general split: option.splits)
qed

lemma MakeProjection_ok:
  assumes "registry_ok r" "length (field_names r) < 2 ^ 16"
  shows "registry_ok (snd (MakeProjection proj f r))"
proof -
  obtain i r1 where a: "AcquireFieldID f r = (i, r1)" by (cases "AcquireFieldID f r")
  have "names_ok r" using assms(1) by (simp add: registry_ok_def)
  note ok = AcquireFieldID_ok [OF this assms(2) a]
  show ?thesis
    using registry_ok_more_names [OF assms(1) ok(4,1)] ok(2)
    by (auto simp: MakeProjection_def a intro: registry_ok_add_general)
qed

lemma MakeInlinePSF_ok:
  assumes "registry_ok r" "length (field_names r) + length fs \<le> 2 ^ 16"
  shows "registry_ok (snd (MakeInlinePSF dlsym fs lib func r))"
proof -
  obtain ids r1 where a: "acquire_fields fs r = (ids, r1)" by (cases "acquire_fields fs r")
  note ok = acquire_fields_ok [OF _ assms(2) a]
  have r1: "registry_ok r1" "\<forall>i \<in> set ids. unat i < length (field_names r1)"
    using ok assms(1) registry_ok_more_names [OF assms(1)] by (auto simp: registry_ok_def)
  then show ?thesis
    using assms(1) by (auto simp: MakeInlinePSF_def a Let_def registry_ok_def names_ok_def split: option.splits)
qed

lemma MakeEzPsf_ok:
  assumes "registry_ok r" "length (field_names r) + length fs \<le> 2 ^ 16"
  shows "registry_ok (snd (MakeEzPsf name t fs psf ir r))"
proof -
  define r0 where "r0 = r\<lparr>psf_irs := alist_insert name ir (psf_irs r)\<rparr>"
  obtain ids r1 where a: "acquire_fields fs r0 = (ids, r1)" by (cases "acquire_fields fs r0")
  have r0: "registry_ok r0" "length (field_names r0) + length fs \<le> 2 ^ 16"
    using assms by (simp_all add: r0_def registry_ok_def names_ok_def)
  note ok = acquire_fields_ok [OF _ r0(2) a]
  have r1: "registry_ok r1" "\<forall>i \<in> set ids. unat i < length (field_names r1)"
    using ok r0(1) registry_ok_more_names [OF r0(1)] by (auto simp: registry_ok_def)
  then show ?thesis
    unfolding MakeEzPsf_def r0_def [symmetric] a Let_def
    by (auto simp: registry_ok_def names_ok_def)
qed

text \<open>
  The identifier of a field is a 16-bit number that is not checked: after 65536 fields the next one gets
  identifier 0, which is the one of the first field.
\<close>

lemma field_id_wraps:
  assumes "length (field_names r) = 2 ^ 16" "field_lookup_map r f = None"
  shows "fst (AcquireFieldID f r) = 0 \<and> field_names (snd (AcquireFieldID f r)) ! 0 = field_names r ! 0"
proof -
  have "(word_of_nat (2 ^ 16) :: u16) = 0" by simp
  then show ?thesis using assms by (simp add: AcquireFieldID_def Let_def nth_append)
qed

lemma acquire_fields_general: "acquire_fields fs r = (ids, r') \<Longrightarrow> general_psf_map r' = general_psf_map r"
proof (induction fs arbitrary: r ids)
  case (Cons f fs)
  then show ?case
    by (auto simp: AcquireFieldID_def Let_def split: prod.splits option.splits)
qed simp

text \<open>A general PSF made from an expression is looked up as an inline one.\<close>

lemma MakeEzPsf_general_lookup:
  assumes "\<not> canInline t" "length (general_psf_map r) < 2 ^ 14" "MakeEzPsf name t fs psf ir r = (lookup, r')"
  shows "pl_type lookup = INLINE"
  using assms by (auto simp: MakeEzPsf_def Let_def dest: acquire_fields_general split: prod.splits if_splits)


section \<open>What a parser state holds\<close>

definition registered_fields :: "('h, 'e) psf_registry \<Rightarrow> parser_state \<Rightarrow> u16 set" where
  "registered_fields r st =
     (\<Union>i \<in> set (ptr_inline_psf st). set (ip_fields (inline_psf_map r ! unat i))) \<union>
     (\<Union>i \<in> set (ptr_general_psf st). set (gp_fields (general_psf_map r ! unat i)))"

definition registrations_ok :: "('h, 'e) psf_registry \<Rightarrow> parser_state \<Rightarrow> bool" where
  "registrations_ok r st \<longleftrightarrow> (\<forall>i \<in> set (ptr_inline_psf st). unat i < length (inline_psf_map r)) \<and>
     (\<forall>i \<in> set (ptr_general_psf st). unat i < length (general_psf_map r))"

lemma all_some_map: "\<forall>x \<in> set xs. f x = Some (g x) \<Longrightarrow> all_some (map f xs) = Some (map g xs)"
  by (induction xs) auto

lemma fold_insert_set: "set (fold List.insert xs ys) = set xs \<union> set ys \<and> (distinct ys \<longrightarrow> distinct (fold List.insert xs ys))"
  by (induction xs arbitrary: ys) auto

lemma needed_fields_ok:
  assumes "registrations_ok r st"
  shows "\<exists>ids. needed_fields r st = Some ids \<and> set ids = registered_fields r st \<and> distinct ids"
proof -
  have a: "all_some (map (\<lambda>i. map_option ip_fields (at (inline_psf_map r) (unat i))) (ptr_inline_psf st)) =
      Some (map (\<lambda>i. ip_fields (inline_psf_map r ! unat i)) (ptr_inline_psf st))"
    using assms by (intro all_some_map) (auto simp: registrations_ok_def at_def)
  have b: "all_some (map (\<lambda>i. map_option gp_fields (at (general_psf_map r) (unat i))) (ptr_general_psf st)) =
      Some (map (\<lambda>i. gp_fields (general_psf_map r ! unat i)) (ptr_general_psf st))"
    using assms by (intro all_some_map) (auto simp: registrations_ok_def at_def)
  let ?xs = "concat (map (\<lambda>i. ip_fields (inline_psf_map r ! unat i)) (ptr_inline_psf st)) @
    concat (map (\<lambda>i. gp_fields (general_psf_map r ! unat i)) (ptr_general_psf st))"
  have "needed_fields r st = Some (fold List.insert ?xs [])"
    unfolding needed_fields_def a b option.case ..
  moreover have "set ?xs = registered_fields r st" by (simp add: registered_fields_def)
  ultimately show ?thesis using fold_insert_set [of ?xs "[]"] by simp
qed

lemma construct_parser_ok:
  assumes "registry_ok r" "registrations_ok r st"
  shows "\<exists>ids. construct_parser r st = Some (st\<lparr>main_parser_fields := map (\<lambda>i. field_names r ! unat i) ids,
      main_parser_field_ids := ids\<rparr>) \<and> set ids = registered_fields r st \<and> distinct ids"
proof -
  obtain ids where ids: "needed_fields r st = Some ids" "set ids = registered_fields r st" "distinct ids"
    using needed_fields_ok [OF assms(2)] by blast
  have "\<forall>i \<in> set ids. unat i < length (field_names r)"
    using assms unfolding ids(2) registered_fields_def registry_ok_def registrations_ok_def by (auto dest: nth_mem)
  then have "all_some (map (\<lambda>i. at (field_names r) (unat i)) ids) = Some (map (\<lambda>i. field_names r ! unat i) ids)"
    by (intro all_some_map) (simp add: at_def)
  then show ?thesis using ids by (intro exI [of _ ids]) (simp add: construct_parser_def)
qed

text \<open>
  C10: applying registration actions to a parser state, on a well-formed registry and with
  identifiers it has, gives a parser for exactly the fields that the PSFs registered then need,
  each once, under the name it has in the naming service.
\<close>

theorem parser_fields_complete:
  assumes "registry_ok r" "registrations_ok r (fold apply_action acts st)"
  shows "\<exists>st'. ParserStateApplyActions r acts st = Some st' \<and>
    ptr_inline_psf st' = ptr_inline_psf (fold apply_action acts st) \<and>
    ptr_general_psf st' = ptr_general_psf (fold apply_action acts st) \<and>
    set (main_parser_field_ids st') = registered_fields r st' \<and> distinct (main_parser_field_ids st') \<and>
    main_parser_fields st' = map (\<lambda>i. field_names r ! unat i) (main_parser_field_ids st')"
  using construct_parser_ok [OF assms] by (auto simp: ParserStateApplyActions_def registered_fields_def)

text \<open>
  The backup parser state gets the same actions after the shift, when the registry may have
  grown: both states are then the same.
\<close>

definition extends :: "('h, 'e) psf_registry \<Rightarrow> ('h, 'e) psf_registry \<Rightarrow> bool" where
  "extends r r' \<longleftrightarrow> (\<exists>ns ips gps. field_names r' = field_names r @ ns \<and> inline_psf_map r' = inline_psf_map r @ ips \<and>
     general_psf_map r' = general_psf_map r @ gps)"

lemma at_append: "at xs i = Some x \<Longrightarrow> at (xs @ ys) i = Some x"
  by (auto simp: at_def nth_append split: if_splits)

lemma all_some_mono:
  "all_some (map f xs) = Some ys \<Longrightarrow> (\<And>x y. f x = Some y \<Longrightarrow> g x = Some y) \<Longrightarrow> all_some (map g xs) = Some ys"
proof (induction xs arbitrary: ys)
  case (Cons x xs)
  then obtain y zs where "f x = Some y" "all_some (map f xs) = Some zs" "ys = y # zs"
    by (auto split: option.splits)
  then show ?case using Cons.IH [of zs] Cons.prems(2) by simp
qed simp

lemma needed_fields_extends:
  assumes "extends r r'" "needed_fields r st = Some ids"
  shows "needed_fields r' st = Some ids"
proof -
  let ?i = "\<lambda>r i. map_option ip_fields (at (inline_psf_map r) (unat (i :: u32)))"
  let ?g = "\<lambda>r i. map_option gp_fields (at (general_psf_map r) (unat (i :: u16)))"
  obtain fs gs where e: "all_some (map (?i r) (ptr_inline_psf st)) = Some fs" "all_some (map (?g r) (ptr_general_psf st)) = Some gs"
    "ids = fold List.insert (concat fs @ concat gs) []"
    using assms(2) by (auto simp: needed_fields_def split: option.splits)
  have "all_some (map (?i r') (ptr_inline_psf st)) = Some fs"
    by (rule all_some_mono [OF e(1)]) (use assms(1) in \<open>auto simp: extends_def at_append\<close>)
  moreover have "all_some (map (?g r') (ptr_general_psf st)) = Some gs"
    by (rule all_some_mono [OF e(2)]) (use assms(1) in \<open>auto simp: extends_def at_append\<close>)
  ultimately show ?thesis by (simp add: needed_fields_def e(3))
qed

lemma parser_states_agree:
  assumes "extends r r'" "ParserStateApplyActions r acts st = Some st'"
  shows "ParserStateApplyActions r' acts st = Some st'"
proof -
  let ?st = "fold apply_action acts st"
  obtain ids names where e: "needed_fields r ?st = Some ids" "all_some (map (\<lambda>i. at (field_names r) (unat i)) ids) = Some names"
    "st' = ?st\<lparr>main_parser_fields := names, main_parser_field_ids := ids\<rparr>"
    using assms(2) by (auto simp: ParserStateApplyActions_def construct_parser_def split: option.splits)
  have "all_some (map (\<lambda>i. at (field_names r') (unat i)) ids) = Some names"
    by (rule all_some_mono [OF e(2)]) (use assms(1) in \<open>auto simp: extends_def at_append\<close>)
  then show ?thesis using needed_fields_extends [OF assms(1) e(1)] e(3)
    by (simp add: ParserStateApplyActions_def construct_parser_def)
qed


section \<open>A run\<close>

definition empty_registry :: "('h, 'e) psf_registry" where
  "empty_registry = \<lparr>field_names = [], field_lookup_map = Map.empty, libs = [], inline_psf_map = [], general_psf_map = [],
     named_psfs = Map.empty, psf_irs = []\<rparr>"

lemma empty_registry_ok: "registry_ok empty_registry"
  by (simp add: empty_registry_def registry_ok_def names_ok_def)

definition demo_registry :: "(unit, nat) psf_registry" where
  "demo_registry = snd (MakeProjection 7 ''a'' empty_registry)"

theorem parser_fields_complete_witness:
  "\<exists>st'. ParserStateApplyActions demo_registry [\<lparr>pa_type = REGISTER_GENERAL_PSF, pa_id = 0\<rparr>] ParserState = Some st' \<and>
    set (main_parser_field_ids st') = {0} \<and> main_parser_fields st' = map (\<lambda>i. field_names demo_registry ! unat i) (main_parser_field_ids st')"
proof -
  let ?acts = "[\<lparr>pa_type = REGISTER_GENERAL_PSF, pa_id = 0\<rparr>]"
  have ok: "registry_ok demo_registry"
    unfolding demo_registry_def by (rule MakeProjection_ok [OF empty_registry_ok]) (simp add: empty_registry_def)
  have g: "general_psf_map demo_registry =
      [\<lparr>gp_fields = [0], gp_eval = 7, gp_lib_id = -1, gp_func_name = ''proj'', gp_ret_type = ERROR_T\<rparr>]"
    by (simp add: demo_registry_def MakeProjection_def AcquireFieldID_def empty_registry_def add_general_def Let_def)
  have "registrations_ok demo_registry (fold apply_action ?acts ParserState)"
    by (simp add: registrations_ok_def apply_action_def ParserState_def g)
  from parser_fields_complete [OF ok this] show ?thesis
    by (auto simp: registered_fields_def apply_action_def ParserState_def g)
qed

end
