(* ===== verification/Naming_File.thy ===== *)
theory Naming_File
  imports Psf_Registry Text "HOL-Library.Monad_Syntax"
begin

text \<open>
  The naming file of a checkpoint: the part of \<open>CheckpointHybridLog\<close> of \<open>fishstore.h\<close> that writes the
  fields, libraries, PSFs and registrations as text, and the part of \<open>Recover\<close> that reads them
  back from a stream. The functions of the dynamic loader and of the compiler of EzPSF that
  reading calls are arguments. None is a failed extraction, a failed assertion or an access
  outside a container.
\<close>

section \<open>Writing\<close>

abbreviation newline :: string where
  "newline \<equiv> [CHR 0x0A]"

definition write_line :: "string \<Rightarrow> string" where
  "write_line t = t @ newline"

definition write_size :: "'x list \<Rightarrow> string" where
  "write_size xs = write_line (nat_text (length xs))"

definition write_ir :: "string \<times> string \<Rightarrow> string" where
  "write_ir = (\<lambda>(name, ir). write_line (name @ '' '' @ ir))"

definition write_psf :: "u16 list \<Rightarrow> int \<Rightarrow> string \<Rightarrow> string" where
  "write_psf ids lib_id func_name =
     nat_text (length ids) @ concat (map (\<lambda>i. '' '' @ nat_text (unat i)) ids) @
     '' '' @ int_text lib_id @ '' '' @ func_name @ newline"

definition write_id :: "'w :: len word \<Rightarrow> string" where
  "write_id i = write_line (nat_text (unat i))"

definition write_naming_file :: "('h, 'e) psf_registry \<Rightarrow> parser_state \<Rightarrow> string" where
  "write_naming_file r st =
     write_size (field_names r) @ concat (map write_line (field_names r)) @
     write_size (libs r) @ concat (map (\<lambda>(path, _). write_line path) (libs r)) @
     write_size (psf_irs r) @ concat (map write_ir (psf_irs r)) @
     write_size (general_psf_map r) @
       concat (map (\<lambda>p. write_psf (gp_fields p) (gp_lib_id p) (gp_func_name p)) (general_psf_map r)) @
     write_size (inline_psf_map r) @
       concat (map (\<lambda>p. write_psf (ip_fields p) (ip_lib_id p) (ip_func_name p)) (inline_psf_map r)) @
     write_size (ptr_general_psf st) @ concat (map write_id (ptr_general_psf st)) @
     write_size (ptr_inline_psf st) @ concat (map write_id (ptr_inline_psf st))"


section \<open>Reading\<close>

record ('h, 'e) host =
  absolute_path :: "string \<Rightarrow> string"
  dlopen :: "string \<Rightarrow> 'h option"
  dlsym :: "'h \<Rightarrow> string \<Rightarrow> 'e option"
  projection :: 'e
  recoverPsf :: "string \<Rightarrow> string \<Rightarrow> 'e option"

text \<open>The loops that read a number of items.\<close>

fun read_many :: "nat \<Rightarrow> (string \<Rightarrow> ('x \<times> string) option) \<Rightarrow> string \<Rightarrow> ('x list \<times> string) option" where
  "read_many 0 rd s = Some ([], s)"
| "read_many (Suc n) rd s = do {
     (x, s) \<leftarrow> rd s;
     (xs, s) \<leftarrow> read_many n rd s;
     Some (x # xs, s) }"

definition read_sized :: "(string \<Rightarrow> ('x \<times> string) option) \<Rightarrow> string \<Rightarrow> ('x list \<times> string) option" where
  "read_sized rd s = do {
     (n, s) \<leftarrow> extract_unsigned 64 s;
     read_many n rd s }"

definition read_id :: "string \<Rightarrow> ('w :: len word \<times> string) option" where
  "read_id s = do {
     (i, s) \<leftarrow> extract_unsigned LENGTH('w) s;
     Some (word_of_nat i, s) }"

definition read_ir :: "string \<Rightarrow> ((string \<times> string) \<times> string) option" where
  "read_ir s = do {
     (name, s) \<leftarrow> extract_word s;
     (ir, s) \<leftarrow> extract_word s;
     Some ((name, ir), s) }"

definition read_psf :: "string \<Rightarrow> ((u16 list \<times> int \<times> string) \<times> string) option" where
  "read_psf s = do {
     (ids, s) \<leftarrow> read_sized read_id s;
     (lib_id, s) \<leftarrow> extract_signed 64 s;
     (func_name, s) \<leftarrow> extract_word s;
     Some ((ids, lib_id, func_name), s) }"

text \<open>The items as they enter the registry.\<close>

definition add_field :: "string \<times> nat \<Rightarrow> ('h, 'e) psf_registry \<Rightarrow> ('h, 'e) psf_registry" where
  "add_field = (\<lambda>(name, i) r. r\<lparr>field_names := field_names r @ [name],
     field_lookup_map := map_insert name (word_of_nat i) (field_lookup_map r)\<rparr>)"

definition load_lib :: "('h, 'e) host \<Rightarrow> string \<Rightarrow> (string \<times> 'h) option" where
  "load_lib host path = (let path = absolute_path host path in map_option (Pair path) (dlopen host path))"

definition restore_psfs :: "('h, 'e) host \<Rightarrow> (string \<times> string) list \<Rightarrow> (string \<times> 'e) list option" where
  "restore_psfs host irs =
     map_option (\<lambda>fs. fold (\<lambda>(name, f). alist_insert name f) (zip (map fst irs) fs) [])
       (all_some (map (\<lambda>(name, ir). recoverPsf host name ir) irs))"

definition lib_function :: "('h, 'e) host \<Rightarrow> (string \<times> 'h) list \<Rightarrow> int \<Rightarrow> string \<Rightarrow> 'e option" where
  "lib_function host ls lib_id func_name = (if lib_id < 0 then None else do {
     (path, h) \<leftarrow> at ls (nat lib_id);
     dlsym host h func_name })"

definition load_general :: "('h, 'e) host \<Rightarrow> (string \<times> 'h) list \<Rightarrow> (string \<times> 'e) list \<Rightarrow>
    u16 list \<times> int \<times> string \<Rightarrow> 'e general_psf option" where
  "load_general host ls restored = (\<lambda>(ids, lib_id, func_name).
     map_option (\<lambda>f. \<lparr>gp_fields = ids, gp_eval = f, gp_lib_id = lib_id, gp_func_name = func_name, gp_ret_type = ERROR_T\<rparr>)
       (if lib_id = LIB_PROJECTION then Some (projection host)
        else if lib_id = LIB_EZ_PSF then map_of restored func_name
        else lib_function host ls lib_id func_name))"

definition load_inline :: "('h, 'e) host \<Rightarrow> (string \<times> 'h) list \<Rightarrow> (string \<times> 'e) list \<Rightarrow>
    u16 list \<times> int \<times> string \<Rightarrow> 'e inline_psf option" where
  "load_inline host ls restored = (\<lambda>(ids, lib_id, func_name).
     map_option (\<lambda>f. \<lparr>ip_fields = ids, ip_eval = f, ip_lib_id = lib_id, ip_func_name = func_name\<rparr>)
       (if lib_id = LIB_PROJECTION then None
        else if lib_id = LIB_EZ_PSF then map_of restored func_name
        else lib_function host ls lib_id func_name))"

text \<open>The fields of the parser, general PSFs first.\<close>

definition recover_parser :: "('h, 'e) psf_registry \<Rightarrow> parser_state \<Rightarrow> parser_state option" where
  "recover_parser r st = do {
     gs \<leftarrow> all_some (map (\<lambda>i. map_option gp_fields (at (general_psf_map r) (unat i))) (ptr_general_psf st));
     fs \<leftarrow> all_some (map (\<lambda>i. map_option ip_fields (at (inline_psf_map r) (unat i))) (ptr_inline_psf st));
     let field_ids = fold List.insert (concat gs @ concat fs) [];
     names \<leftarrow> all_some (map (\<lambda>i. at (field_names r) (unat i)) field_ids);
     Some (st\<lparr>main_parser_fields := names, main_parser_field_ids := field_ids\<rparr>) }"

definition read_naming_file :: "('h, 'e) host \<Rightarrow> string \<Rightarrow> ('h, 'e) psf_registry \<Rightarrow>
    (('h, 'e) psf_registry \<times> parser_state) option" where
  "read_naming_file host s r = do {
     (names, s) \<leftarrow> read_sized extract_word s;
     let r = fold add_field (zip names [0..<length names]) r;
     (paths, s) \<leftarrow> read_sized extract_word s;
     new_libs \<leftarrow> all_some (map (load_lib host) paths);
     let r = r\<lparr>libs := libs r @ new_libs\<rparr>;
     (irs, s) \<leftarrow> read_sized read_ir s;
     let r = r\<lparr>psf_irs := fold (\<lambda>(name, ir). alist_insert name ir) irs (psf_irs r)\<rparr>;
     restored \<leftarrow> restore_psfs host irs;
     (gs, s) \<leftarrow> read_sized read_psf s;
     generals \<leftarrow> all_some (map (load_general host (libs r) restored) gs);
     let r = r\<lparr>general_psf_map := general_psf_map r @ generals\<rparr>;
     (inls, s) \<leftarrow> read_sized read_psf s;
     inlines \<leftarrow> all_some (map (load_inline host (libs r) restored) inls);
     let r = r\<lparr>inline_psf_map := inline_psf_map r @ inlines\<rparr>;
     (general_ids, s) \<leftarrow> read_sized read_id s;
     (inline_ids, s) \<leftarrow> read_sized read_id s;
     st \<leftarrow> recover_parser r (ParserState\<lparr>ptr_general_psf := fold List.insert general_ids [],
                                         ptr_inline_psf := fold List.insert inline_ids []\<rparr>);
     Some (r, st) }"


section \<open>Formats\<close>

text \<open>
  An item of the file: reading what was written gives the item and leaves the text after it, up
  to the white space that the next extraction skips.
\<close>

locale text_format =
  fixes rd :: "string \<Rightarrow> ('x \<times> string) option" and wr :: "'x \<Rightarrow> string" and ok :: "'x \<Rightarrow> bool"
  assumes read_back: "ok x \<Longrightarrow> \<exists>s1. rd (wr x @ s) = Some (x, s1) \<and> skipws s1 = skipws s"
    and skips: "rd (skipws s) = rd s"
begin

lemma read_item:
  assumes "ok x" "skipws s0 = skipws (wr x @ s)"
  shows "\<exists>s1. rd s0 = Some (x, s1) \<and> skipws s1 = skipws s"
  using read_back [OF assms(1), of s] skips [of s0] skips [of "wr x @ s"] assms(2) by simp

lemma read_items:
  assumes "list_all ok xs" "skipws s0 = skipws (concat (map wr xs) @ s)"
  shows "\<exists>s1. read_many (length xs) rd s0 = Some (xs, s1) \<and> skipws s1 = skipws s"
  using assms
proof (induction xs arbitrary: s0)
  case (Cons x xs)
  obtain s1 where s1: "rd s0 = Some (x, s1)" "skipws s1 = skipws (concat (map wr xs) @ s)"
    using read_item [of x s0 "concat (map wr xs) @ s"] Cons.prems by auto
  from Cons.IH [OF _ s1(2)] Cons.prems(1) s1(1) show ?case by auto
qed simp

lemma read_list:
  assumes "list_all ok xs" "length xs < 2 ^ 64" "isspace c"
    "skipws s0 = skipws (nat_text (length xs) @ c # concat (map wr xs) @ s)"
  shows "\<exists>s1. read_sized rd s0 = Some (xs, s1) \<and> skipws s1 = skipws s"
proof -
  have "extract_unsigned 64 s0 = Some (length xs, c # concat (map wr xs) @ s)"
    using extract_unsigned_text [OF assms(2,3)] extract_unsigned_skipws [of 64 s0] assms(4)
      extract_unsigned_skipws [of 64 "nat_text (length xs) @ c # concat (map wr xs) @ s"] by simp
  then show ?thesis
    using read_items [OF assms(1), of "c # concat (map wr xs) @ s" s] assms(3) by (simp add: read_sized_def)
qed

end

lemma word_format: "text_format extract_word write_line word_text"
  by unfold_locales (auto simp: write_line_def extract_word_text extract_word_skipws)

lemma id_format:
  assumes "isspace c"
  shows "text_format (read_id :: string \<Rightarrow> ('w :: len word \<times> string) option) (\<lambda>i. nat_text (unat i) @ [c]) (\<lambda>_. True)"
proof
  fix x :: "'w word" and s
  have "unat x < 2 ^ LENGTH('w)" by (rule unsigned_less)
  then show "\<exists>s1. read_id ((nat_text (unat x) @ [c]) @ s) = Some (x, s1) \<and> skipws s1 = skipws s"
    using assms by (simp add: read_id_def extract_unsigned_text)
qed (simp add: read_id_def extract_unsigned_skipws)

definition ir_ok :: "string \<times> string \<Rightarrow> bool" where
  "ir_ok = (\<lambda>(name, ir). word_text name \<and> word_text ir)"

definition psf_text_ok :: "u16 list \<times> int \<times> string \<Rightarrow> bool" where
  "psf_text_ok = (\<lambda>(ids, lib_id, func_name). length ids < 2 ^ 64 \<and> - (2 ^ 63) \<le> lib_id \<and> lib_id < 2 ^ 63 \<and>
     word_text func_name)"

lemma extract_word_lead:
  assumes "word_text t" "isspace c" "skipws s0 = skipws (t @ c # s)"
  shows "extract_word s0 = Some (t, c # s)"
  using extract_word_text [OF assms(1,2), of s] assms(3) extract_word_skipws [of s0] extract_word_skipws [of "t @ c # s"]
  by simp

lemma ir_format: "text_format read_ir write_ir ir_ok"
proof
  fix x s
  assume "ir_ok x"
  then obtain name ir where x: "x = (name, ir)" "word_text name" "word_text ir" by (auto simp: ir_ok_def)
  have "extract_word (name @ CHR '' '' # ir @ CHR 0x0A # s) = Some (name, CHR '' '' # ir @ CHR 0x0A # s)"
    by (rule extract_word_text [OF x(2)]) simp
  moreover have "extract_word (CHR '' '' # ir @ CHR 0x0A # s) = Some (ir, CHR 0x0A # s)"
    by (rule extract_word_lead [OF x(3)]) simp_all
  ultimately show "\<exists>s1. read_ir (write_ir x @ s) = Some (x, s1) \<and> skipws s1 = skipws s"
    by (simp add: read_ir_def write_ir_def write_line_def x(1))
qed (simp add: read_ir_def extract_word_skipws)

interpretation ids: text_format "read_id :: string \<Rightarrow> ('w :: len word \<times> string) option" "write_id" "\<lambda>_. True"
  using id_format [of "CHR 0x0A"] by (simp add: write_id_def [abs_def] write_line_def)

interpretation spaced_ids: text_format "read_id :: string \<Rightarrow> ('w :: len word \<times> string) option"
    "\<lambda>i. nat_text (unat i) @ '' ''" "\<lambda>_. True"
  by (rule id_format) simp

lemma spaces_before:
  "concat (map (\<lambda>i. CHR '' '' # t i) xs) @ CHR '' '' # s = CHR '' '' # concat (map (\<lambda>i. t i @ '' '') xs) @ s"
  by (induction xs) auto

lemma psf_format:
  "text_format read_psf (\<lambda>(ids, lib_id, func_name). write_psf ids lib_id func_name) psf_text_ok"
proof
  fix x s
  assume "psf_text_ok x"
  then obtain ns l f where x: "x = (ns, l, f)" "length ns < 2 ^ 64" "- (2 ^ 63) \<le> l" "l < 2 ^ 63" "word_text f"
    by (auto simp: psf_text_ok_def)
  let ?f = "f @ CHR 0x0A # s" and ?l = "int_text l @ CHR '' '' # f @ CHR 0x0A # s"
  have w: "write_psf ns l f @ s = nat_text (length ns) @ CHR '' '' # concat (map (\<lambda>i. nat_text (unat i) @ '' '') ns) @ ?l"
    by (simp add: write_psf_def spaces_before)
  obtain s1 where s1: "read_sized read_id (write_psf ns l f @ s) = Some (ns, s1)" "skipws s1 = skipws ?l"
    using spaced_ids.read_list [of ns "CHR '' ''" _ ?l] x(2) w by (auto simp: list_all_iff)
  have "extract_signed 64 ?l = Some (l, CHR '' '' # ?f)"
    by (rule extract_signed_text) (use x(3,4) in simp_all)
  then have "extract_signed 64 s1 = Some (l, CHR '' '' # ?f)"
    using s1(2) extract_signed_skipws [of 64 s1] extract_signed_skipws [of 64 ?l] by simp
  moreover have "extract_word (CHR '' '' # ?f) = Some (f, CHR 0x0A # s)"
    by (rule extract_word_lead [OF x(5)]) simp_all
  ultimately show "\<exists>s1. read_psf ((\<lambda>(ids, lib_id, func_name). write_psf ids lib_id func_name) x @ s) = Some (x, s1) \<and>
      skipws s1 = skipws s"
    using s1(1) by (simp add: read_psf_def x(1))
qed (simp add: read_psf_def read_sized_def extract_unsigned_skipws)

interpretation lines: text_format extract_word write_line word_text
  by (rule word_format)

interpretation irs: text_format read_ir write_ir ir_ok
  by (rule ir_format)

interpretation psfs: text_format read_psf "\<lambda>(ids, lib_id, func_name). write_psf ids lib_id func_name" psf_text_ok
  by (rule psf_format)


section \<open>The naming service\<close>

lemma add_field_new:
  assumes "field_lookup_map r name = None"
  shows "add_field (name, length (field_names r)) r = snd (AcquireFieldID name r)"
  using assms by (simp add: add_field_def AcquireFieldID_def map_insert_def Let_def)

lemma read_fields:
  assumes "distinct names" "length names \<le> 2 ^ 16" "names_ok r" "field_names r = []"
  shows "\<exists>m. fold add_field (zip names [0..<length names]) r = r\<lparr>field_names := names, field_lookup_map := m\<rparr> \<and>
    names_ok (r\<lparr>field_names := names, field_lookup_map := m\<rparr>)"
  using assms
proof (induction names rule: rev_induct)
  case Nil
  then have e: "r\<lparr>field_names := [], field_lookup_map := field_lookup_map r\<rparr> = r" by (cases r) simp
  show ?case by (rule exI [of _ "field_lookup_map r"], unfold e) (use Nil in simp)
next
  case (snoc name names)
  obtain m where m: "fold add_field (zip names [0..<length names]) r = r\<lparr>field_names := names, field_lookup_map := m\<rparr>"
    "names_ok (r\<lparr>field_names := names, field_lookup_map := m\<rparr>)"
    using snoc by auto
  let ?r = "r\<lparr>field_names := names, field_lookup_map := m\<rparr>"
  have new: "field_lookup_map ?r name = None"
  proof (rule ccontr)
    assume "field_lookup_map ?r name \<noteq> None"
    then obtain i where "m name = Some i" by auto
    then have "unat i < length names \<and> names ! unat i = name" using m(2) by (simp add: names_ok_def)
    then show False using snoc.prems(1) by auto
  qed
  have "fold add_field (zip (names @ [name]) [0..<length (names @ [name])]) r = add_field (name, length names) ?r"
    by (simp add: m(1))
  also have "\<dots> = snd (AcquireFieldID name ?r)" using add_field_new [OF new] by simp
  also have "\<dots> = r\<lparr>field_names := names @ [name], field_lookup_map := m(name \<mapsto> word_of_nat (length names))\<rparr>"
    using new by (simp add: AcquireFieldID_def Let_def)
  finally have e: "fold add_field (zip (names @ [name]) [0..<length (names @ [name])]) r =
    r\<lparr>field_names := names @ [name], field_lookup_map := m(name \<mapsto> word_of_nat (length names))\<rparr>" .
  have "names_ok (snd (AcquireFieldID name ?r))"
    by (rule AcquireFieldID_ok(1) [OF m(2)]) (use snoc.prems(2) in simp, rule surjective_pairing)
  then have "names_ok (r\<lparr>field_names := names @ [name], field_lookup_map := m(name \<mapsto> word_of_nat (length names))\<rparr>)"
    using new by (simp add: AcquireFieldID_def Let_def)
  with e show ?case by blast
qed

lemma option_eqI: "(\<And>i. x = Some i \<longleftrightarrow> y = Some i) \<Longrightarrow> x = y"
  by (cases x; cases y) auto

lemma names_ok_unique: "names_ok r \<Longrightarrow> names_ok r' \<Longrightarrow> field_names r = field_names r' \<Longrightarrow> field_lookup_map r = field_lookup_map r'"
proof
  fix f
  assume a: "names_ok r" "names_ok r'" "field_names r = field_names r'"
  have "field_lookup_map r f = Some i \<longleftrightarrow> unat i < length (field_names r) \<and> field_names r ! unat i = f" for i
    using a(1) unfolding names_ok_def by blast
  moreover have "field_lookup_map r' f = Some i \<longleftrightarrow> unat i < length (field_names r) \<and> field_names r ! unat i = f" for i
    using a(2) unfolding names_ok_def a(3) by blast
  ultimately have "field_lookup_map r f = Some i \<longleftrightarrow> field_lookup_map r' f = Some i" for i by simp
  then show "field_lookup_map r f = field_lookup_map r' f" by (rule option_eqI)
qed

lemma names_ok_distinct: "names_ok r \<Longrightarrow> distinct (field_names r)"
proof (unfold distinct_conv_nth, intro allI impI)
  fix i j
  assume a: "names_ok r" "i < length (field_names r)" "j < length (field_names r)" "i \<noteq> j"
  have n: "length (field_names r) \<le> 2 ^ 16" using a(1) by (simp add: names_ok_def)
  have u: "unat (word_of_nat k :: u16) = k" if "k < length (field_names r)" for k
    using n that by (simp add: unat_of_nat take_bit_nat_eq_self)
  have lk: "field_lookup_map r (field_names r ! k) = Some (word_of_nat k)" if "k < length (field_names r)" for k
    using a(1) that u [OF that] unfolding names_ok_def by simp
  show "field_names r ! i \<noteq> field_names r ! j"
  proof
    assume "field_names r ! i = field_names r ! j"
    then have "(word_of_nat i :: u16) = word_of_nat j" using lk [OF a(2)] lk [OF a(3)] by simp
    then show False using u [OF a(2)] u [OF a(3)] a(4) by simp
  qed
qed


section \<open>What is saved\<close>

text \<open>
  The registries that the file can represent: every string is a word, and every function is the
  one that loading the library or the code again gives.
\<close>

definition eval_saved :: "('h, 'e) host \<Rightarrow> ('h, 'e) psf_registry \<Rightarrow> int \<Rightarrow> string \<Rightarrow> 'e \<Rightarrow> bool" where
  "eval_saved host r lib_id name f \<longleftrightarrow>
     (if lib_id = LIB_PROJECTION then f = projection host
      else if lib_id = LIB_EZ_PSF then \<exists>ir. (name, ir) \<in> set (psf_irs r) \<and> recoverPsf host name ir = Some f
      else lib_function host (libs r) lib_id name = Some f)"

definition words_ok :: "('h, 'e) psf_registry \<Rightarrow> bool" where
  "words_ok r \<longleftrightarrow> list_all word_text (field_names r) \<and> list_all (\<lambda>(path, h). word_text path) (libs r) \<and>
     list_all ir_ok (psf_irs r) \<and> list_all (\<lambda>p. word_text (gp_func_name p)) (general_psf_map r) \<and>
     list_all (\<lambda>p. word_text (ip_func_name p)) (inline_psf_map r)"

definition loads_ok :: "('h, 'e) host \<Rightarrow> ('h, 'e) psf_registry \<Rightarrow> bool" where
  "loads_ok host r \<longleftrightarrow>
     (\<forall>(path, h) \<in> set (libs r). absolute_path host path = path \<and> dlopen host path = Some h) \<and>
     distinct (map fst (psf_irs r)) \<and> (\<forall>(name, ir) \<in> set (psf_irs r). recoverPsf host name ir \<noteq> None) \<and>
     (\<forall>p \<in> set (general_psf_map r). eval_saved host r (gp_lib_id p) (gp_func_name p) (gp_eval p)) \<and>
     (\<forall>p \<in> set (inline_psf_map r). ip_lib_id p \<noteq> LIB_PROJECTION \<and>
        eval_saved host r (ip_lib_id p) (ip_func_name p) (ip_eval p))"

text \<open>Sizes fit into \<open>size_t\<close> and the index of a library into \<open>int64_t\<close>.\<close>

definition sizes_ok :: "('h, 'e) psf_registry \<Rightarrow> parser_state \<Rightarrow> bool" where
  "sizes_ok r st \<longleftrightarrow> length (libs r) < 2 ^ 63 \<and> length (psf_irs r) < 2 ^ 64 \<and> length (general_psf_map r) < 2 ^ 64 \<and>
     length (inline_psf_map r) < 2 ^ 64 \<and> length (ptr_general_psf st) < 2 ^ 64 \<and> length (ptr_inline_psf st) < 2 ^ 64 \<and>
     (\<forall>p \<in> set (general_psf_map r). length (gp_fields p) < 2 ^ 64) \<and>
     (\<forall>p \<in> set (inline_psf_map r). length (ip_fields p) < 2 ^ 64)"

lemma fold_alist_insert:
  "distinct (map fst (ys @ xs)) \<Longrightarrow> fold (\<lambda>(k, v). alist_insert k v) xs ys = ys @ xs"
proof (induction xs arbitrary: ys)
  case (Cons x xs)
  obtain k v where x: "x = (k, v)" by (cases x)
  have "k \<notin> fst ` set ys" using Cons.prems by (auto simp: x)
  then have "(case x of (k, v) \<Rightarrow> alist_insert k v) ys = ys @ [x]" by (simp add: alist_insert_def x)
  then show ?case using Cons.IH [of "ys @ [x]"] Cons.prems by simp
qed simp

lemma restore_psfs_saved:
  assumes "distinct (map fst irs)" "\<forall>(name, ir) \<in> set irs. recoverPsf host name ir \<noteq> None"
  shows "restore_psfs host irs = Some (map (\<lambda>(name, ir). (name, the (recoverPsf host name ir))) irs)"
proof -
  have "all_some (map (\<lambda>(name, ir). recoverPsf host name ir) irs) = Some (map (\<lambda>(name, ir). the (recoverPsf host name ir)) irs)"
    using assms(2) by (intro all_some_map) auto
  moreover have "zip (map fst irs) (map (\<lambda>(name, ir). the (recoverPsf host name ir)) irs) =
      map (\<lambda>(name, ir). (name, the (recoverPsf host name ir))) irs"
    by (induction irs) auto
  moreover have "fold (\<lambda>(k, v). alist_insert k v) (map (\<lambda>(name, ir). (name, the (recoverPsf host name ir))) irs) [] =
      [] @ map (\<lambda>(name, ir). (name, the (recoverPsf host name ir))) irs"
    by (rule fold_alist_insert) (use assms(1) in \<open>simp add: comp_def case_prod_beta\<close>)
  ultimately show ?thesis by (simp add: restore_psfs_def)
qed

lemma eval_saved_loads:
  assumes "loads_ok host r" "eval_saved host r lib_id name f"
    "restored = map (\<lambda>(name, ir). (name, the (recoverPsf host name ir))) (psf_irs r)"
  shows "(if lib_id = LIB_PROJECTION then Some (projection host)
      else if lib_id = LIB_EZ_PSF then map_of restored name
      else lib_function host (libs r) lib_id name) = Some f"
proof (cases "lib_id = LIB_EZ_PSF")
  case True
  have np: "LIB_EZ_PSF \<noteq> LIB_PROJECTION" by (simp add: LIB_EZ_PSF_def LIB_PROJECTION_def)
  obtain ir where ir: "(name, ir) \<in> set (psf_irs r)" "recoverPsf host name ir = Some f"
    using assms(2) True np by (auto simp: eval_saved_def)
  have "map fst restored = map fst (psf_irs r)" unfolding assms(3) by auto
  then have "distinct (map fst restored)" using assms(1) by (simp add: loads_ok_def)
  moreover have "(name, f) \<in> set restored" unfolding assms(3) using ir by force
  ultimately show ?thesis using True np by simp
qed (use assms(2) in \<open>auto simp: eval_saved_def\<close>)

lemma lib_function_bound: "lib_function host ls lib_id name = Some f \<Longrightarrow> 0 \<le> lib_id \<and> lib_id < int (length ls)"
  by (auto simp: lib_function_def at_def split: if_splits)

lemma eval_saved_bounds:
  "eval_saved host r lib_id name f \<Longrightarrow> length (libs r) < 2 ^ 63 \<Longrightarrow> - (2 ^ 63) \<le> lib_id \<and> lib_id < 2 ^ 63"
  by (auto simp: eval_saved_def LIB_PROJECTION_def LIB_EZ_PSF_def dest!: lib_function_bound split: if_splits)


section \<open>The round trip\<close>

abbreviation general_text :: "'e general_psf \<Rightarrow> u16 list \<times> int \<times> string" where
  "general_text p \<equiv> (gp_fields p, gp_lib_id p, gp_func_name p)"

abbreviation inline_text :: "'e inline_psf \<Rightarrow> u16 list \<times> int \<times> string" where
  "inline_text p \<equiv> (ip_fields p, ip_lib_id p, ip_func_name p)"

lemma psf_texts_ok:
  assumes "words_ok r" "loads_ok host r" "sizes_ok r st"
  shows "list_all psf_text_ok (map general_text (general_psf_map r))" "list_all psf_text_ok (map inline_text (inline_psf_map r))"
  using assms eval_saved_bounds unfolding words_ok_def loads_ok_def sizes_ok_def psf_text_ok_def list_all_iff by fastforce+

lemma read_sections:
  assumes "names_ok r" "words_ok r" "loads_ok host r" "sizes_ok r st"
  shows "\<exists>s1 s2 s3 s4 s5 s6 s7. read_sized extract_word (write_naming_file r st) = Some (field_names r, s1) \<and>
    read_sized extract_word s1 = Some (map fst (libs r), s2) \<and> read_sized read_ir s2 = Some (psf_irs r, s3) \<and>
    read_sized read_psf s3 = Some (map general_text (general_psf_map r), s4) \<and>
    read_sized read_psf s4 = Some (map inline_text (inline_psf_map r), s5) \<and>
    read_sized read_id s5 = Some (ptr_general_psf st, s6) \<and> read_sized read_id s6 = Some (ptr_inline_psf st, s7)"
proof -
  let ?sec = "\<lambda>wr xs s. nat_text (length xs) @ CHR 0x0A # concat (map wr xs) @ s"
  let ?t7 = "?sec write_id (ptr_inline_psf st) []"
  let ?t6 = "?sec write_id (ptr_general_psf st) ?t7"
  let ?t5 = "?sec (\<lambda>(ids, l, f). write_psf ids l f) (map inline_text (inline_psf_map r)) ?t6"
  let ?t4 = "?sec (\<lambda>(ids, l, f). write_psf ids l f) (map general_text (general_psf_map r)) ?t5"
  let ?t3 = "?sec write_ir (psf_irs r) ?t4"
  let ?t2 = "?sec write_line (map fst (libs r)) ?t3"
  have w: "write_naming_file r st = ?sec write_line (field_names r) ?t2"
    by (simp add: write_naming_file_def write_size_def write_line_def comp_def case_prod_beta')
  have nl: "isspace CHR 0x0A" by simp
  note sz = assms(4) [unfolded sizes_ok_def] and ws = assms(2) [unfolded words_ok_def]
  have lens: "length (field_names r) < 2 ^ 64" "length (map fst (libs r)) < 2 ^ 64"
    using assms(1) sz by (auto simp: names_ok_def)
  have paths: "list_all word_text (map fst (libs r))" using ws by (auto simp: list_all_iff)
  obtain s1 where s1: "read_sized extract_word (write_naming_file r st) = Some (field_names r, s1)" "skipws s1 = skipws ?t2"
    using lines.read_list [OF _ lens(1) nl, of _ ?t2] ws w by auto
  obtain s2 where s2: "read_sized extract_word s1 = Some (map fst (libs r), s2)" "skipws s2 = skipws ?t3"
    using lines.read_list [OF paths lens(2) nl s1(2)] by blast
  obtain s3 where s3: "read_sized read_ir s2 = Some (psf_irs r, s3)" "skipws s3 = skipws ?t4"
    using irs.read_list [OF _ _ nl s2(2)] ws sz by blast
  obtain s4 where s4: "read_sized read_psf s3 = Some (map general_text (general_psf_map r), s4)" "skipws s4 = skipws ?t5"
    using psfs.read_list [OF psf_texts_ok(1) [OF assms(2-4)] _ nl s3(2)] sz by auto
  obtain s5 where s5: "read_sized read_psf s4 = Some (map inline_text (inline_psf_map r), s5)" "skipws s5 = skipws ?t6"
    using psfs.read_list [OF psf_texts_ok(2) [OF assms(2-4)] _ nl s4(2)] sz by auto
  obtain s6 where s6: "read_sized read_id s5 = Some (ptr_general_psf st, s6)" "skipws s6 = skipws ?t7"
    using ids.read_list [OF _ _ nl s5(2)] sz by (auto simp: list_all_iff)
  obtain s7 where "read_sized read_id s6 = Some (ptr_inline_psf st, s7)"
    using ids.read_list [OF _ _ nl s6(2)] sz by (auto simp: list_all_iff)
  with s1 s2 s3 s4 s5 s6 show ?thesis by blast
qed

lemma recover_parser_ok:
  assumes "registry_ok r" "registrations_ok r st"
  shows "\<exists>ids. recover_parser r st = Some (st\<lparr>main_parser_fields := map (\<lambda>i. field_names r ! unat i) ids,
      main_parser_field_ids := ids\<rparr>) \<and> set ids = registered_fields r st \<and> distinct ids"
proof -
  let ?fs = "map (\<lambda>i. ip_fields (inline_psf_map r ! unat i)) (ptr_inline_psf st)"
  let ?gs = "map (\<lambda>i. gp_fields (general_psf_map r ! unat i)) (ptr_general_psf st)"
  let ?ids = "fold List.insert (concat ?gs @ concat ?fs) []"
  have a: "all_some (map (\<lambda>i. map_option ip_fields (at (inline_psf_map r) (unat i))) (ptr_inline_psf st)) = Some ?fs"
    using assms(2) by (intro all_some_map) (auto simp: registrations_ok_def at_def)
  have b: "all_some (map (\<lambda>i. map_option gp_fields (at (general_psf_map r) (unat i))) (ptr_general_psf st)) = Some ?gs"
    using assms(2) by (intro all_some_map) (auto simp: registrations_ok_def at_def)
  have s: "set ?ids = registered_fields r st" "distinct ?ids"
    using fold_insert_set [of "concat ?gs @ concat ?fs" "[]"] by (auto simp: registered_fields_def)
  have "\<forall>i \<in> set ?ids. unat i < length (field_names r)"
    using assms unfolding s(1) registered_fields_def registry_ok_def registrations_ok_def by (auto dest: nth_mem)
  then have "all_some (map (\<lambda>i. at (field_names r) (unat i)) ?ids) = Some (map (\<lambda>i. field_names r ! unat i) ?ids)"
    by (intro all_some_map) (simp add: at_def)
  then show ?thesis using s by (intro exI [of _ ?ids]) (simp only: recover_parser_def a b Let_def bind.bind_lunit simp_thms)
qed

text \<open>
  The file does not have the return types of the general PSFs nor the names under which PSFs made
  from expressions are looked up.
\<close>

definition saved_part :: "('h, 'e) psf_registry \<Rightarrow> ('h, 'e) psf_registry" where
  "saved_part r = r\<lparr>general_psf_map := map (\<lambda>p. p\<lparr>gp_ret_type := ERROR_T\<rparr>) (general_psf_map r), named_psfs := Map.empty\<rparr>"

lemma saved_part_ok:
  assumes "registry_ok r" "registrations_ok r st"
  shows "registry_ok (saved_part r) \<and> registrations_ok (saved_part r) st \<and>
    registered_fields (saved_part r) st = registered_fields r st"
proof -
  have "gp_fields (general_psf_map (saved_part r) ! unat i) = gp_fields (general_psf_map r ! unat i)"
    if "i \<in> set (ptr_general_psf st)" for i
    using assms(2) that by (simp add: saved_part_def registrations_ok_def)
  moreover have "inline_psf_map (saved_part r) = inline_psf_map r" by (simp add: saved_part_def)
  ultimately have "registered_fields (saved_part r) st = registered_fields r st" by (simp add: registered_fields_def)
  then show ?thesis using assms by (auto simp: saved_part_def registry_ok_def names_ok_def registrations_ok_def)
qed

lemma load_psfs:
  assumes "loads_ok host r" "restored = map (\<lambda>(name, ir). (name, the (recoverPsf host name ir))) (psf_irs r)"
  shows "all_some (map (load_lib host) (map fst (libs r))) = Some (libs r)"
    "all_some (map (load_general host (libs r) restored) (map general_text (general_psf_map r))) =
      Some (general_psf_map (saved_part r))"
    "all_some (map (load_inline host (libs r) restored) (map inline_text (inline_psf_map r))) = Some (inline_psf_map r)"
proof -
  have "load_lib host (fst x) = Some x" if "x \<in> set (libs r)" for x
    using assms(1) that by (auto simp: loads_ok_def load_lib_def)
  then show "all_some (map (load_lib host) (map fst (libs r))) = Some (libs r)"
    using all_some_map [of "libs r" "load_lib host \<circ> fst" "\<lambda>x. x"] by simp
  have "load_general host (libs r) restored (general_text p) = Some (p\<lparr>gp_ret_type := ERROR_T\<rparr>)"
    if "p \<in> set (general_psf_map r)" for p
  proof -
    have "eval_saved host r (gp_lib_id p) (gp_func_name p) (gp_eval p)" using assms(1) that by (simp add: loads_ok_def)
    from eval_saved_loads [OF assms(1) this assms(2)] show ?thesis by (simp add: load_general_def)
  qed
  then show "all_some (map (load_general host (libs r) restored) (map general_text (general_psf_map r))) =
      Some (general_psf_map (saved_part r))"
    using all_some_map [of "general_psf_map r" "load_general host (libs r) restored \<circ> general_text" "\<lambda>p. p\<lparr>gp_ret_type := ERROR_T\<rparr>"]
    by (simp add: saved_part_def comp_def)
  have "load_inline host (libs r) restored (inline_text p) = Some p" if "p \<in> set (inline_psf_map r)" for p
  proof -
    have e: "eval_saved host r (ip_lib_id p) (ip_func_name p) (ip_eval p)" "ip_lib_id p \<noteq> LIB_PROJECTION"
      using assms(1) that by (simp_all add: loads_ok_def)
    from eval_saved_loads [OF assms(1) e(1) assms(2)] e(2) show ?thesis by (simp add: load_inline_def)
  qed
  then show "all_some (map (load_inline host (libs r) restored) (map inline_text (inline_psf_map r))) = Some (inline_psf_map r)"
    using all_some_map [of "inline_psf_map r" "load_inline host (libs r) restored \<circ> inline_text" "\<lambda>p. p"]
    by (simp add: comp_def)
qed

lemma fold_insert_distinct: "distinct (ys @ xs) \<Longrightarrow> fold List.insert xs ys = rev xs @ ys"
  by (induction xs arbitrary: ys) auto

text \<open>
  C9: the naming file that a checkpoint writes is read back by recovery: when every saved string is
  a word and the loader finds the same functions again, an empty store gets the same fields,
  libraries, PSFs and registrations, except for the return types of the general PSFs and the
  lookups by name, and a parser for exactly the fields that the registered PSFs need.
\<close>

theorem naming_file_roundtrip:
  fixes r :: "('h, 'e) psf_registry"
  assumes "registry_ok r" "registrations_ok r st" "words_ok r" "loads_ok host r" "sizes_ok r st"
    "distinct (ptr_general_psf st)" "distinct (ptr_inline_psf st)"
  shows "\<exists>st'. read_naming_file host (write_naming_file r st) empty_registry = Some (saved_part r, st') \<and>
    set (ptr_general_psf st') = set (ptr_general_psf st) \<and> set (ptr_inline_psf st') = set (ptr_inline_psf st) \<and>
    set (main_parser_field_ids st') = registered_fields r st \<and> distinct (main_parser_field_ids st') \<and>
    main_parser_fields st' = map (\<lambda>i. field_names r ! unat i) (main_parser_field_ids st')"
proof -
  have names: "names_ok r" using assms(1) by (simp add: registry_ok_def)
  obtain s1 s2 s3 s4 s5 s6 s7 where sec:
    "read_sized extract_word (write_naming_file r st) = Some (field_names r, s1)"
    "read_sized extract_word s1 = Some (map fst (libs r), s2)" "read_sized read_ir s2 = Some (psf_irs r, s3)"
    "read_sized read_psf s3 = Some (map general_text (general_psf_map r), s4)"
    "read_sized read_psf s4 = Some (map inline_text (inline_psf_map r), s5)"
    "read_sized read_id s5 = Some (ptr_general_psf st, s6)" "read_sized read_id s6 = Some (ptr_inline_psf st, s7)"
    using read_sections [OF names assms(3-5)] by blast
  obtain m where m: "fold add_field (zip (field_names r) [0..<length (field_names r)]) (empty_registry :: ('h, 'e) psf_registry) =
      empty_registry\<lparr>field_names := field_names r, field_lookup_map := m\<rparr>"
    "names_ok (empty_registry\<lparr>field_names := field_names r, field_lookup_map := m\<rparr>)"
    using read_fields [OF names_ok_distinct [OF names], of empty_registry] names empty_registry_ok
    by (auto simp: registry_ok_def names_ok_def empty_registry_def)
  have fm: "m = field_lookup_map r" using names_ok_unique [OF m(2) names] by simp
  have irs: "fold (\<lambda>(name, ir). alist_insert name ir) (psf_irs r) [] = psf_irs r"
    using assms(4) fold_alist_insert [of "[]" "psf_irs r"] by (simp add: loads_ok_def)
  have rest: "restore_psfs host (psf_irs r) = Some (map (\<lambda>(name, ir). (name, the (recoverPsf host name ir))) (psf_irs r))"
    using assms(4) by (intro restore_psfs_saved) (auto simp: loads_ok_def)
  note ld = load_psfs [OF assms(4) refl]
  let ?st = "ParserState\<lparr>ptr_general_psf := rev (ptr_general_psf st), ptr_inline_psf := rev (ptr_inline_psf st)\<rparr>"
  have "registrations_ok r ?st" using assms(2) by (simp add: registrations_ok_def)
  note sp = saved_part_ok [OF assms(1) this]
  obtain ids where ids: "recover_parser (saved_part r) ?st = Some (?st\<lparr>main_parser_fields := map (\<lambda>i. field_names r ! unat i) ids,
      main_parser_field_ids := ids\<rparr>)" "set ids = registered_fields r ?st" "distinct ids"
    using recover_parser_ok [of "saved_part r" ?st] sp by (auto simp: saved_part_def)
  have ins: "fold List.insert (ptr_general_psf st) [] = rev (ptr_general_psf st)" "fold List.insert (ptr_inline_psf st) [] = rev (ptr_inline_psf st)"
    using assms(6,7) by (simp_all add: fold_insert_distinct)
  have sv: "\<lparr>field_names = field_names r, field_lookup_map = field_lookup_map r, libs = libs r, inline_psf_map = inline_psf_map r,
      general_psf_map = general_psf_map (saved_part r), named_psfs = Map.empty, psf_irs = psf_irs r\<rparr> = saved_part r"
    by (simp add: saved_part_def)
  have "read_naming_file host (write_naming_file r st) empty_registry =
    Some (saved_part r, ?st\<lparr>main_parser_fields := map (\<lambda>i. field_names r ! unat i) ids, main_parser_field_ids := ids\<rparr>)"
    unfolding read_naming_file_def
    by (simp add: sec m(1) fm ld rest ins Let_def del: map_map)
      (simp add: empty_registry_def irs ids(1) sv ld del: map_map)
  then show ?thesis using ids by (auto simp: registered_fields_def)
qed

text \<open>
  C38: recovery reads the code of a PSF made from an expression as one word. The text of a module
  contains spaces: reading the line that the checkpoint wrote gives the name with the first
  word of the code only, and leaves the rest of the code to be read as the next item.
\<close>

theorem ir_cut_at_space:
  assumes "word_text name" "word_text w" "isspace c"
  shows "read_ir (write_ir (name, w @ c # rest) @ s) = Some ((name, w), c # rest @ newline @ s)"
proof -
  have "extract_word (name @ CHR '' '' # w @ c # rest @ CHR 0x0A # s) = Some (name, CHR '' '' # w @ c # rest @ CHR 0x0A # s)"
    by (rule extract_word_text [OF assms(1)]) simp
  moreover have "extract_word (CHR '' '' # w @ c # rest @ CHR 0x0A # s) = Some (w, c # rest @ CHR 0x0A # s)"
    by (rule extract_word_lead [OF assms(2,3)]) simp
  ultimately show ?thesis by (simp add: read_ir_def write_ir_def write_line_def)
qed

theorem ir_cut_at_space_witness:
  "read_ir (write_ir (''p'', ''; ModuleID'')) = Some ((''p'', '';''), '' ModuleID'' @ newline)"
proof -
  have "read_ir (write_ir (''p'', '';'' @ CHR '' '' # ''ModuleID'') @ []) = Some ((''p'', '';''), CHR '' '' # ''ModuleID'' @ newline @ [])"
    by (rule ir_cut_at_space) (simp_all add: word_text_def isspace_def)
  then show ?thesis by simp
qed


section \<open>A saved registry\<close>

text \<open>A projection and an expression, both registered.\<close>

definition naming_demo :: "(unit, nat) psf_registry" where
  "naming_demo = snd (MakeEzPsf ''p'' INT32_T [''b''] 3 ''ir'' demo_registry)"

definition naming_demo_state :: parser_state where
  "naming_demo_state = ParserState\<lparr>ptr_general_psf := [0], ptr_inline_psf := [0]\<rparr>"

definition demo_host :: "(unit, nat) host" where
  "demo_host = \<lparr>absolute_path = (\<lambda>p. p), dlopen = (\<lambda>_. None), dlsym = (\<lambda>_ _. None), projection = 7,
     recoverPsf = (\<lambda>_ _. Some 3)\<rparr>"

lemma naming_demo_fields:
  "field_names naming_demo = [''a'', ''b'']" "libs naming_demo = []" "psf_irs naming_demo = [(''p'', ''ir'')]"
  "general_psf_map naming_demo = [\<lparr>gp_fields = [0], gp_eval = 7, gp_lib_id = -1, gp_func_name = ''proj'', gp_ret_type = ERROR_T\<rparr>]"
  "inline_psf_map naming_demo = [\<lparr>ip_fields = [1], ip_eval = 3, ip_lib_id = -2, ip_func_name = ''p''\<rparr>]"
  by (simp_all add: naming_demo_def MakeEzPsf_def demo_registry_def MakeProjection_def AcquireFieldID_def empty_registry_def
      add_general_def alist_insert_def LIB_EZ_PSF_def Let_def)

theorem naming_file_roundtrip_witness:
  "\<exists>st'. read_naming_file demo_host (write_naming_file naming_demo naming_demo_state) empty_registry =
      Some (saved_part naming_demo, st') \<and> set (main_parser_field_ids st') = {0, 1} \<and>
      main_parser_fields st' = map (\<lambda>i. field_names naming_demo ! unat i) (main_parser_field_ids st')"
proof -
  have ok: "registry_ok naming_demo"
    unfolding naming_demo_def
    by (rule MakeEzPsf_ok, unfold demo_registry_def, rule MakeProjection_ok [OF empty_registry_ok])
      (simp_all add: empty_registry_def MakeProjection_def AcquireFieldID_def add_general_def Let_def)
  have "\<exists>st'. read_naming_file demo_host (write_naming_file naming_demo naming_demo_state) empty_registry =
      Some (saved_part naming_demo, st') \<and>
    set (ptr_general_psf st') = set (ptr_general_psf naming_demo_state) \<and>
    set (ptr_inline_psf st') = set (ptr_inline_psf naming_demo_state) \<and>
    set (main_parser_field_ids st') = registered_fields naming_demo naming_demo_state \<and> distinct (main_parser_field_ids st') \<and>
    main_parser_fields st' = map (\<lambda>i. field_names naming_demo ! unat i) (main_parser_field_ids st')"
    by (rule naming_file_roundtrip [OF ok])
      (simp_all add: naming_demo_fields naming_demo_state_def ParserState_def registrations_ok_def words_ok_def loads_ok_def
        sizes_ok_def ir_ok_def eval_saved_def demo_host_def word_text_def isspace_def LIB_PROJECTION_def LIB_EZ_PSF_def)
  then show ?thesis
    by (auto simp: registered_fields_def naming_demo_fields naming_demo_state_def ParserState_def)
qed

end
