(* ===== verification/Index_Clean.thy ===== *)
theory Index_Clean
  imports Index_Create
begin

text \<open>
  The passes over the whole hash index of \<open>fishstore.h\<close>: \<open>CleanHashTableBuckets\<close>, which a garbage
  collection calls chunk by chunk to delete the entries that point before the begin address of
  the log, with the state of \<open>gc_state.h\<close>; and the pass of \<open>RecoverFuzzyIndexComplete\<close> that clears the
  tentative entries of a recovered index. Each call is one atomic step. None is a walk that
  does not end or leaves the table.
\<close>

section \<open>The passes\<close>

record ('t, 'c) gc_state =
  truncate_callback :: "'t option"
  complete_callback :: "'c option"
  gc_num_chunks :: u64
  gc_next_chunk :: u64

definition GcState :: "('t, 'c) gc_state" where
  "GcState = \<lparr>truncate_callback = None, complete_callback = None, gc_num_chunks = 0, gc_next_chunk = 0\<rparr>"

definition gc_Initialize :: "'t option \<Rightarrow> 'c option \<Rightarrow> u64 \<Rightarrow> ('t, 'c) gc_state \<Rightarrow> ('t, 'c) gc_state" where
  "gc_Initialize truncate_cb complete_cb num_chunks g =
     g\<lparr>truncate_callback := truncate_cb, complete_callback := complete_cb, gc_num_chunks := num_chunks, gc_next_chunk := 0\<rparr>"

definition kGcHashTableChunkSize :: u64 where "kGcHashTableChunkSize = 16384"
definition kGrowHashTableChunkSize :: u64 where "kGrowHashTableChunkSize = 16384"

text \<open>What the two passes do to an entry; nothing interferes between its load and its update.\<close>

definition clean_entry :: "address \<Rightarrow> hb_entry \<Rightarrow> hb_entry" where
  "clean_entry begin_address expected_entry =
     (if \<not> hbe_unused expected_entry \<and> hbe_address expected_entry \<noteq> kInvalidAddress \<and>
         hbe_address expected_entry < begin_address
      then snd (snd (hbe_compare_exchange_strong expected_entry expected_entry kInvalidEntry))
      else expected_entry)"

definition clear_tentative :: "hb_entry \<Rightarrow> hb_entry" where
  "clear_tentative e = (if hbe_tentative e then kInvalidEntry else e)"

fun update_entries :: "(hb_entry \<Rightarrow> hb_entry) \<Rightarrow> bucket_ptr \<Rightarrow> nat list \<Rightarrow> hash_index \<Rightarrow> hash_index option" where
  "update_entries f bucket [] hi = Some hi"
| "update_entries f bucket (entry_idx # rest) hi =
     (case load_entry hi (bucket, entry_idx) of
        None \<Rightarrow> None
      | Some e \<Rightarrow> update_entries f bucket rest (store_entry (bucket, entry_idx) (f e) hi))"

partial_function (option) update_chain :: "(hb_entry \<Rightarrow> hb_entry) \<Rightarrow> bucket_ptr \<Rightarrow> hash_index \<Rightarrow> hash_index option" where
  "update_chain f bucket hi =
     (case update_entries f bucket [0..<kNumEntries] hi of
        None \<Rightarrow> None
      | Some hi \<Rightarrow>
          (case get_bucket hi bucket of
             None \<Rightarrow> None
           | Some b \<Rightarrow> if ovf_unused (hb_overflow b) then Some hi else update_chain f (next_ptr b) hi))"

declare update_chain.simps [code]

fun update_buckets :: "(hb_entry \<Rightarrow> hb_entry) \<Rightarrow> nat list \<Rightarrow> hash_index \<Rightarrow> hash_index option" where
  "update_buckets f [] hi = Some hi"
| "update_buckets f (idx # rest) hi =
     (case update_chain f (Main idx) hi of None \<Rightarrow> None | Some hi \<Rightarrow> update_buckets f rest hi)"

definition CleanHashTableBuckets :: "address \<Rightarrow> u64 \<Rightarrow> ('t, 'c) gc_state \<Rightarrow> hash_index \<Rightarrow>
    (bool \<times> ('t, 'c) gc_state \<times> hash_index) option" where
  "CleanHashTableBuckets begin_address grow_num_chunks g hi =
     (let chunk = gc_next_chunk g;
          g = g\<lparr>gc_next_chunk := chunk + 1\<rparr>
      in if chunk \<ge> gc_num_chunks g then Some (False, g, hi)
         else
           let upper_bound = (if chunk + 1 < grow_num_chunks then kGrowHashTableChunkSize
                              else ht_size (hi_table hi) - chunk * kGcHashTableChunkSize)
           in map_option (\<lambda>hi. (True, g, hi))
                (update_buckets (clean_entry begin_address)
                   (map (\<lambda>idx. unat (chunk * kGcHashTableChunkSize + of_nat idx)) [0..<unat upper_bound]) hi))"

definition clear_tentative_entries :: "hash_index \<Rightarrow> hash_index option" where
  "clear_tentative_entries hi = update_buckets clear_tentative [0..<unat (ht_size (hi_table hi))] hi"


section \<open>What a pass does to the chains\<close>

definition map_bucket :: "(hb_entry \<Rightarrow> hb_entry) \<Rightarrow> hash_bucket \<Rightarrow> hash_bucket" where
  "map_bucket f b = b\<lparr>hb_entries := map f (hb_entries b)\<rparr>"

definition map_chain :: "(hb_entry \<Rightarrow> hb_entry) \<Rightarrow> bucket_ptr set \<Rightarrow> (bucket_ptr \<times> hash_bucket) list \<Rightarrow>
    (bucket_ptr \<times> hash_bucket) list" where
  "map_chain f P bs = map (\<lambda>(q, b). (q, if q \<in> P then map_bucket f b else b)) bs"

lemma fst_map_chain [simp]: "fst ` set (map_chain f P bs) = fst ` set bs" "map fst (map_chain f P bs) = map fst bs"
  by (force simp: map_chain_def)+

lemma length_map_chain [simp]: "length (map_chain f P bs) = length bs"
  by (simp add: map_chain_def)

lemma map_bucket_fields [simp]:
  "hb_overflow (map_bucket f b) = hb_overflow b" "hb_entries (map_bucket f b) = map f (hb_entries b)"
  by (simp_all add: map_bucket_def)

lemma map_chain_twice:
  assumes "\<And>e. f (f e) = f e"
  shows "map_chain f P (map_chain f Q bs) = map_chain f (P \<union> Q) bs"
proof -
  have "map_bucket f (map_bucket f b) = map_bucket f b" for b by (simp add: map_bucket_def assms)
  then show ?thesis by (auto simp: map_chain_def)
qed

lemma map_chain_all: "fst ` set bs \<subseteq> P \<Longrightarrow> map_chain f P bs = map (\<lambda>(q, b). (q, map_bucket f b)) bs"
  by (force simp: map_chain_def)

lemma map_chain_none: "fst ` set bs \<inter> P = {} \<Longrightarrow> map_chain f P bs = bs"
  by (induction bs) (auto simp: map_chain_def)

text \<open>The chains matter only for the buckets of the table.\<close>

lemma chains_ok_cong:
  "(\<And>i. i < num_buckets hi \<Longrightarrow> cs i = cs' i) \<Longrightarrow> chains_ok hi cs \<Longrightarrow> chains_ok hi cs'"
  by (simp add: chains_ok_def)

lemma chain_bucket:
  assumes "chains_ok hi cs" "i < num_buckets hi" "(p, c) \<in> set (cs i)" "get_bucket hi p = Some b"
  shows "c = b"
  using chain_get [OF chains_okD(1) [OF assms(1,2)] assms(3)] assms(4) by simp

lemma fold_update_map:
  "n \<le> length xs \<Longrightarrow> fold (\<lambda>k xs. xs[k := f (xs ! k)]) [0..<n] xs = map f (take n xs) @ drop n xs"
proof (induction n)
  case (Suc n)
  then have "drop n xs = xs ! n # drop (Suc n) xs" by (simp add: Cons_nth_drop_Suc)
  then show ?case using Suc by (simp add: nth_append take_Suc_conv_app_nth list_update_append)
qed simp

text \<open>The entries of one bucket, one after the other.\<close>

definition set_at :: "bucket_ptr \<Rightarrow> hash_bucket \<Rightarrow> (bucket_ptr \<times> hash_bucket) list \<Rightarrow> (bucket_ptr \<times> hash_bucket) list" where
  "set_at p b bs = map (\<lambda>(q, c). (q, if q = p then b else c)) bs"

lemma fst_set_at [simp]: "fst ` set (set_at p b bs) = fst ` set bs"
  by (force simp: set_at_def)

lemma set_at_twice [simp]: "set_at p b (set_at p b' bs) = set_at p b bs"
  by (auto simp: set_at_def)

lemma set_at_id: "\<forall>c. (p, c) \<in> set bs \<longrightarrow> c = b \<Longrightarrow> set_at p b bs = bs"
  by (induction bs) (auto simp: set_at_def)

lemma upd_slot_set_at:
  "\<forall>c. (p, c) \<in> set bs \<longrightarrow> c = b \<Longrightarrow> upd_slot p k e bs = set_at p (b\<lparr>hb_entries := (hb_entries b)[k := e]\<rparr>) bs"
  by (induction bs) (auto simp: set_at_def upd_slot_def)

abbreviation upd_entries :: "(hb_entry \<Rightarrow> hb_entry) \<Rightarrow> nat list \<Rightarrow> hash_bucket \<Rightarrow> hash_bucket" where
  "upd_entries f ks b \<equiv> b\<lparr>hb_entries := fold (\<lambda>k xs. xs[k := f (xs ! k)]) ks (hb_entries b)\<rparr>"

lemma update_entries_chains:
  assumes "index_wf hi" "chains_ok hi cs" "i0 < num_buckets hi" "p \<in> fst ` set (cs i0)" "get_bucket hi p = Some b"
  shows "\<exists>hi'. update_entries f p ks hi = Some hi' \<and> index_wf hi' \<and>
    chains_ok hi' (\<lambda>i. set_at p (upd_entries f ks b) (cs i)) \<and> get_bucket hi' p = Some (upd_entries f ks b) \<and>
    ht_size (hi_table hi') = ht_size (hi_table hi) \<and> num_buckets hi' = num_buckets hi"
  using assms
proof (induction ks arbitrary: hi cs b)
  case Nil
  have "set_at p b (cs i) = cs i" if "i < num_buckets hi" for i
    using set_at_id chain_bucket [OF Nil.prems(2) that _ Nil.prems(5)] by blast
  then have "chains_ok hi (\<lambda>i. set_at p b (cs i))" by (intro chains_ok_cong [OF _ Nil.prems(2)]) simp
  then show ?case using Nil by simp
next
  case (Cons k ks)
  let ?e = "f (hb_entries b ! k)" and ?b = "b\<lparr>hb_entries := (hb_entries b)[k := f (hb_entries b ! k)]\<rparr>"
  let ?hi = "store_entry (p, k) ?e hi"
  have l: "load_entry hi (p, k) = Some (hb_entries b ! k)" using Cons.prems(5) by (simp add: load_entry_def)
  note st = store_entry_wf [OF Cons.prems(1-4), of k ?e]
  have pok: "ptr_ok hi p"
    using chain_ptrs_ok [OF Cons.prems(1,3) chains_okD(1) [OF Cons.prems(2,3)]] Cons.prems(4) by auto
  have g: "get_bucket ?hi p = Some ?b"
    using Cons.prems(5) get_set_bucket [OF pok pok] by (simp add: store_entry_def)
  have "upd_slot p k ?e (cs i) = set_at p ?b (cs i)" if "i < num_buckets hi" for i
    using upd_slot_set_at chain_bucket [OF Cons.prems(2) that _ Cons.prems(5)] by blast
  then have ch: "chains_ok ?hi (\<lambda>i. set_at p ?b (cs i))" using st(4) by (intro chains_ok_cong [OF _ st(1)]) simp
  have m: "i0 < num_buckets ?hi" "p \<in> fst ` set (set_at p ?b (cs i0))" using Cons.prems(3,4) st(4) by simp_all
  from Cons.IH [OF st(2) ch m g] show ?case using l st(3,4) by simp
qed

lemma map_chain_set_at:
  "\<forall>c. (p, c) \<in> set bs \<longrightarrow> c = b \<Longrightarrow> set_at p (map_bucket f b) bs = map_chain f {p} bs"
  by (induction bs) (auto simp: set_at_def map_chain_def)

lemma update_bucket_chains:
  assumes "index_wf hi" "chains_ok hi cs" "i0 < num_buckets hi" "(p, b) \<in> set (cs i0)"
  shows "\<exists>hi'. update_entries f p [0..<kNumEntries] hi = Some hi' \<and> index_wf hi' \<and>
    chains_ok hi' (\<lambda>i. map_chain f {p} (cs i)) \<and> get_bucket hi' p = Some (map_bucket f b) \<and>
    ht_size (hi_table hi') = ht_size (hi_table hi) \<and> num_buckets hi' = num_buckets hi"
proof -
  have g: "get_bucket hi p = Some b" using chain_get [OF chains_okD(1) [OF assms(2,3)] assms(4)] .
  have "length (hb_entries b) = kNumEntries" using chains_okD(2) [OF assms(2,3,4)] by simp
  then have u: "upd_entries f [0..<kNumEntries] b = map_bucket f b"
    using fold_update_map [of kNumEntries "hb_entries b" f] by (simp add: map_bucket_def)
  have p: "p \<in> fst ` set (cs i0)" using assms(4) by force
  obtain hi' where hi': "update_entries f p [0..<kNumEntries] hi = Some hi'" "index_wf hi'"
    "chains_ok hi' (\<lambda>i. set_at p (map_bucket f b) (cs i))" "get_bucket hi' p = Some (map_bucket f b)"
    "ht_size (hi_table hi') = ht_size (hi_table hi)" "num_buckets hi' = num_buckets hi"
    using update_entries_chains [OF assms(1-3) p g, of f "[0..<kNumEntries]"] unfolding u by blast
  have "set_at p (map_bucket f b) (cs i) = map_chain f {p} (cs i)" if "i < num_buckets hi" for i
    using map_chain_set_at chain_bucket [OF assms(2) that _ g] by blast
  then have "chains_ok hi' (\<lambda>i. map_chain f {p} (cs i))" using hi'(6) by (intro chains_ok_cong [OF _ hi'(3)]) simp
  then show ?thesis using hi' by blast
qed

text \<open>A chain, from one of its buckets on.\<close>

lemma update_chain_chains:
  assumes idem: "\<And>e. f (f e) = f e"
  shows "index_wf hi \<Longrightarrow> chains_ok hi cs \<Longrightarrow> i0 < num_buckets hi \<Longrightarrow> chain hi p bs \<Longrightarrow> set bs \<subseteq> set (cs i0) \<Longrightarrow>
    \<exists>hi'. update_chain f p hi = Some hi' \<and> index_wf hi' \<and> chains_ok hi' (\<lambda>i. map_chain f (fst ` set bs) (cs i)) \<and>
      ht_size (hi_table hi') = ht_size (hi_table hi) \<and> num_buckets hi' = num_buckets hi"
proof (induction "length bs" arbitrary: bs hi cs p rule: less_induct)
  case less
  note prems = less.prems
  obtain b rest where bs: "bs = (p, b) # rest" using chain_nonempty [OF prems(4)] by auto
  then have pb: "(p, b) \<in> set (cs i0)" using prems(5) by auto
  obtain hi1 where hi1: "update_entries f p [0..<kNumEntries] hi = Some hi1" "index_wf hi1"
    "chains_ok hi1 (\<lambda>i. map_chain f {p} (cs i))" "get_bucket hi1 p = Some (map_bucket f b)"
    "ht_size (hi_table hi1) = ht_size (hi_table hi)" "num_buckets hi1 = num_buckets hi"
    using update_bucket_chains [OF prems(1-3) pb] by blast
  show ?case
  proof (cases "ovf_unused (hb_overflow b)")
    case True
    from prems(4) True have "rest = []" unfolding bs by cases auto
    then show ?thesis using hi1 True by (subst update_chain.simps) (simp add: bs)
  next
    case False
    from prems(4) False have ch: "chain hi (next_ptr b) rest" unfolding bs by cases auto
    have "chain hi1 (next_ptr b) (map_chain f {p} rest)"
      unfolding map_chain_def
    proof (rule chain_map [OF ch])
      fix q c assume qc: "(q, c) \<in> set rest"
      then have "(q, if q \<in> {p} then map_bucket f c else c) \<in> set (map_chain f {p} (cs i0))"
        using prems(5) bs by (force simp: map_chain_def)
      then show "get_bucket hi1 q = Some (if q \<in> {p} then map_bucket f c else c) \<and>
          hb_overflow (if q \<in> {p} then map_bucket f c else c) = hb_overflow c"
        using chain_get [OF chains_okD(1) [OF hi1(3)]] prems(3) hi1(6) by simp
    qed
    moreover have "set (map_chain f {p} rest) \<subseteq> set (map_chain f {p} (cs i0))"
      using prems(5) bs by (auto simp: map_chain_def)
    moreover have "i0 < num_buckets hi1" using prems(3) hi1(6) by simp
    ultimately obtain hi' where "update_chain f (next_ptr b) hi1 = Some hi'" "index_wf hi'"
      "chains_ok hi' (\<lambda>i. map_chain f (fst ` set rest) (map_chain f {p} (cs i)))"
      "ht_size (hi_table hi') = ht_size (hi_table hi1)" "num_buckets hi' = num_buckets hi1"
      using less.hyps [OF _ hi1(2,3), of "map_chain f {p} rest" "next_ptr b"] by (auto simp: bs)
    then show ?thesis using hi1 False
      by (subst update_chain.simps) (simp add: bs map_chain_twice [OF idem])
  qed
qed


text \<open>The chains of several buckets of the table.\<close>

lemma update_buckets_chains:
  assumes idem: "\<And>e. f (f e) = f e"
  shows "index_wf hi \<Longrightarrow> chains_ok hi cs \<Longrightarrow> set ns \<subseteq> {..<num_buckets hi} \<Longrightarrow>
    \<exists>hi'. update_buckets f ns hi = Some hi' \<and> index_wf hi' \<and>
      chains_ok hi' (\<lambda>i. if i \<in> set ns then map_chain f UNIV (cs i) else cs i) \<and>
      ht_size (hi_table hi') = ht_size (hi_table hi) \<and> num_buckets hi' = num_buckets hi"
proof (induction ns arbitrary: hi cs)
  case (Cons n ns)
  then have n: "n < num_buckets hi" by simp
  obtain hi1 where hi1: "update_chain f (Main n) hi = Some hi1" "index_wf hi1"
    "chains_ok hi1 (\<lambda>i. map_chain f (fst ` set (cs n)) (cs i))"
    "ht_size (hi_table hi1) = ht_size (hi_table hi)" "num_buckets hi1 = num_buckets hi"
    using update_chain_chains [OF idem Cons.prems(1,2) n chains_okD(1) [OF Cons.prems(2) n]] by auto
  let ?cs = "\<lambda>i. if i = n then map_chain f UNIV (cs i) else cs i"
  have "map_chain f (fst ` set (cs n)) (cs i) = ?cs i" if i: "i < num_buckets hi1" for i
  proof (cases "i = n")
    case True
    then show ?thesis by (simp add: map_chain_all)
  next
    case False
    then have "fst ` set (cs i) \<inter> fst ` set (cs n) = {}" using Cons.prems(2) n i hi1(5) by (simp add: chains_ok_def)
    then show ?thesis using False by (simp add: map_chain_none)
  qed
  then have ch: "chains_ok hi1 ?cs" by (rule chains_ok_cong [OF _ hi1(3)])
  obtain hi2 where hi2: "update_buckets f ns hi1 = Some hi2" "index_wf hi2"
    "chains_ok hi2 (\<lambda>i. if i \<in> set ns then map_chain f UNIV (?cs i) else ?cs i)"
    "ht_size (hi_table hi2) = ht_size (hi_table hi1)" "num_buckets hi2 = num_buckets hi1"
    using Cons.IH [OF hi1(2) ch] Cons.prems(3) hi1(5) by auto
  have "(\<lambda>i. if i \<in> set ns then map_chain f UNIV (?cs i) else ?cs i) =
      (\<lambda>i. if i \<in> set (n # ns) then map_chain f UNIV (cs i) else cs i)"
    by (auto simp: fun_eq_iff map_chain_twice [OF idem])
  then show ?case using hi1 hi2 by simp
qed auto

lemma slots_map_chain:
  assumes "\<And>x. x \<in> set bs \<Longrightarrow> length (hb_entries (snd x)) = kNumEntries"
  shows "slots (map_chain f UNIV bs) = map (\<lambda>(x, v). (x, f v)) (slots bs)"
  using assms
proof (induction bs)
  case (Cons x bs)
  obtain q b where x: "x = (q, b)" by (cases x)
  have "length (hb_entries b) = kNumEntries" using Cons.prems [of x] x by simp
  then have "bucket_slots (q, map_bucket f b) = map (\<lambda>(x, v). (x, f v)) (bucket_slots (q, b))"
    by (simp add: bucket_slots_def)
  then show ?case using Cons by (simp add: map_chain_def slots_Cons x)
qed (simp add: map_chain_def slots_def)


section \<open>What a pass does to the index\<close>

text \<open>A pass that keeps or deletes each entry: lookups that find a kept entry find it still.\<close>

lemma find_slot_filter:
  assumes "\<And>v. f v = v \<or> f v = 0" "\<And>v. P v \<Longrightarrow> v \<noteq> 0"
  shows "find_slot P (map (\<lambda>(x, v). (x, f v)) xs) = find_slot (\<lambda>v. P v \<and> f v = v) xs"
proof (induction xs)
  case (Cons y ys)
  obtain x v where y: "y = (x, v)" by (cases y)
  show ?case using assms(1) [of v] assms(2) [of 0] Cons by (auto simp: find_slot_def y)
qed (simp add: find_slot_def)

lemma find_slot_conj: "find_slot P xs = Some x \<Longrightarrow> Q (snd x) \<Longrightarrow> find_slot (\<lambda>v. P v \<and> Q v) xs = Some x"
  by (induction xs) (auto simp: find_slot_def split: if_splits)

lemma final_match_not_0: "final_match tag e \<Longrightarrow> e \<noteq> 0"
  by (auto simp: final_match_def hbe_unused_def)

lemma pass_lookup:
  assumes f: "\<And>e. f e = e \<or> f e = 0" and wf: "index_wf hi" and cs: "chains_ok hi cs" and wf': "index_wf hi'"
    and cs': "chains_ok hi' (\<lambda>i. if i \<in> I then map_chain f UNIV (cs i) else cs i)"
    and sz: "ht_size (hi_table hi') = ht_size (hi_table hi)"
  shows "index_map hi h = Some e \<Longrightarrow> f e = e \<Longrightarrow> index_map hi' h = Some e"
    and "ht_bucket (hi_table hi) h \<in> I \<Longrightarrow> index_map hi' h = Some e \<Longrightarrow> f e = e"
proof -
  let ?i = "ht_bucket (hi_table hi) h" and ?P = "final_match (kh_tag h)"
  have b: "ht_bucket (hi_table hi') h = ?i" by (simp add: ht_bucket_def sz)
  have sl: "slots (map_chain f UNIV (cs ?i)) = map (\<lambda>(x, v). (x, f v)) (slots (cs ?i))"
    using slots_map_chain chains_okD(2) [OF cs ht_bucket_num [OF wf]] by blast
  have look: "index_map hi h = map_option snd (find_slot ?P (slots (cs ?i)))"
    using lookup_slot_of(2) [OF wf cs] by (simp add: slot_of_def)
  have look': "index_map hi' h = map_option snd (if ?i \<in> I then find_slot (\<lambda>v. ?P v \<and> f v = v) (slots (cs ?i))
      else find_slot ?P (slots (cs ?i)))"
    using lookup_slot_of(2) [OF wf' cs'] find_slot_filter [OF f final_match_not_0, of _ _ "slots (cs ?i)"]
    by (auto simp: slot_of_def b sl)
  show "index_map hi' h = Some e" if a: "index_map hi h = Some e" "f e = e"
  proof -
    obtain x where x: "find_slot ?P (slots (cs ?i)) = Some x" "snd x = e"
      using a(1) look by (cases "find_slot ?P (slots (cs ?i))") simp_all
    then have "find_slot (\<lambda>v. ?P v \<and> f v = v) (slots (cs ?i)) = Some x" using find_slot_conj [OF x(1), of "\<lambda>v. f v = v"] a(2) by simp
    then show ?thesis using x look' by (cases "?i \<in> I") simp_all
  qed
  show "f e = e" if "?i \<in> I" "index_map hi' h = Some e"
    using that look' by (auto dest!: find_slot_Some)
qed



section \<open>Garbage collection\<close>

text \<open>The calls of the phase of garbage collection, until no chunk is left.\<close>

partial_function (option) clean_loop :: "address \<Rightarrow> u64 \<Rightarrow> ('t, 'c) gc_state \<Rightarrow> hash_index \<Rightarrow>
    (('t, 'c) gc_state \<times> hash_index) option" where
  "clean_loop begin_address grow_num_chunks g hi =
     (case CleanHashTableBuckets begin_address grow_num_chunks g hi of
        None \<Rightarrow> None
      | Some (found, g, hi) \<Rightarrow>
          if found then clean_loop begin_address grow_num_chunks g hi else Some (g, hi))"

declare clean_loop.simps [code]

definition gc_chunks :: "u64 \<Rightarrow> u64" where
  "gc_chunks table_size = max (table_size div kGcHashTableChunkSize) 1"

lemma clean_entry_cases: "clean_entry a e = e \<or> clean_entry a e = 0"
  by (simp add: clean_entry_def hbe_compare_exchange_strong_def compare_exchange_def)

lemma clean_entry_idem: "clean_entry a (clean_entry a e) = clean_entry a e"
  using clean_entry_cases [of a e] by (auto simp: clean_entry_def hbe_unused_def)

lemma clean_entry_keeps:
  assumes "final_match tag e"
  shows "clean_entry a e = e \<longleftrightarrow> hbe_address e = kInvalidAddress \<or> a \<le> hbe_address e"
  using final_match_not_0 [OF assms]
  by (auto simp: clean_entry_def hbe_compare_exchange_strong_def compare_exchange_def hbe_unused_def)

lemma unat_gc_chunks: "unat (gc_chunks sz) = max (unat sz div 16384) 1"
proof -
  have "unat (sz div kGcHashTableChunkSize) = unat sz div 16384"
    by (simp add: kGcHashTableChunkSize_def unat_div)
  then show ?thesis by (auto simp: gc_chunks_def max_def word_le_nat_alt)
qed

lemma chunk_indices:
  assumes "k * 16384 + unat u \<le> unat (sz :: u64)"
  shows "map (\<lambda>idx. unat (of_nat k * kGcHashTableChunkSize + of_nat idx)) [0..<unat u] = [k * 16384..<k * 16384 + unat (u :: u64)]"
proof -
  have "unat (of_nat k * kGcHashTableChunkSize + of_nat idx) = k * 16384 + idx" if "idx < unat u" for idx
  proof -
    have "of_nat k * kGcHashTableChunkSize + of_nat idx = (of_nat (k * 16384 + idx) :: u64)"
      by (simp add: kGcHashTableChunkSize_def)
    moreover have "k * 16384 + idx < 2 ^ 64" using assms that unsigned_less [of sz, where 'a = nat] by simp
    ultimately show ?thesis by (simp only: unat_of_nat) (simp add: take_bit_nat_eq_self)
  qed
  then show ?thesis by (intro nth_equalityI) simp_all
qed

lemma clean_chunk:
  assumes "index_wf hi" "chains_ok hi cs" "gc_next_chunk g = of_nat k" "gc_num_chunks g = gc_chunks (ht_size (hi_table hi))"
    "k < unat (gc_chunks (ht_size (hi_table hi)))" "grow_num_chunks \<le> gc_chunks (ht_size (hi_table hi))"
  shows "\<exists>hi' m. CleanHashTableBuckets a grow_num_chunks g hi = Some (True, g\<lparr>gc_next_chunk := of_nat (Suc k)\<rparr>, hi') \<and>
    index_wf hi' \<and> chains_ok hi' (\<lambda>i. if i \<in> {k * 16384..<m} then map_chain (clean_entry a) UNIV (cs i) else cs i) \<and>
    ht_size (hi_table hi') = ht_size (hi_table hi) \<and> num_buckets hi' = num_buckets hi \<and>
    (m = num_buckets hi \<or> m = Suc k * 16384 \<and> Suc k < unat (gc_chunks (ht_size (hi_table hi))))"
proof -
  let ?sz = "ht_size (hi_table hi)" and ?c = "of_nat k :: u64"
  have n: "num_buckets hi = unat ?sz" using assms(1) by (simp add: index_wf_def table_wf_def)
  have "unat ?sz > 0" using ht_bucket_num [OF assms(1), of 0] n by simp
  then have kK: "k * 16384 < unat ?sz"
    using assms(5) unat_gc_chunks [of ?sz] by (cases "unat ?sz div 16384") (auto simp: max_def split: if_splits)
  have sz: "unat ?sz < 2 ^ 64" using unsigned_less [of ?sz, where 'a = nat] by simp
  have c: "unat ?c = k" "unat (?c + 1) = Suc k" "?c + 1 = of_nat (Suc k)"
    using kK sz by (simp_all add: unat_of_nat take_bit_nat_eq_self unat_word_ariths)
  have lt: "\<not> ?c \<ge> gc_chunks ?sz" using assms(5) c(1) by (simp add: word_le_nat_alt)
  define u where "u = (if ?c + 1 < grow_num_chunks then kGrowHashTableChunkSize else ?sz - ?c * kGcHashTableChunkSize)"
  have ck: "unat (?c * kGcHashTableChunkSize) = k * 16384"
    using chunk_indices [of k 1 ?sz] kK by (simp add: kGcHashTableChunkSize_def)
  have m: "k * 16384 + unat u = unat ?sz \<or> k * 16384 + unat u = Suc k * 16384 \<and> Suc k < unat (gc_chunks ?sz)"
  proof (cases "?c + 1 < grow_num_chunks")
    case True
    then show ?thesis using assms(6) c(2) by (simp add: u_def kGrowHashTableChunkSize_def word_less_nat_alt word_le_nat_alt)
  next
    case False
    have "unat (?sz - ?c * kGcHashTableChunkSize) = unat ?sz - k * 16384"
      using ck kK by (simp add: unat_sub_if')
    then show ?thesis using False kK by (simp add: u_def)
  qed
  have le: "k * 16384 + unat u \<le> unat ?sz"
    using m unat_gc_chunks [of ?sz] by (auto simp: max_def split: if_splits)
  have sub: "set [k * 16384..<k * 16384 + unat u] \<subseteq> {..<num_buckets hi}" using le n by auto
  obtain hi' where hi': "update_buckets (clean_entry a) [k * 16384..<k * 16384 + unat u] hi = Some hi'" "index_wf hi'"
    "chains_ok hi' (\<lambda>i. if i \<in> set [k * 16384..<k * 16384 + unat u] then map_chain (clean_entry a) UNIV (cs i) else cs i)"
    "ht_size (hi_table hi') = ?sz" "num_buckets hi' = num_buckets hi"
    using update_buckets_chains [where f = "clean_entry a" and ns = "[k * 16384..<k * 16384 + unat u]", OF clean_entry_idem assms(1,2) sub]
      by auto
  have "CleanHashTableBuckets a grow_num_chunks g hi =
    map_option (\<lambda>hi. (True, g\<lparr>gc_next_chunk := ?c + 1\<rparr>, hi)) (update_buckets (clean_entry a)
      (map (\<lambda>idx. unat (?c * kGcHashTableChunkSize + of_nat idx)) [0..<unat u]) hi)"
    using lt by (simp add: CleanHashTableBuckets_def u_def Let_def assms(3,4))
  then have "CleanHashTableBuckets a grow_num_chunks g hi = Some (True, g\<lparr>gc_next_chunk := of_nat (Suc k)\<rparr>, hi')"
    unfolding chunk_indices [OF le] hi'(1) c(3) by simp
  then show ?thesis using hi' m n by (intro exI [of _ hi'] exI [of _ "k * 16384 + unat u"]) auto
qed


lemma clean_loop_chains:
  assumes "k \<le> unat (gc_chunks (ht_size (hi_table hi)))" "grow_num_chunks \<le> gc_chunks (ht_size (hi_table hi))"
    "index_wf hi" "chains_ok hi (\<lambda>i. if i \<in> I then map_chain (clean_entry a) UNIV (cs i) else cs i)"
    "{..<k * 16384} \<inter> {..<num_buckets hi} \<subseteq> I" "k = unat (gc_chunks (ht_size (hi_table hi))) \<longrightarrow> {..<num_buckets hi} \<subseteq> I"
    "gc_next_chunk g = of_nat k" "gc_num_chunks g = gc_chunks (ht_size (hi_table hi))"
  shows "\<exists>g' hi' J. clean_loop a grow_num_chunks g hi = Some (g', hi') \<and> index_wf hi' \<and> {..<num_buckets hi} \<subseteq> J \<and>
    chains_ok hi' (\<lambda>i. if i \<in> J then map_chain (clean_entry a) UNIV (cs i) else cs i) \<and>
    ht_size (hi_table hi') = ht_size (hi_table hi)"
  using assms
proof (induction "unat (gc_chunks (ht_size (hi_table hi))) - k" arbitrary: k hi I g)
  case 0
  then have k: "k = unat (gc_chunks (ht_size (hi_table hi)))" by simp
  have "CleanHashTableBuckets a grow_num_chunks g hi = Some (False, g\<lparr>gc_next_chunk := gc_next_chunk g + 1\<rparr>, hi)"
    using 0 k by (simp add: CleanHashTableBuckets_def Let_def)
  then have "clean_loop a grow_num_chunks g hi = Some (g\<lparr>gc_next_chunk := gc_next_chunk g + 1\<rparr>, hi)"
    by (subst clean_loop.simps) simp
  then show ?case using 0 k by blast
next
  case (Suc d)
  note prems = Suc.prems
  let ?sz = "ht_size (hi_table hi)" and ?cs = "\<lambda>i. if i \<in> I then map_chain (clean_entry a) UNIV (cs i) else cs i"
  have k: "k < unat (gc_chunks ?sz)" using Suc.hyps(2) by simp
  obtain hi1 m where c: "CleanHashTableBuckets a grow_num_chunks g hi = Some (True, g\<lparr>gc_next_chunk := of_nat (Suc k)\<rparr>, hi1)"
    "index_wf hi1" "chains_ok hi1 (\<lambda>i. if i \<in> {k * 16384..<m} then map_chain (clean_entry a) UNIV (?cs i) else ?cs i)"
    "ht_size (hi_table hi1) = ?sz" "num_buckets hi1 = num_buckets hi"
    "m = num_buckets hi \<or> m = Suc k * 16384 \<and> Suc k < unat (gc_chunks ?sz)"
    using clean_chunk [OF prems(3,4,7,8) k prems(2), of a] by blast
  let ?I = "I \<union> {k * 16384..<m}"
  have e: "(\<lambda>i. if i \<in> {k * 16384..<m} then map_chain (clean_entry a) UNIV (?cs i) else ?cs i) =
      (\<lambda>i. if i \<in> ?I then map_chain (clean_entry a) UNIV (cs i) else cs i)"
    by (auto simp: fun_eq_iff map_chain_twice [OF clean_entry_idem])
  have I0: "t \<in> I" if "t < k * 16384" "t < num_buckets hi" for t using prems(5) that by auto
  have I1: "{..<Suc k * 16384} \<inter> {..<num_buckets hi1} \<subseteq> ?I" using I0 c(5,6) not_less by fastforce
  have I2: "Suc k = unat (gc_chunks ?sz) \<longrightarrow> {..<num_buckets hi1} \<subseteq> ?I" using I0 c(5,6) not_less by fastforce
  let ?g = "g\<lparr>gc_next_chunk := of_nat (Suc k)\<rparr>"
  have "\<exists>g' hi' J. clean_loop a grow_num_chunks ?g hi1 = Some (g', hi') \<and> index_wf hi' \<and> {..<num_buckets hi1} \<subseteq> J \<and>
    chains_ok hi' (\<lambda>i. if i \<in> J then map_chain (clean_entry a) UNIV (cs i) else cs i) \<and>
    ht_size (hi_table hi') = ht_size (hi_table hi1)"
    by (rule Suc.hyps(1) [where k = "Suc k" and hi = hi1 and I = ?I and g = ?g])
      (use Suc.hyps(2) k prems c(2) c(3) [unfolded e] c(4,5) I1 I2 in \<open>simp_all del: of_nat_Suc mult_Suc\<close>)
  then show ?case using c(1,4,5) by (subst clean_loop.simps) simp
qed

text \<open>
  C12: a garbage collection, on a well-formed index and with the chunks it computes from the size of
  the table, ends; afterwards the index is well-formed, every hash that is found has an entry
  that does not point before the begin address of the log, and every hash whose entry did not
  point there is found as before. The number of chunks of the last index growth, which the
  source uses for the size of a chunk, is only required not to exceed the number of chunks.
\<close>

theorem gc_deletes_truncated:
  assumes "index_wf hi" "grow_num_chunks \<le> gc_chunks (ht_size (hi_table hi))"
  shows "\<exists>g' hi'. clean_loop begin_addr grow_num_chunks (gc_Initialize t c (gc_chunks (ht_size (hi_table hi))) g) hi = Some (g', hi') \<and>
    index_wf hi' \<and>
    (\<forall>h e. index_map hi' h = Some e \<longrightarrow> hbe_address e = kInvalidAddress \<or> begin_addr \<le> hbe_address e) \<and>
    (\<forall>h e. index_map hi h = Some e \<and> (hbe_address e = kInvalidAddress \<or> begin_addr \<le> hbe_address e) \<longrightarrow>
      index_map hi' h = Some e)"
proof -
  let ?g = "gc_Initialize t c (gc_chunks (ht_size (hi_table hi))) g"
  obtain cs where cs: "chains_ok hi cs" using index_wf_chains [OF assms(1)] .
  have "unat (gc_chunks (ht_size (hi_table hi))) \<noteq> 0" by (simp add: unat_gc_chunks)
  then have "\<exists>g' hi' J. clean_loop begin_addr grow_num_chunks ?g hi = Some (g', hi') \<and> index_wf hi' \<and> {..<num_buckets hi} \<subseteq> J \<and>
    chains_ok hi' (\<lambda>i. if i \<in> J then map_chain (clean_entry begin_addr) UNIV (cs i) else cs i) \<and>
    ht_size (hi_table hi') = ht_size (hi_table hi)"
    by (intro clean_loop_chains [of 0 _ _ "{}"]) (use assms cs in \<open>simp_all add: gc_Initialize_def\<close>)
  then obtain g' hi' J where r: "clean_loop begin_addr grow_num_chunks ?g hi = Some (g', hi')" "index_wf hi'"
    "{..<num_buckets hi} \<subseteq> J" "chains_ok hi' (\<lambda>i. if i \<in> J then map_chain (clean_entry begin_addr) UNIV (cs i) else cs i)"
    "ht_size (hi_table hi') = ht_size (hi_table hi)" by blast
  note look = pass_lookup [OF clean_entry_cases assms(1) cs r(2,4,5)]
  have J: "ht_bucket (hi_table hi) h \<in> J" for h using ht_bucket_num [OF assms(1)] r(3) by auto
  have "hbe_address e = kInvalidAddress \<or> begin_addr \<le> hbe_address e" if "index_map hi' h = Some e" for h e
    using look(2) [OF J that] clean_entry_keeps [OF index_map_entry [OF r(2) that], of begin_addr] by simp
  moreover have "index_map hi' h = Some e"
    if "index_map hi h = Some e" "hbe_address e = kInvalidAddress \<or> begin_addr \<le> hbe_address e" for h e
    using look(1) [OF that(1)] clean_entry_keeps [OF index_map_entry [OF assms(1) that(1)], of begin_addr] that(2) by simp
  ultimately show ?thesis using r(1,2) by blast
qed

text \<open>An index with an entry that points before the begin address.\<close>

definition gc_demo :: hash_index where
  "gc_demo = store_entry (Main 0, 0) (HashBucketEntry 64 0 False) (fst index_start)"

lemma gc_demo_wf: "index_wf gc_demo"
proof -
  obtain cs where cs: "chains_ok (fst index_start) cs" using index_wf_chains [OF index_start_wf(1)] .
  have n: "0 < num_buckets (fst index_start)" by code_simp
  have "Main 0 \<in> fst ` set (cs 0)" using chain_nonempty [OF chains_okD(1) [OF cs n]] by force
  from store_entry_wf(2) [OF index_start_wf(1) cs n this] show ?thesis by (simp add: gc_demo_def)
qed

theorem gc_deletes_truncated_witness:
  "index_map gc_demo 0 = Some (HashBucketEntry 64 0 False) \<and>
   (\<exists>g' hi'. clean_loop 128 0 (gc_Initialize None None (gc_chunks (ht_size (hi_table gc_demo))) (GcState :: (unit, unit) gc_state)) gc_demo =
      Some (g', hi') \<and> index_wf hi' \<and> index_map hi' 0 \<noteq> Some (HashBucketEntry 64 0 False))"
proof -
  have m: "index_map gc_demo 0 = Some (HashBucketEntry 64 0 False)" by code_simp
  have a: "hbe_address (HashBucketEntry 64 0 False) = 64" by code_simp
  obtain g' hi' where "clean_loop 128 0 (gc_Initialize None None (gc_chunks (ht_size (hi_table gc_demo))) (GcState :: (unit, unit) gc_state)) gc_demo =
      Some (g', hi')" "index_wf hi'"
    "\<forall>h e. index_map hi' h = Some e \<longrightarrow> hbe_address e = kInvalidAddress \<or> 128 \<le> hbe_address e"
    using gc_deletes_truncated [OF gc_demo_wf, of 0 128 None None GcState] by auto
  moreover from this(3) have "index_map hi' 0 \<noteq> Some (HashBucketEntry 64 0 False)" using a by force
  ultimately show ?thesis using m by blast
qed


section \<open>Recovery\<close>

lemma clear_tentative_cases: "clear_tentative e = e \<or> clear_tentative e = 0"
  by (simp add: clear_tentative_def)

lemma clear_tentative_idem: "clear_tentative (clear_tentative e) = clear_tentative e"
  by (simp add: clear_tentative_def)

lemma not_tentative_0: "\<not> hbe_tentative 0"
  by (simp add: hbe_tentative_def)

text \<open>A recovered index has no tentative entry, and finds what it found before.\<close>

lemma clear_tentative_entries_ok:
  assumes "index_wf hi"
  shows "\<exists>hi'. clear_tentative_entries hi = Some hi' \<and> index_wf hi' \<and> no_tentative hi' \<and>
    (\<forall>h e. index_map hi h = Some e \<longrightarrow> index_map hi' h = Some e)"
proof -
  let ?n = "unat (ht_size (hi_table hi))"
  obtain cs where cs: "chains_ok hi cs" using index_wf_chains [OF assms] .
  have n: "num_buckets hi = ?n" using assms by (simp add: index_wf_def table_wf_def)
  have sub: "set [0..<?n] \<subseteq> {..<num_buckets hi}" by (auto simp: n)
  obtain hi' where r: "update_buckets clear_tentative [0..<?n] hi = Some hi'" "index_wf hi'"
    "chains_ok hi' (\<lambda>i. if i \<in> set [0..<?n] then map_chain clear_tentative UNIV (cs i) else cs i)"
    "ht_size (hi_table hi') = ht_size (hi_table hi)" "num_buckets hi' = num_buckets hi"
    using update_buckets_chains [OF clear_tentative_idem assms cs sub] by blast
  have "no_tentative hi'"
    unfolding no_tentative_chains [OF r(3)]
  proof (intro allI impI ballI)
    fix i x
    assume i: "i < num_buckets hi'" and x: "x \<in> set (slots (if i \<in> set [0..<?n] then map_chain clear_tentative UNIV (cs i) else cs i))"
    have "slots (map_chain clear_tentative UNIV (cs i)) = map (\<lambda>(x, v). (x, clear_tentative v)) (slots (cs i))"
      using slots_map_chain chains_okD(2) [OF cs, of i] i r(5) by simp
    then have "\<exists>v. snd x = clear_tentative v" using x i r(5) n by auto
    then show "\<not> hbe_tentative (snd x)" using not_tentative_0 by (auto simp: clear_tentative_def split: if_splits)
  qed
  moreover have "index_map hi' h = Some e" if "index_map hi h = Some e" for h e
    using pass_lookup(1) [OF clear_tentative_cases assms cs r(2,3,4) that] index_map_entry [OF assms that]
    by (simp add: clear_tentative_def final_match_def)
  ultimately show ?thesis using r(1,2) by (auto simp: clear_tentative_entries_def)
qed

end
