(* ===== verification/Index_Split.thy ===== *)
theory Index_Split
  imports Index_Clean Records Utils
begin

text \<open>
  Growing the hash index: \<open>SplitHashTableBuckets\<close>, \<open>AddHashEntry\<close> and \<open>TraceBackForOtherChainStart\<close> of
  \<open>fishstore.h\<close> with the state of \<open>grow_state.h\<close>. The entries of a chain of buckets of the old table go
  to the two chains of the table of twice the size, on the side that the hash of the newest
  record in memory selects; the other side gets the first record of the hash chain that
  belongs there, or that is on disk. The part of \<open>SplitHashTableBuckets\<close> after the loop, which
  changes the phase, is with the phases of the store. None is a walk that does not end or a
  read outside the log.
\<close>

section \<open>The state\<close>

record 'g grow_state =
  grow_callback :: "'g option"
  old_version :: u8
  new_version :: u8
  grow_num_chunks :: u64
  num_pending_chunks :: u64
  grow_next_chunk :: u64

text \<open>The constructor does not initialise the number of chunks and the next chunk.\<close>

definition GrowState :: "u64 \<Rightarrow> u64 \<Rightarrow> 'g grow_state" where
  "GrowState any_num any_next = \<lparr>grow_callback = None, old_version = - 1, new_version = - 1,
     grow_num_chunks = any_num, num_pending_chunks = 0, grow_next_chunk = any_next\<rparr>"

definition grow_Initialize :: "'g option \<Rightarrow> u8 \<Rightarrow> u64 \<Rightarrow> 'g grow_state \<Rightarrow> 'g grow_state" where
  "grow_Initialize callback current_version num_chunks g =
     g\<lparr>grow_callback := callback, old_version := current_version, new_version := 1 - current_version,
       grow_num_chunks := num_chunks, num_pending_chunks := num_chunks, grow_next_chunk := 0\<rparr>"

text \<open>What is read of the log: key pointers, and the bytes of the values of general PSFs.\<close>

record split_log =
  sl_kpts :: "address \<rightharpoonup> key_pointer"
  sl_value :: "address \<Rightarrow> u8 list"
  sl_head :: address
  sl_begin :: address

definition kpt_get_hash :: "split_log \<Rightarrow> address \<Rightarrow> key_pointer \<Rightarrow> key_hash" where
  "kpt_get_hash l a kpt =
     (if kpt_mode (kp_control kpt) = 0 then HashBytesWithPSFID (kpt_general_psf_id (kp_value kpt)) (sl_value l a)
      else GetHashCode2 (kpt_inline_psf_id (kp_value kpt)) (kpt_inline_value (kp_value kpt)))"


section \<open>The operations\<close>

type_synonym add_pos = "bucket_ptr \<times> nat"

definition AddHashEntry :: "('a \<Rightarrow> 'z \<Rightarrow> 'z) \<Rightarrow> (nat \<Rightarrow> 'a) \<Rightarrow> nat \<Rightarrow> add_pos \<Rightarrow> hb_entry \<Rightarrow> ('a, 'z) index_state \<Rightarrow>
    (add_pos \<times> ('a, 'z) index_state) option" where
  "AddHashEntry act del t = (\<lambda>(bucket, next_idx) entry (hi, e).
     if next_idx = kNumEntries
     then case Malloc_Allocate HashBucket act del t (hi_ofb hi, e) of
            None \<Rightarrow> None
          | Some (new_bucket_addr, m, e) \<Rightarrow>
              let hi = store_overflow bucket (HashBucketOverflowEntry new_bucket_addr) (hi\<lparr>hi_ofb := m\<rparr>);
                  bucket = Ovf new_bucket_addr
              in Some ((bucket, 1), store_entry (bucket, 0) entry hi, e)
     else Some ((bucket, next_idx + 1), store_entry (bucket, next_idx) entry hi, e))"

definition on_side0 :: "split_log \<Rightarrow> u64 \<Rightarrow> u64 \<Rightarrow> address \<Rightarrow> key_pointer \<Rightarrow> bool" where
  "on_side0 l old_size new_size a kpt \<longleftrightarrow> kh_idx new_size (kpt_get_hash l a kpt) < old_size"

partial_function (option) TraceBackForOtherChainStart :: "split_log \<Rightarrow> u64 \<Rightarrow> u64 \<Rightarrow> address \<Rightarrow> address \<Rightarrow> bool \<Rightarrow>
    address option" where
  "TraceBackForOtherChainStart l old_size new_size from_address min_address side0 =
     (if from_address \<ge> min_address
      then case sl_kpts l from_address of
             None \<Rightarrow> None
           | Some kpt \<Rightarrow>
               if on_side0 l old_size new_size from_address kpt \<noteq> side0 then Some from_address
               else TraceBackForOtherChainStart l old_size new_size (kpt_prev_address (kp_control kpt)) min_address side0
      else Some from_address)"

declare TraceBackForOtherChainStart.simps [code]

text \<open>Which entries an old entry gives to the two sides.\<close>

definition split_entry :: "split_log \<Rightarrow> u64 \<Rightarrow> u64 \<Rightarrow> hb_entry \<Rightarrow> (hb_entry list \<times> hb_entry list) option" where
  "split_entry l old_size new_size old_entry =
     (if hbe_unused old_entry then Some ([], [])
      else if hbe_address old_entry < sl_head l then Some ([old_entry], [old_entry])
      else case sl_kpts l (hbe_address old_entry) of
             None \<Rightarrow> None
           | Some kpt \<Rightarrow>
               let side0 = on_side0 l old_size new_size (hbe_address old_entry) kpt in
               (case TraceBackForOtherChainStart l old_size new_size (kpt_prev_address (kp_control kpt)) (sl_head l) side0 of
                  None \<Rightarrow> None
                | Some other_address \<Rightarrow>
                    let other = (if other_address \<ge> sl_begin l
                                 then [HashBucketEntry other_address (hbe_tag old_entry) False] else [])
                    in Some (if side0 then ([old_entry], other) else (other, [old_entry]))))"

fun add_entries :: "('a \<Rightarrow> 'z \<Rightarrow> 'z) \<Rightarrow> (nat \<Rightarrow> 'a) \<Rightarrow> nat \<Rightarrow> add_pos \<Rightarrow> hb_entry list \<Rightarrow> ('a, 'z) index_state \<Rightarrow>
    (add_pos \<times> ('a, 'z) index_state) option" where
  "add_entries act del t pos [] st = Some (pos, st)"
| "add_entries act del t pos (entry # rest) st =
     (case AddHashEntry act del t pos entry st of
        None \<Rightarrow> None
      | Some (pos, st) \<Rightarrow> add_entries act del t pos rest st)"

text \<open>
  The loop over the entries of a bucket. An entry is added to its own side first; the two
  sides are different chains of the new table, and only the addresses that the allocator
  hands out depend on the order, so it is kept.
\<close>

definition place_entry :: "('a \<Rightarrow> 'z \<Rightarrow> 'z) \<Rightarrow> (nat \<Rightarrow> 'a) \<Rightarrow> nat \<Rightarrow> bool \<Rightarrow> hb_entry list \<Rightarrow> hb_entry list \<Rightarrow>
    add_pos \<Rightarrow> add_pos \<Rightarrow> ('a, 'z) index_state \<Rightarrow> (add_pos \<times> add_pos \<times> ('a, 'z) index_state) option" where
  "place_entry act del t first0 es0 es1 pos0 pos1 st =
     (if first0
      then case add_entries act del t pos0 es0 st of
             None \<Rightarrow> None
           | Some (pos0, st) \<Rightarrow> map_option (\<lambda>(pos1, st). (pos0, pos1, st)) (add_entries act del t pos1 es1 st)
      else case add_entries act del t pos1 es1 st of
             None \<Rightarrow> None
           | Some (pos1, st) \<Rightarrow> map_option (\<lambda>(pos0, st). (pos0, pos1, st)) (add_entries act del t pos0 es0 st))"

definition first_side :: "split_log \<Rightarrow> u64 \<Rightarrow> u64 \<Rightarrow> hb_entry \<Rightarrow> bool" where
  "first_side l old_size new_size e \<longleftrightarrow> hbe_unused e \<or> hbe_address e < sl_head l \<or>
     (case sl_kpts l (hbe_address e) of None \<Rightarrow> True | Some kpt \<Rightarrow> on_side0 l old_size new_size (hbe_address e) kpt)"

fun split_entries :: "('a \<Rightarrow> 'z \<Rightarrow> 'z) \<Rightarrow> (nat \<Rightarrow> 'a) \<Rightarrow> nat \<Rightarrow> split_log \<Rightarrow> u64 \<Rightarrow> u64 \<Rightarrow> hb_entry list \<Rightarrow>
    add_pos \<Rightarrow> add_pos \<Rightarrow> ('a, 'z) index_state \<Rightarrow> (add_pos \<times> add_pos \<times> ('a, 'z) index_state) option" where
  "split_entries act del t l old_size new_size [] pos0 pos1 st = Some (pos0, pos1, st)"
| "split_entries act del t l old_size new_size (old_entry # rest) pos0 pos1 st =
     (case split_entry l old_size new_size old_entry of
        None \<Rightarrow> None
      | Some (es0, es1) \<Rightarrow>
          (case place_entry act del t (first_side l old_size new_size old_entry) es0 es1 pos0 pos1 st of
             None \<Rightarrow> None
           | Some (pos0, pos1, st) \<Rightarrow> split_entries act del t l old_size new_size rest pos0 pos1 st))"

partial_function (option) split_chain :: "('a \<Rightarrow> 'z \<Rightarrow> 'z) \<Rightarrow> (nat \<Rightarrow> 'a) \<Rightarrow> nat \<Rightarrow> split_log \<Rightarrow> u64 \<Rightarrow> u64 \<Rightarrow>
    hash_index \<Rightarrow> bucket_ptr \<Rightarrow> add_pos \<Rightarrow> add_pos \<Rightarrow> ('a, 'z) index_state \<Rightarrow> ('a, 'z) index_state option" where
  "split_chain act del t l old_size new_size old old_bucket pos0 pos1 st =
     (case get_bucket old old_bucket of
        None \<Rightarrow> None
      | Some b \<Rightarrow>
          (case split_entries act del t l old_size new_size (map (\<lambda>i. hb_entries b ! i) [0..<kNumEntries]) pos0 pos1 st of
             None \<Rightarrow> None
           | Some (pos0, pos1, st) \<Rightarrow>
               if ovf_unused (hb_overflow b) then Some st
               else split_chain act del t l old_size new_size old (next_ptr b) pos0 pos1 st))"

declare split_chain.simps [code]

fun split_buckets :: "('a \<Rightarrow> 'z \<Rightarrow> 'z) \<Rightarrow> (nat \<Rightarrow> 'a) \<Rightarrow> nat \<Rightarrow> split_log \<Rightarrow> hash_index \<Rightarrow> nat list \<Rightarrow>
    ('a, 'z) index_state \<Rightarrow> ('a, 'z) index_state option" where
  "split_buckets act del t l old [] st = Some st"
| "split_buckets act del t l old (idx # rest) st =
     (let old_size = ht_size (hi_table old); new_size = ht_size (hi_table (fst st)) in
      case split_chain act del t l old_size new_size old (Main idx) (Main idx, 0) (Main (unat old_size + idx), 0) st of
        None \<Rightarrow> None
      | Some st \<Rightarrow> split_buckets act del t l old rest st)"

definition Malloc_Uninitialize :: "'i fixed_malloc \<Rightarrow> 'i fixed_malloc" where
  "Malloc_Uninitialize m = m\<lparr>fm_pages := []\<rparr>"

definition index_Uninitialize :: "hash_index \<Rightarrow> hash_index" where
  "index_Uninitialize hi = \<lparr>hi_table = HashTable_Uninitialize (hi_table hi), hi_ofb = Malloc_Uninitialize (hi_ofb hi)\<rparr>"

text \<open>The loop over the chunks, with the two versions of the index and the epoch.\<close>

partial_function (option) split_chunks :: "('a \<Rightarrow> 'z \<Rightarrow> 'z) \<Rightarrow> (nat \<Rightarrow> 'a) \<Rightarrow> nat \<Rightarrow> split_log \<Rightarrow>
    'g grow_state \<Rightarrow> (u8 \<Rightarrow> hash_index) \<Rightarrow> ('a, 'z) light_epoch_scheme \<Rightarrow>
    ('g grow_state \<times> (u8 \<Rightarrow> hash_index) \<times> ('a, 'z) light_epoch_scheme) option" where
  "split_chunks act del t l g his e =
     (let chunk = grow_next_chunk g;
          g = g\<lparr>grow_next_chunk := chunk + 1\<rparr>
      in if \<not> chunk < grow_num_chunks g then Some (g, his, e)
         else
           let old = his (old_version g);
               old_size = ht_size (hi_table old);
               upper_bound = (if chunk + 1 < grow_num_chunks g then kGrowHashTableChunkSize
                              else old_size - chunk * kGrowHashTableChunkSize)
           in if ht_size (hi_table (his (new_version g))) \<noteq> old_size * 2 then None
              else case split_buckets act del t l old
                     (map (\<lambda>idx. unat (chunk * kGrowHashTableChunkSize + of_nat idx)) [0..<unat upper_bound])
                     (his (new_version g), e) of
                None \<Rightarrow> None
              | Some (hi, e) \<Rightarrow>
                  let his = his(new_version g := hi);
                      g = g\<lparr>num_pending_chunks := num_pending_chunks g - 1\<rparr>
                  in if num_pending_chunks g = 0
                     then Some (g, his(old_version g := index_Uninitialize old), e)
                     else split_chunks act del t l g his e)"

declare split_chunks.simps [code]

end
