(* ===== verification/Checkpoint_State.thy ===== *)
theory Checkpoint_State
  imports Fixed_Malloc Threads Addresses
begin

text \<open>
  \<open>checkpoint_state.h\<close>: the metadata that a checkpoint writes for the index and for the log, and the
  state of the running checkpoint or recovery. A callback is an element of a type parameter; a
  token is a number, 0 for the empty one. None is a failed assertion.
\<close>

section \<open>Metadata\<close>

record index_metadata =
  im_version :: u32
  im_table_size :: u64
  num_ht_bytes :: u64
  num_ofb_bytes :: u64
  ofb_count :: fpa
  log_begin_address :: address
  checkpoint_start_address :: address

definition IndexMetadata :: index_metadata where
  "IndexMetadata = \<lparr>im_version = 0, im_table_size = 0, num_ht_bytes = 0, num_ofb_bytes = 0, ofb_count = 0,
     log_begin_address = kInvalidAddress, checkpoint_start_address = kInvalidAddress\<rparr>"

definition IndexMetadata_Initialize :: "u32 \<Rightarrow> u64 \<Rightarrow> address \<Rightarrow> address \<Rightarrow> index_metadata" where
  "IndexMetadata_Initialize version sz begin_addr start_addr =
     \<lparr>im_version = version, im_table_size = sz, num_ht_bytes = 0, num_ofb_bytes = 0, ofb_count = 0,
      log_begin_address = begin_addr, checkpoint_start_address = start_addr\<rparr>"

definition IndexMetadata_Reset :: index_metadata where
  "IndexMetadata_Reset = IndexMetadata"

record log_metadata =
  use_snapshot_file :: bool
  lmd_version :: u32
  num_threads :: u32
  flushed_address :: address
  final_address :: address
  monotonic_serial_nums :: "u64 list"
  lmd_guids :: "nat list"

definition LogMetadata_Initialize :: "bool \<Rightarrow> u32 \<Rightarrow> address \<Rightarrow> log_metadata" where
  "LogMetadata_Initialize use_snapshot version flushed =
     \<lparr>use_snapshot_file = use_snapshot, lmd_version = version, num_threads = 0, flushed_address = flushed,
      final_address = kMaxAddress, monotonic_serial_nums = replicate kMaxNumThreads 0,
      lmd_guids = replicate kMaxNumThreads 0\<rparr>"

definition LogMetadata :: log_metadata where
  "LogMetadata = LogMetadata_Initialize False (- 1) kInvalidAddress"

definition LogMetadata_Reset :: log_metadata where
  "LogMetadata_Reset = LogMetadata_Initialize False (- 1) kInvalidAddress"


section \<open>The state of a checkpoint\<close>

record 'k checkpoint_state =
  index_checkpoint_started :: bool
  failed :: bool
  index_md :: index_metadata
  log_md :: log_metadata
  index_token :: nat
  hybrid_log_token :: nat
  snapshot_open :: bool
  flush_pending :: u32
  index_persistence_callback :: "'k option"
  hybrid_log_persistence_callback :: "'k option"
  continue_tokens :: "(nat \<times> u64 \<times> u32) list"

definition CheckpointState :: "'k checkpoint_state" where
  "CheckpointState = \<lparr>index_checkpoint_started = False, failed = False, index_md = IndexMetadata, log_md = LogMetadata,
     index_token = 0, hybrid_log_token = 0, snapshot_open = False, flush_pending = - 1,
     index_persistence_callback = None, hybrid_log_persistence_callback = None, continue_tokens = []\<rparr>"

definition InitializeIndexCheckpoint :: "nat \<Rightarrow> u32 \<Rightarrow> u64 \<Rightarrow> address \<Rightarrow> address \<Rightarrow> 'k option \<Rightarrow>
    'k checkpoint_state \<Rightarrow> 'k checkpoint_state" where
  "InitializeIndexCheckpoint token version table_size begin_addr start_addr callback c =
     c\<lparr>failed := False, index_checkpoint_started := False, continue_tokens := [], index_token := token, hybrid_log_token := 0,
       index_md := IndexMetadata_Initialize version table_size begin_addr start_addr, log_md := LogMetadata_Reset,
       flush_pending := 0, index_persistence_callback := callback, hybrid_log_persistence_callback := None\<rparr>"

definition InitializeHybridLogCheckpoint :: "nat \<Rightarrow> u32 \<Rightarrow> bool \<Rightarrow> address \<Rightarrow> 'k option \<Rightarrow>
    'k checkpoint_state \<Rightarrow> 'k checkpoint_state" where
  "InitializeHybridLogCheckpoint token version use_snapshot flushed_until callback c =
     c\<lparr>failed := False, index_checkpoint_started := False, continue_tokens := [], index_token := 0, hybrid_log_token := token,
       index_md := IndexMetadata_Reset, log_md := LogMetadata_Initialize use_snapshot version flushed_until,
       flush_pending := (if use_snapshot then - 1 else 0), index_persistence_callback := None,
       hybrid_log_persistence_callback := callback\<rparr>"

definition InitializeCheckpoint :: "nat \<Rightarrow> u32 \<Rightarrow> u64 \<Rightarrow> address \<Rightarrow> address \<Rightarrow> bool \<Rightarrow> address \<Rightarrow> 'k option \<Rightarrow> 'k option \<Rightarrow>
    'k checkpoint_state \<Rightarrow> 'k checkpoint_state" where
  "InitializeCheckpoint token version table_size begin_addr start_addr use_snapshot flushed_until index_cb log_cb c =
     c\<lparr>failed := False, index_checkpoint_started := False, continue_tokens := [], index_token := token, hybrid_log_token := token,
       index_md := IndexMetadata_Initialize version table_size begin_addr start_addr,
       log_md := LogMetadata_Initialize use_snapshot version flushed_until,
       flush_pending := (if use_snapshot then - 1 else 0), index_persistence_callback := index_cb,
       hybrid_log_persistence_callback := log_cb\<rparr>"

definition CheckpointDone :: "'k checkpoint_state \<Rightarrow> 'k checkpoint_state option" where
  "CheckpointDone c =
     (if failed c \<or> \<not> (index_token c = 0 \<or> index_checkpoint_started c) \<or> continue_tokens c \<noteq> [] \<or> flush_pending c \<noteq> 0
      then None
      else Some (c\<lparr>index_md := IndexMetadata_Reset, log_md := LogMetadata_Reset, snapshot_open := False,
                   index_persistence_callback := None, hybrid_log_persistence_callback := None\<rparr>))"

definition InitializeRecover :: "nat \<Rightarrow> nat \<Rightarrow> 'k checkpoint_state \<Rightarrow> 'k checkpoint_state" where
  "InitializeRecover index_tok log_tok c =
     c\<lparr>failed := False, index_token := index_tok, hybrid_log_token := log_tok\<rparr>"

definition RecoverDone :: "'k checkpoint_state \<Rightarrow> 'k checkpoint_state option" where
  "RecoverDone c = (if failed c then None
     else Some (c\<lparr>index_md := IndexMetadata_Reset, log_md := LogMetadata_Reset, snapshot_open := False\<rparr>))"

text \<open>
  The end of \<open>Recover\<close> reads the version after \<open>RecoverDone\<close> has reset the metadata: the store goes on
  with version 0, whatever version was recovered.
\<close>

lemma version_after_recovery:
  "RecoverDone c = Some c' \<Longrightarrow> lmd_version (log_md c') + 1 = 0"
  by (auto simp: RecoverDone_def LogMetadata_Reset_def LogMetadata_Initialize_def split: if_splits)

end
