(* ===== verification/Store.thy ===== *)
theory Store
  imports Hlog Index_Split Checkpoint_State Checkpoint_Locks Contexts Naming_File
begin

text \<open>
  The store of \<open>fishstore.h\<close> as one state: the epoch with the log, the two versions of the index, the
  contexts of the threads, the checkpoint, garbage collection, growth and parser shift that may be
  running, the registry of PSFs and the files with metadata; and the operations that move it
  through its phases: sessions, \<open>Refresh\<close>, \<open>HandleSpecialPhases\<close>, \<open>GlobalMoveToNextState\<close> and the
  functions that start an action.

  An operation is one atomic step of the thread that calls it. What the operating system answers
  is an argument, as are new tokens. Callbacks of the user are recorded as events. The value
  None is a failed assertion, an exception, or a loop that waits for another thread.
\<close>

section \<open>State\<close>

record parser_context =
  parser_no :: u8
  pctx_parser :: "string list option"

definition RebuildParser :: "u8 \<Rightarrow> string list \<Rightarrow> parser_context" where
  "RebuildParser no flds = \<lparr>parser_no = no, pctx_parser = Some flds\<rparr>"

datatype 'k event =
    IndexPersisted 'k status
  | LogPersisted 'k status u64 u32
  | LogTruncated "'k option" u64
  | GcCompleted 'k
  | IndexGrown 'k u64
  | ParserShifted 'k u64

record persistent_context =
  pec_serial_num :: u64
  pec_offset :: u32
  pec_version :: u32
  pec_guid :: nat

record ('a, 'c, 'h, 'e, 'k) store =
  st_epoch :: "('a, 'c, unit) log_state"
  st_sys :: system_state
  st_threads :: "nat \<Rightarrow> u64 thread_context"
  st_parsers :: "nat \<Rightarrow> parser_context"
  st_index :: "u8 \<Rightarrow> hash_index"
  st_version :: u8
  st_checkpoint :: "'k checkpoint_state"
  st_locks :: checkpoint_locks
  st_gc :: "('k, 'k) gc_state"
  st_grow :: "'k grow_state"
  ps_actions :: "parser_action list"
  ps_callback :: "'k option"
  st_registry :: "('h, 'e) psf_registry"
  parser_states :: "u8 \<Rightarrow> parser_state"
  system_parser_no :: u8
  index_files :: "nat \<rightharpoonup> index_metadata"
  log_files :: "nat \<rightharpoonup> log_metadata"
  context_files :: "nat \<times> nat \<rightharpoonup> persistent_context"
  naming_files :: "nat \<rightharpoonup> string"
  st_events :: "'k event list"

text \<open>The environment: actions of the epoch, the device, and how the cells of the log are read.\<close>

record ('a, 'c) environment =
  en_act :: "'a \<Rightarrow> 'c hlog \<Rightarrow> 'c hlog"
  en_reg :: "hlog_action \<Rightarrow> 'a"
  en_del :: "nat \<Rightarrow> 'a"
  fold_over_snapshot :: bool
  en_open :: "string \<Rightarrow> status"
  en_write :: "string \<Rightarrow> status"
  en_ht :: "u64 \<times> hash_bucket list \<Rightarrow> status"
  en_ofb :: "u64 \<times> hash_bucket page option \<Rightarrow> status"
  en_snapshot :: "nat \<Rightarrow> status"
  en_sector_size :: u64
  en_kpts :: "'c hlog \<Rightarrow> address \<rightharpoonup> key_pointer"
  en_values :: "'c hlog \<Rightarrow> address \<Rightarrow> u8 list"

abbreviation st_log :: "('a, 'c, 'h, 'e, 'k) store \<Rightarrow> 'c hlog" where
  "st_log st \<equiv> client_state (st_epoch st)"

definition thread_ctx :: "nat \<Rightarrow> ('a, 'c, 'h, 'e, 'k) store \<Rightarrow> u64 exec_context" where
  "thread_ctx t st = cur (st_threads st t)"

definition prev_thread_ctx :: "nat \<Rightarrow> ('a, 'c, 'h, 'e, 'k) store \<Rightarrow> u64 exec_context" where
  "prev_thread_ctx t st = prev (st_threads st t)"

definition upd_thread :: "nat \<Rightarrow> (u64 thread_context \<Rightarrow> u64 thread_context) \<Rightarrow> ('a, 'c, 'h, 'e, 'k) store \<Rightarrow>
    ('a, 'c, 'h, 'e, 'k) store" where
  "upd_thread t f st = st\<lparr>st_threads := (st_threads st)(t := f (st_threads st t))\<rparr>"

definition upd_ctx :: "nat \<Rightarrow> (u64 exec_context \<Rightarrow> u64 exec_context) \<Rightarrow> ('a, 'c, 'h, 'e, 'k) store \<Rightarrow>
    ('a, 'c, 'h, 'e, 'k) store" where
  "upd_ctx t f = upd_thread t (\<lambda>c. set_cur (f (cur c)) c)"

definition upd_checkpoint :: "('k checkpoint_state \<Rightarrow> 'k checkpoint_state) \<Rightarrow> ('a, 'c, 'h, 'e, 'k) store \<Rightarrow>
    ('a, 'c, 'h, 'e, 'k) store" where
  "upd_checkpoint f st = st\<lparr>st_checkpoint := f (st_checkpoint st)\<rparr>"

definition emit :: "'k event \<Rightarrow> ('a, 'c, 'h, 'e, 'k) store \<Rightarrow> ('a, 'c, 'h, 'e, 'k) store" where
  "emit ev st = st\<lparr>st_events := st_events st @ [ev]\<rparr>"


section \<open>Files\<close>

definition fail_checkpoint :: "status \<Rightarrow> ('a, 'c, 'h, 'e, 'k) store \<Rightarrow> ('a, 'c, 'h, 'e, 'k) store" where
  "fail_checkpoint result st = (if result \<noteq> Ok then upd_checkpoint (\<lambda>c. c\<lparr>failed := True\<rparr>) st else st)"

definition WriteIndexMetadata :: "('a, 'c) environment \<Rightarrow> ('a, 'c, 'h, 'e, 'k) store \<Rightarrow> status \<times> ('a, 'c, 'h, 'e, 'k) store" where
  "WriteIndexMetadata en st =
     (let c = st_checkpoint st in
      if en_write en ''index info.dat'' \<noteq> Ok then (IOError, st)
      else (Ok, st\<lparr>index_files := (index_files st)(index_token c \<mapsto> index_md c)\<rparr>))"

definition WriteCprMetadata :: "('a, 'c) environment \<Rightarrow> ('a, 'c, 'h, 'e, 'k) store \<Rightarrow> status \<times> ('a, 'c, 'h, 'e, 'k) store" where
  "WriteCprMetadata en st =
     (let c = st_checkpoint st in
      if en_write en ''cpr info.dat'' \<noteq> Ok then (IOError, st)
      else (Ok, st\<lparr>log_files := (log_files st)(hybrid_log_token c \<mapsto> log_md c)\<rparr>))"

definition WriteCprContext :: "('a, 'c) environment \<Rightarrow> nat \<Rightarrow> ('a, 'c, 'h, 'e, 'k) store \<Rightarrow> status \<times> ('a, 'c, 'h, 'e, 'k) store" where
  "WriteCprContext en t st =
     (let ctx = prev_thread_ctx t st in
      if en_write en ''context.dat'' \<noteq> Ok then (IOError, st)
      else (Ok, st\<lparr>context_files := (context_files st)((hybrid_log_token (st_checkpoint st), ec_guid ctx) \<mapsto>
        \<lparr>pec_serial_num = ec_serial_num ctx, pec_offset = ec_offset ctx, pec_version = ec_version ctx, pec_guid = ec_guid ctx\<rparr>)\<rparr>))"

definition upd_index :: "(hash_index \<Rightarrow> hash_index) \<Rightarrow> ('a, 'c, 'h, 'e, 'k) store \<Rightarrow> ('a, 'c, 'h, 'e, 'k) store" where
  "upd_index f st = st\<lparr>st_index := (st_index st)(st_version st := f (st_index st (st_version st)))\<rparr>"

definition CheckpointFuzzyIndex :: "('a, 'c) environment \<Rightarrow> ('a, 'c, 'h, 'e, 'k) store \<Rightarrow> status \<times> ('a, 'c, 'h, 'e, 'k) store" where
  "CheckpointFuzzyIndex en st =
     (if en_open en ''ht.dat'' \<noteq> Ok then (en_open en ''ht.dat'', st)
      else
        let (result, bytes, issued, table) = HashTable_Checkpoint (en_ht en) (hi_table (st_index st (st_version st)));
            st = upd_index (\<lambda>hi. hi\<lparr>hi_table := table\<rparr>) st
        in if result \<noteq> Ok then (result, st)
           else
             let st = upd_checkpoint (\<lambda>c. c\<lparr>index_md := (index_md c)\<lparr>num_ht_bytes := bytes\<rparr>\<rparr>) st in
             if en_open en ''ofb.dat'' \<noteq> Ok then (en_open en ''ofb.dat'', st)
             else
               let (result, bytes, issued, m) =
                     Malloc_Checkpoint sizeof_HashBucket (en_ofb en) (hi_ofb (st_index st (st_version st)));
                   st = upd_index (\<lambda>hi. hi\<lparr>hi_ofb := m\<rparr>) st
               in if result \<noteq> Ok then (result, st)
                  else (Ok, upd_checkpoint (\<lambda>c. c\<lparr>index_md := (index_md c)\<lparr>num_ofb_bytes := bytes\<rparr>,
                                                  index_checkpoint_started := True\<rparr>) st))"

definition CheckpointFuzzyIndexComplete :: "('a, 'c, 'h, 'e, 'k) store \<Rightarrow> status" where
  "CheckpointFuzzyIndexComplete st =
     (if \<not> index_checkpoint_started (st_checkpoint st) then Pending
      else
        let result = the (HashTable_CheckpointComplete False (hi_table (st_index st (st_version st)))) in
        if result \<noteq> Ok then result
        else the (Malloc_CheckpointComplete False (hi_ofb (st_index st (st_version st)))))"

text \<open>\<open>AsyncFlushPagesToFile\<close>: the number of pages is set first, then every page is written.\<close>

definition AsyncFlushPagesToFile :: "('a, 'c) environment \<Rightarrow> nat \<Rightarrow> address \<Rightarrow> (u32 \<times> status) option" where
  "AsyncFlushPagesToFile en start_page until_address =
     (let pages = flush_pages start_page until_address in
      if pages = [] then None
      else Some (of_nat (length pages), fst (issue_all (en_snapshot en) pages)))"

definition snapshot_callback :: "('a, 'c, 'h, 'e, 'k) store \<Rightarrow> ('a, 'c, 'h, 'e, 'k) store option" where
  "snapshot_callback st =
     (if flush_pending (st_checkpoint st) > 0
      then Some (upd_checkpoint (\<lambda>c. c\<lparr>flush_pending := flush_pending c - 1\<rparr>) st) else None)"


section \<open>Moving the system to the next state\<close>

definition rest_state :: "u32 \<Rightarrow> system_state" where
  "rest_state v = SystemState NoAction REST v"

text \<open>The overestimate of the overflow buckets, and the metadata of the index.\<close>

definition finish_index :: "('a, 'c) environment \<Rightarrow> ('a, 'c, 'h, 'e, 'k) store \<Rightarrow> ('a, 'c, 'h, 'e, 'k) store" where
  "finish_index en st =
     (let st = upd_checkpoint (\<lambda>c. c\<lparr>index_md := (index_md c)\<lparr>ofb_count := fm_count (hi_ofb (st_index st (st_version st)))\<rparr>\<rparr>) st;
          (result, st) = WriteIndexMetadata en st
      in fail_checkpoint result st)"

definition notify_index :: "'k option \<Rightarrow> ('a, 'c, 'h, 'e, 'k) store \<Rightarrow> ('a, 'c, 'h, 'e, 'k) store" where
  "notify_index callback st = (case callback of None \<Rightarrow> st | Some k \<Rightarrow> emit (IndexPersisted k Ok) st)"

definition start_flush :: "('a, 'c) environment \<Rightarrow> ('a, 'c, 'h, 'e, 'k) store \<Rightarrow> ('a, 'c, 'h, 'e, 'k) store option" where
  "start_flush en st =
     (case (if fold_over_snapshot en
            then map_option (\<lambda>(tail_address, ep). upd_checkpoint (\<lambda>c. c\<lparr>log_md := (log_md c)\<lparr>final_address := tail_address\<rparr>\<rparr>)
                                                    (st\<lparr>st_epoch := ep\<rparr>))
                   (ShiftReadOnlyToTail (en_act en) (en_reg en) (st_epoch st))
            else
              let tail_address = GetTailAddress (st_log st);
                  st = upd_checkpoint (\<lambda>c. c\<lparr>log_md := (log_md c)\<lparr>final_address := tail_address\<rparr>\<rparr>) st;
                  result = en_open en ''snapshot.dat'';
                  st = fail_checkpoint result (upd_checkpoint (\<lambda>c. c\<lparr>snapshot_open := (result = Ok)\<rparr>) st)
              in map_option (\<lambda>(n, _). upd_checkpoint (\<lambda>c. c\<lparr>flush_pending := n\<rparr>) st)
                   (AsyncFlushPagesToFile en (unat (addr_page (flushed_address (log_md (st_checkpoint st))))) tail_address)) of
        None \<Rightarrow> None
      | Some st \<Rightarrow> let (result, st) = WriteCprMetadata en st in Some (fail_checkpoint result st))"

fun enter_checkpoint :: "('a, 'c) environment \<Rightarrow> action \<Rightarrow> phase \<Rightarrow> u32 \<Rightarrow> ('a, 'c, 'h, 'e, 'k) store \<Rightarrow>
    ('a, 'c, 'h, 'e, 'k) store option" where
  "enter_checkpoint en act INDEX_CHKPT v st =
     (if act = CheckpointHybridLog \<or> failed (st_checkpoint st) then None
      else let (result, st) = CheckpointFuzzyIndex en st in Some (fail_checkpoint result st))"
| "enter_checkpoint en act PREPARE v st =
     (if act \<noteq> CheckpointFull then None
      else Some (notify_index (index_persistence_callback (st_checkpoint st)) (finish_index en st)))"
| "enter_checkpoint en act IN_PROGRESS v st = (if act = CheckpointIndex then None else Some st)"
| "enter_checkpoint en act WAIT_PENDING v st = (if act = CheckpointIndex then None else Some st)"
| "enter_checkpoint en act WAIT_FLUSH v st = (if act = CheckpointIndex then None else start_flush en st)"
| "enter_checkpoint en act PERSISTENCE_CALLBACK v st = (if act = CheckpointIndex then None else Some st)"
| "enter_checkpoint en act REST v st =
     (if act \<noteq> CheckpointIndex
      then map_option (\<lambda>c. st\<lparr>st_checkpoint := c, st_locks := CheckpointLocks_Free, st_sys := rest_state v\<rparr>)
             (CheckpointDone (st_checkpoint st))
      else
        let st = finish_index en st;
            callback = index_persistence_callback (st_checkpoint st)
        in map_option (\<lambda>c. notify_index callback (st\<lparr>st_checkpoint := c, st_sys := rest_state v\<rparr>))
             (CheckpointDone (st_checkpoint st)))"
| "enter_checkpoint en act _ v st = None"

fun enter_gc :: "('a, 'c) environment \<Rightarrow> phase \<Rightarrow> u32 \<Rightarrow> ('a, 'c, 'h, 'e, 'k) store \<Rightarrow> ('a, 'c, 'h, 'e, 'k) store option" where
  "enter_gc en GC_IN_PROGRESS v st =
     Some (emit (LogTruncated (truncate_callback (st_gc st)) (Truncate_offset (en_sector_size en) (st_log st))) st)"
| "enter_gc en REST v st =
     (let st = (case complete_callback (st_gc st) of None \<Rightarrow> st | Some k \<Rightarrow> emit (GcCompleted k) st)
      in Some (st\<lparr>st_sys := rest_state v\<rparr>))"
| "enter_gc en _ v st = None"

fun enter_grow :: "phase \<Rightarrow> u32 \<Rightarrow> ('a, 'c, 'h, 'e, 'k) store \<Rightarrow> ('a, 'c, 'h, 'e, 'k) store option" where
  "enter_grow GROW_IN_PROGRESS v st = Some (st\<lparr>st_version := new_version (st_grow st)\<rparr>)"
| "enter_grow REST v st =
     (let st = (case grow_callback (st_grow st) of
                  None \<Rightarrow> st
                | Some k \<Rightarrow> emit (IndexGrown k (ht_size (hi_table (st_index st (new_version (st_grow st)))))) st)
      in Some (st\<lparr>st_sys := rest_state v\<rparr>))"
| "enter_grow _ v st = None"

fun enter_shift :: "phase \<Rightarrow> u32 \<Rightarrow> ('a, 'c, 'h, 'e, 'k) store \<Rightarrow> ('a, 'c, 'h, 'e, 'k) store option" where
  "enter_shift REST v st =
     (let backup = 1 - system_parser_no st in
      case (ParserStateApplyActions (st_registry st) (ps_actions st) (parser_states st backup), ps_callback st) of
        (Some s, Some k) \<Rightarrow>
          let st = emit (ParserShifted k (GetTailAddress (st_log st)))
                     (st\<lparr>parser_states := (parser_states st)(backup := s)\<rparr>)
          in Some (st\<lparr>ps_actions := [], ps_callback := None, st_sys := rest_state v\<rparr>)
      | _ \<Rightarrow> None)"
| "enter_shift _ v st = None"

definition enter_state :: "('a, 'c) environment \<Rightarrow> system_state \<Rightarrow> ('a, 'c, 'h, 'e, 'k) store \<Rightarrow>
    ('a, 'c, 'h, 'e, 'k) store option" where
  "enter_state en next_state st =
     (let v = ss_version next_state; p = ss_phase next_state in
      case ss_action next_state of
        CheckpointFull \<Rightarrow> enter_checkpoint en CheckpointFull p v st
      | CheckpointIndex \<Rightarrow> enter_checkpoint en CheckpointIndex p v st
      | CheckpointHybridLog \<Rightarrow> enter_checkpoint en CheckpointHybridLog p v st
      | GC \<Rightarrow> enter_gc en p v st
      | GrowIndex \<Rightarrow> enter_grow p v st
      | ParserShift \<Rightarrow> enter_shift p v st
      | _ \<Rightarrow> None)"

definition GlobalMoveToNextState :: "('a, 'c) environment \<Rightarrow> system_state \<Rightarrow> ('a, 'c, 'h, 'e, 'k) store \<Rightarrow>
    (bool \<times> ('a, 'c, 'h, 'e, 'k) store) option" where
  "GlobalMoveToNextState en current_state st =
     (case GetNextState current_state of
        None \<Rightarrow> None
      | Some next_state \<Rightarrow>
          (case ss_compare_exchange_strong (st_sys st) current_state next_state of
             (False, _, _) \<Rightarrow> Some (False, st)
           | (True, _, sys) \<Rightarrow> map_option (Pair True) (enter_state en next_state (st\<lparr>st_sys := sys\<rparr>))))"

text \<open>
  A thread acknowledges a phase; the last one moves the system on. This is the pattern
  \<open>if(epoch_.FinishThreadPhase(...)) GlobalMoveToNextState(...)\<close>.
\<close>

definition ack :: "('a, 'c) environment \<Rightarrow> nat \<Rightarrow> phase \<Rightarrow> system_state \<Rightarrow> ('a, 'c, 'h, 'e, 'k) store \<Rightarrow>
    ('a, 'c, 'h, 'e, 'k) store option" where
  "ack en t p current_state st =
     (let (last, ep) = FinishThreadPhase t p (st_epoch st);
          st = st\<lparr>st_epoch := ep\<rparr>
      in if last then map_option snd (GlobalMoveToNextState en current_state st) else Some st)"


section \<open>What a thread does in a phase\<close>

text \<open>\<open>MarkAllPendingRequests\<close>: taking a lock must succeed.\<close>

fun mark_all :: "key_hash list \<Rightarrow> checkpoint_locks \<Rightarrow> checkpoint_locks option" where
  "mark_all [] locks = Some locks"
| "mark_all (h # hs) locks =
     (let i = get_lock locks h in
      if i < length (cl_locks locks)
      then case try_lock_old (cl_locks locks ! i) of
             (False, _) \<Rightarrow> None
           | (True, c) \<Rightarrow> mark_all hs (upd_lock i (\<lambda>_. c) locks)
      else None)"

definition MarkAllPendingRequests :: "nat \<Rightarrow> ('a, 'c, 'h, 'e, 'k) store \<Rightarrow> ('a, 'c, 'h, 'e, 'k) store option" where
  "MarkAllPendingRequests t st =
     map_option (\<lambda>locks. st\<lparr>st_locks := locks\<rparr>) (mark_all (map snd (pending_ios (thread_ctx t st))) (st_locks st))"

definition set_phase :: "nat \<Rightarrow> phase \<Rightarrow> ('a, 'c, 'h, 'e, 'k) store \<Rightarrow> ('a, 'c, 'h, 'e, 'k) store" where
  "set_phase t p = upd_ctx t (\<lambda>c. c\<lparr>ec_phase := p\<rparr>)"

definition set_ctx_version :: "nat \<Rightarrow> u32 \<Rightarrow> ('a, 'c, 'h, 'e, 'k) store \<Rightarrow> ('a, 'c, 'h, 'e, 'k) store" where
  "set_ctx_version t v = upd_ctx t (\<lambda>c. c\<lparr>ec_version := v\<rparr>)"

definition no_requests :: "u64 exec_context \<Rightarrow> bool" where
  "no_requests ctx \<longleftrightarrow> pending_ios ctx = [] \<and> retry_requests ctx = []"

text \<open>A new context; the old one, which must have been left empty, becomes the previous one.\<close>

definition new_context :: "nat \<Rightarrow> phase \<Rightarrow> u32 \<Rightarrow> ('a, 'c, 'h, 'e, 'k) store \<Rightarrow> ('a, 'c, 'h, 'e, 'k) store option" where
  "new_context t p v st =
     (if \<not> no_requests (prev_thread_ctx t st) \<or> io_responses (prev_thread_ctx t st) \<noteq> [] then None
      else
        let st = upd_thread t swap_context st;
            old = prev_thread_ctx t st
        in Some (upd_ctx t (ExecutionContext_Initialize p v (ec_guid old) (ec_serial_num old) (ec_offset old)) st))"

definition log_flushed :: "('a, 'c) environment \<Rightarrow> ('a, 'c, 'h, 'e, 'k) store \<Rightarrow> bool" where
  "log_flushed en st =
     (if fold_over_snapshot en then flushed_until_address (st_log st) \<ge> final_address (log_md (st_checkpoint st))
      else flush_pending (st_checkpoint st) = 0)"

definition register_thread :: "nat \<Rightarrow> ('a, 'c, 'h, 'e, 'k) store \<Rightarrow> ('a, 'c, 'h, 'e, 'k) store" where
  "register_thread t st = upd_checkpoint (\<lambda>c. c\<lparr>log_md := (log_md c)\<lparr>num_threads := num_threads (log_md c) + 1,
     lmd_guids := (lmd_guids (log_md c))[t := ec_guid (thread_ctx t st)]\<rparr>\<rparr>) st"

fun handle_checkpoint :: "('a, 'c) environment \<Rightarrow> nat \<Rightarrow> phase \<Rightarrow> system_state \<Rightarrow> phase \<Rightarrow> ('a, 'c, 'h, 'e, 'k) store \<Rightarrow>
    ('a, 'c, 'h, 'e, 'k) store option" where
  "handle_checkpoint en t previous_phase cs PREP_INDEX_CHKPT st =
     (if ss_action cs = CheckpointHybridLog then None
      else if previous_phase = REST then ack en t PREP_INDEX_CHKPT cs st else Some st)"
| "handle_checkpoint en t previous_phase cs INDEX_CHKPT st =
     (if ss_action cs = CheckpointHybridLog then None
      else
        let result = CheckpointFuzzyIndexComplete st in
        if result = Pending then Some st
        else
          let st = fail_checkpoint result st in
          if ss_action cs = CheckpointIndex then ack en t INDEX_CHKPT cs (set_phase t REST st)
          else map_option snd (GlobalMoveToNextState en cs st))"
| "handle_checkpoint en t previous_phase cs PREPARE st =
     (if ss_action cs = CheckpointIndex then None
      else if previous_phase \<noteq> PREPARE
      then case MarkAllPendingRequests t st of
             None \<Rightarrow> None
           | Some st \<Rightarrow> ack en t PREPARE cs (register_thread t st)
      else Some st)"
| "handle_checkpoint en t previous_phase cs IN_PROGRESS st =
     (if ss_action cs = CheckpointIndex then None
      else if previous_phase = PREPARE
      then case new_context t IN_PROGRESS (ss_version cs) st of
             None \<Rightarrow> None
           | Some st \<Rightarrow> ack en t IN_PROGRESS cs st
      else Some st)"
| "handle_checkpoint en t previous_phase cs WAIT_PENDING st =
     (if ss_action cs = CheckpointIndex then None
      else if \<not> HasThreadFinishedPhase t WAIT_PENDING (st_epoch st) \<and> no_requests (prev_thread_ctx t st)
      then ack en t WAIT_PENDING cs st
      else Some st)"
| "handle_checkpoint en t previous_phase cs WAIT_FLUSH st =
     (if ss_action cs = CheckpointIndex then None
      else if \<not> HasThreadFinishedPhase t WAIT_FLUSH (st_epoch st) \<and> log_flushed en st
      then ack en t WAIT_FLUSH cs (snd (WriteCprContext en t st))
      else Some st)"
| "handle_checkpoint en t previous_phase cs PERSISTENCE_CALLBACK st =
     (if ss_action cs = CheckpointIndex then None
      else if previous_phase = WAIT_FLUSH
      then
        let ctx = prev_thread_ctx t st;
            st = (case hybrid_log_persistence_callback (st_checkpoint st) of
                    None \<Rightarrow> st | Some k \<Rightarrow> emit (LogPersisted k Ok (ec_serial_num ctx) (ec_offset ctx)) st)
        in ack en t PERSISTENCE_CALLBACK cs (set_phase t REST st)
      else Some st)"
| "handle_checkpoint en t previous_phase cs _ st = Some st"

fun handle_gc :: "('a, 'c) environment \<Rightarrow> nat \<Rightarrow> phase \<Rightarrow> system_state \<Rightarrow> phase \<Rightarrow> ('a, 'c, 'h, 'e, 'k) store \<Rightarrow>
    ('a, 'c, 'h, 'e, 'k) store option" where
  "handle_gc en t previous_phase cs GC_IO_PENDING st =
     (case (if previous_phase = REST then new_context t GC_IO_PENDING (ss_version cs) st else Some st) of
        None \<Rightarrow> None
      | Some st \<Rightarrow>
          if \<not> HasThreadFinishedPhase t GC_IO_PENDING (st_epoch st) \<and> no_requests (prev_thread_ctx t st)
          then ack en t GC_IO_PENDING cs st
          else Some st)"
| "handle_gc en t previous_phase cs GC_IN_PROGRESS st =
     (if HasThreadFinishedPhase t GC_IN_PROGRESS (st_epoch st) then Some st
      else
        case CleanHashTableBuckets (begin_address (st_log st)) (grow_num_chunks (st_grow st)) (st_gc st)
               (st_index st (st_version st)) of
          None \<Rightarrow> None
        | Some (found, g, hi) \<Rightarrow>
            let st = (upd_index (\<lambda>_. hi) st)\<lparr>st_gc := g\<rparr> in
            if found then Some st else ack en t GC_IN_PROGRESS cs (set_phase t REST st))"
| "handle_gc en t previous_phase cs _ st = None"

definition st_split_log :: "('a, 'c) environment \<Rightarrow> ('a, 'c, 'h, 'e, 'k) store \<Rightarrow> split_log" where
  "st_split_log en st = \<lparr>sl_kpts = en_kpts en (st_log st), sl_value = en_values en (st_log st),
     sl_head = head_address (st_log st), sl_begin = begin_address (st_log st)\<rparr>"

definition SplitHashTableBuckets :: "('a, 'c) environment \<Rightarrow> nat \<Rightarrow> ('a, 'c, 'h, 'e, 'k) store \<Rightarrow>
    ('a, 'c, 'h, 'e, 'k) store option" where
  "SplitHashTableBuckets en t st =
     (case split_chunks (en_act en) (en_del en) t (st_split_log en st) (st_grow st) (st_index st) (st_epoch st) of
        None \<Rightarrow> None
      | Some (g, his, ep) \<Rightarrow>
          let st = set_phase t REST (st\<lparr>st_grow := g, st_index := his, st_epoch := ep\<rparr>);
              (last, ep) = FinishThreadPhase t GROW_IN_PROGRESS (st_epoch st);
              st = st\<lparr>st_epoch := ep\<rparr>
          in if last
             then map_option snd
                    (GlobalMoveToNextState en (SystemState GrowIndex GROW_IN_PROGRESS (ec_version (thread_ctx t st))) st)
             else if ss_phase (st_sys st) = GROW_IN_PROGRESS then None else Some st)"

fun handle_grow :: "('a, 'c) environment \<Rightarrow> nat \<Rightarrow> phase \<Rightarrow> system_state \<Rightarrow> phase \<Rightarrow> ('a, 'c, 'h, 'e, 'k) store \<Rightarrow>
    ('a, 'c, 'h, 'e, 'k) store option" where
  "handle_grow en t previous_phase cs GROW_PREPARE st =
     (if previous_phase = REST then ack en t GROW_PREPARE cs st else Some st)"
| "handle_grow en t previous_phase cs GROW_IN_PROGRESS st = SplitHashTableBuckets en t st"
| "handle_grow en t previous_phase cs _ st = Some st"

fun handle_shift :: "('a, 'c) environment \<Rightarrow> nat \<Rightarrow> phase \<Rightarrow> system_state \<Rightarrow> phase \<Rightarrow> ('a, 'c, 'h, 'e, 'k) store \<Rightarrow>
    ('a, 'c, 'h, 'e, 'k) store option" where
  "handle_shift en t previous_phase cs PS_PENDING st =
     (let no = system_parser_no st in
      if previous_phase = REST \<and> parser_no (st_parsers st t) = no then None
      else
        let st = (if previous_phase = REST
                  then set_phase t PS_PENDING
                         (st\<lparr>st_parsers := (st_parsers st)(t := RebuildParser no (main_parser_fields (parser_states st no)))\<rparr>)
                  else st)
        in ack en t PS_PENDING cs st)"
| "handle_shift en t previous_phase cs _ st = Some st"

definition handle_phase :: "('a, 'c) environment \<Rightarrow> nat \<Rightarrow> phase \<Rightarrow> system_state \<Rightarrow> ('a, 'c, 'h, 'e, 'k) store \<Rightarrow>
    ('a, 'c, 'h, 'e, 'k) store option" where
  "handle_phase en t previous_phase cs st =
     (case ss_action cs of
        CheckpointFull \<Rightarrow> handle_checkpoint en t previous_phase cs (ss_phase cs) st
      | CheckpointIndex \<Rightarrow> handle_checkpoint en t previous_phase cs (ss_phase cs) st
      | CheckpointHybridLog \<Rightarrow> handle_checkpoint en t previous_phase cs (ss_phase cs) st
      | GC \<Rightarrow> handle_gc en t previous_phase cs (ss_phase cs) st
      | GrowIndex \<Rightarrow> handle_grow en t previous_phase cs (ss_phase cs) st
      | ParserShift \<Rightarrow> handle_shift en t previous_phase cs (ss_phase cs) st
      | _ \<Rightarrow> Some st)"

text \<open>
  The loop from the state of the thread to the state of the system. Where \<open>GetNextState\<close> has no next
  state the assertion in it fails; without assertions the loop goes on for ever.
\<close>

partial_function (option) phase_loop :: "('a, 'c) environment \<Rightarrow> nat \<Rightarrow> system_state \<Rightarrow> system_state \<Rightarrow>
    ('a, 'c, 'h, 'e, 'k) store \<Rightarrow> ('a, 'c, 'h, 'e, 'k) store option" where
  "phase_loop en t final_state previous_state st =
     (case (if previous_state = final_state then Some final_state else GetNextState previous_state) of
        None \<Rightarrow> None
      | Some current_state \<Rightarrow>
          (case handle_phase en t (ss_phase previous_state) current_state st of
             None \<Rightarrow> None
           | Some st \<Rightarrow>
               let st = set_ctx_version t (ss_version current_state) (set_phase t (ss_phase current_state) st) in
               if current_state = final_state then Some st else phase_loop en t final_state current_state st))"

declare phase_loop.simps [code]

definition HandleSpecialPhases :: "('a, 'c) environment \<Rightarrow> nat \<Rightarrow> ('a, 'c, 'h, 'e, 'k) store \<Rightarrow>
    ('a, 'c, 'h, 'e, 'k) store option" where
  "HandleSpecialPhases en t st =
     (let final_state = st_sys st in
      if ss_phase final_state = REST then Some (set_ctx_version t (ss_version final_state) (set_phase t REST st))
      else phase_loop en t final_state
             (SystemState (ss_action final_state) (ec_phase (thread_ctx t st)) (ec_version (thread_ctx t st))) st)"


section \<open>Sessions\<close>

definition Refresh :: "('a, 'c) environment \<Rightarrow> nat \<Rightarrow> ('a, 'c, 'h, 'e, 'k) store \<Rightarrow> ('a, 'c, 'h, 'e, 'k) store option" where
  "Refresh en t st =
     (let st = st\<lparr>st_epoch := snd (ProtectAndDrain (en_act en) t (st_epoch st))\<rparr>;
          new_state = st_sys st
      in if ec_phase (thread_ctx t st) = REST \<and> ss_phase new_state = REST then Some st
         else HandleSpecialPhases en t st)"

definition init_session :: "('a, 'c) environment \<Rightarrow> nat \<Rightarrow> nat \<Rightarrow> u64 \<Rightarrow> u32 \<Rightarrow> ('a, 'c, 'h, 'e, 'k) store \<Rightarrow>
    ('a, 'c, 'h, 'e, 'k) store option" where
  "init_session en t guid serial_num offset st =
     (let state = st_sys st in
      if ss_phase state \<noteq> REST \<or> \<not> no_requests (thread_ctx t st) \<or> io_responses (thread_ctx t st) \<noteq> [] then None
      else
        let no = system_parser_no st;
            st = upd_ctx t (ExecutionContext_Initialize (ss_phase state) (ss_version state) guid serial_num offset) st;
            st = st\<lparr>st_parsers := (st_parsers st)(t := RebuildParser no (main_parser_fields (parser_states st no)))\<rparr>
        in Refresh en t st)"

definition StartSession :: "('a, 'c) environment \<Rightarrow> nat \<Rightarrow> nat \<Rightarrow> ('a, 'c, 'h, 'e, 'k) store \<Rightarrow>
    (nat \<times> ('a, 'c, 'h, 'e, 'k) store) option" where
  "StartSession en t new_guid st =
     map_option (\<lambda>st. (ec_guid (thread_ctx t st), st)) (init_session en t new_guid 0 0 st)"

definition ContinueSession :: "('a, 'c) environment \<Rightarrow> nat \<Rightarrow> nat \<Rightarrow> ('a, 'c, 'h, 'e, 'k) store \<Rightarrow>
    ((u64 \<times> u32) \<times> ('a, 'c, 'h, 'e, 'k) store) option" where
  "ContinueSession en t session_id st =
     (case map_of (continue_tokens (st_checkpoint st)) session_id of
        None \<Rightarrow> None
      | Some (serial_num, offset) \<Rightarrow>
          map_option (Pair (serial_num, offset)) (init_session en t session_id serial_num offset st))"

text \<open>
  \<open>StopSession\<close> when its loop, which completes pending requests, has nothing more to do; the
  completions are steps of their own.
\<close>

definition StopSession :: "nat \<Rightarrow> ('a, 'c, 'h, 'e, 'k) store \<Rightarrow> ('a, 'c, 'h, 'e, 'k) store option" where
  "StopSession t st =
     (if ec_phase (thread_ctx t st) = REST \<and> no_requests (thread_ctx t st) \<and> io_responses (thread_ctx t st) = [] \<and>
         no_requests (prev_thread_ctx t st) \<and> io_responses (prev_thread_ctx t st) = []
      then Some (st\<lparr>st_epoch := Unprotect t (st_epoch st)\<rparr>) else None)"


section \<open>Starting an action\<close>

text \<open>Only one action at a time: the system must be in the state \<open>REST\<close> without an action.\<close>

definition try_start :: "action \<Rightarrow> ('a, 'c, 'h, 'e, 'k) store \<Rightarrow> bool \<times> ('a, 'c, 'h, 'e, 'k) store" where
  "try_start act st =
     (let expected = SystemState NoAction REST (ss_version (st_sys st));
          (ok, _, sys) = ss_compare_exchange_strong (st_sys st) expected (SystemState act REST (ss_version (st_sys st)))
      in (ok, st\<lparr>st_sys := sys\<rparr>))"

definition reset_phases :: "('a, 'c, 'h, 'e, 'k) store \<Rightarrow> ('a, 'c, 'h, 'e, 'k) store" where
  "reset_phases st = st\<lparr>st_epoch := ResetPhaseFinished (st_epoch st)\<rparr>"

abbreviation table_size :: "('a, 'c, 'h, 'e, 'k) store \<Rightarrow> u64" where
  "table_size st \<equiv> ht_size (hi_table (st_index st (st_version st)))"

definition InitializeCheckpointLocks :: "('a, 'c, 'h, 'e, 'k) store \<Rightarrow> ('a, 'c, 'h, 'e, 'k) store" where
  "InitializeCheckpointLocks st = st\<lparr>st_locks := CheckpointLocks_Initialize (table_size st)\<rparr>"

definition publish :: "('a, 'c, 'h, 'e, 'k) store \<Rightarrow> ('a, 'c, 'h, 'e, 'k) store option" where
  "publish st = map_option (\<lambda>sys. st\<lparr>st_sys := sys\<rparr>) (GetNextState (st_sys st))"

definition Checkpoint :: "('a, 'c) environment \<Rightarrow> 'k option \<Rightarrow> 'k option \<Rightarrow> nat \<Rightarrow> ('a, 'c, 'h, 'e, 'k) store \<Rightarrow>
    (bool \<times> ('a, 'c, 'h, 'e, 'k) store) option" where
  "Checkpoint en index_cb log_cb token st =
     (let (ok, st) = try_start CheckpointFull st in
      if \<not> ok then Some (False, st)
      else
        let st = reset_phases st;
            v = ss_version (st_sys st); h = st_log st;
            st = upd_checkpoint (InitializeCheckpoint token v (table_size st) (begin_address h) (GetTailAddress h)
                   (\<not> fold_over_snapshot en)
                   (if fold_over_snapshot en then kInvalidAddress else flushed_until_address h) index_cb log_cb) st
        in map_option (Pair True) (publish (InitializeCheckpointLocks st)))"

definition start_CheckpointIndex :: "'k option \<Rightarrow> nat \<Rightarrow> ('a, 'c, 'h, 'e, 'k) store \<Rightarrow> (bool \<times> ('a, 'c, 'h, 'e, 'k) store) option" where
  "start_CheckpointIndex index_cb token st =
     (let (ok, st) = try_start CheckpointIndex st in
      if \<not> ok then Some (False, st)
      else
        let st = reset_phases st;
            h = st_log st;
            st = upd_checkpoint (InitializeIndexCheckpoint token (ss_version (st_sys st)) (table_size st)
                   (begin_address h) (GetTailAddress h) index_cb) st
        in map_option (Pair True) (publish st))"

definition start_CheckpointHybridLog :: "('a, 'c) environment \<Rightarrow> 'k option \<Rightarrow> nat \<Rightarrow> ('a, 'c, 'h, 'e, 'k) store \<Rightarrow>
    (bool \<times> ('a, 'c, 'h, 'e, 'k) store) option" where
  "start_CheckpointHybridLog en log_cb token st =
     (let (ok, st) = try_start CheckpointHybridLog st in
      if \<not> ok then Some (False, st)
      else
        let st = reset_phases st;
            st = st\<lparr>naming_files := (naming_files st)(token \<mapsto>
                     write_naming_file (st_registry st) (parser_states st (system_parser_no st)))\<rparr>;
            st = upd_checkpoint (InitializeHybridLogCheckpoint token (ss_version (st_sys st)) (\<not> fold_over_snapshot en)
                   (if fold_over_snapshot en then kInvalidAddress else flushed_until_address (st_log st)) log_cb) st
        in map_option (Pair True) (publish (InitializeCheckpointLocks st)))"

definition ShiftBeginAddress :: "address \<Rightarrow> 'k option \<Rightarrow> 'k option \<Rightarrow> ('a, 'c, 'h, 'e, 'k) store \<Rightarrow>
    bool \<times> ('a, 'c, 'h, 'e, 'k) store" where
  "ShiftBeginAddress addr truncate_cb complete_cb st =
     (let (ok, st) = try_start GC st in
      if \<not> ok then (False, st)
      else
        let st = st\<lparr>st_epoch := light_epoch.more_update (\<lambda>h. h\<lparr>begin_address := addr\<rparr>) (st_epoch st)\<rparr>;
            st = reset_phases st;
            st = st\<lparr>st_gc := gc_Initialize truncate_cb complete_cb (gc_chunks (table_size st)) (st_gc st)\<rparr>
        in (True, st\<lparr>st_sys := SystemState GC GC_IO_PENDING (ss_version (st_sys st))\<rparr>))"

definition start_GrowIndex :: "('a, 'c) environment \<Rightarrow> nat \<Rightarrow> 'k option \<Rightarrow> ('a, 'c, 'h, 'e, 'k) store \<Rightarrow>
    (bool \<times> ('a, 'c, 'h, 'e, 'k) store) option" where
  "start_GrowIndex en t callback st =
     (let (ok, st) = try_start GrowIndex st in
      if \<not> ok then Some (False, st)
      else
        let st = reset_phases st;
            current_version = st_version st;
            next_version = 1 - current_version;
            num_chunks = max (table_size st div kGrowHashTableChunkSize) 1;
            st = st\<lparr>st_grow := grow_Initialize callback current_version num_chunks (st_grow st)\<rparr>;
            next = st_index st next_version
        in if \<not> (current_version = 0 \<or> current_version = 1) then None
           else case Malloc_Initialize HashBucket (en_act en) (en_del en) t (fm_free (hi_ofb next)) (st_epoch st) of
                  None \<Rightarrow> None
                | Some (m, ep) \<Rightarrow>
                    let next = \<lparr>hi_table = HashTable_Initialize (table_size st * 2) (hi_table next), hi_ofb = m\<rparr>;
                        st = st\<lparr>st_index := (st_index st)(next_version := next), st_epoch := ep,
                                st_sys := SystemState GrowIndex GROW_PREPARE (ss_version (st_sys st))\<rparr>
                    in map_option (Pair True) (Refresh en t st))"

definition ApplyParserShift :: "('a, 'c) environment \<Rightarrow> nat \<Rightarrow> parser_action list \<Rightarrow> 'k \<Rightarrow> ('a, 'c, 'h, 'e, 'k) store \<Rightarrow>
    (address \<times> ('a, 'c, 'h, 'e, 'k) store) option" where
  "ApplyParserShift en t actions callback st =
     (let (ok, st) = try_start ParserShift st in
      if \<not> ok then Some (kInvalidAddress, st)
      else
        let st = reset_phases (st\<lparr>ps_actions := actions, ps_callback := Some callback\<rparr>);
            safe_unregister_address = GetTailAddress (st_log st);
            next_parser_no = 1 - system_parser_no st
        in case ParserStateApplyActions (st_registry st) actions (parser_states st next_parser_no) of
             None \<Rightarrow> None
           | Some s \<Rightarrow>
               let st = st\<lparr>parser_states := (parser_states st)(next_parser_no := s), system_parser_no := next_parser_no,
                           st_sys := SystemState ParserShift PS_PENDING (ss_version (st_sys st))\<rparr>
               in map_option (Pair safe_unregister_address) (Refresh en t st))"

end
