(* ===== verification/Spec2Isabelle.thy ===== *)
theory Spec2Isabelle
  imports Prelude Utils Addresses Hash_Buckets Records System_State Threads Light_Epoch Drain_Slot
    Checkpoint_Locks Async Fixed_Malloc Hash_Table Hash_Index Index_Create Entry_Protocol Epoch_Client
    Hlog Hlog_Invariant Hlog_System Hlog_Flush Hlog_Runs
    Chain_Insert Contexts Chain_Scan
    Ezpsf_Types Ezpsf_Code Ezpsf_Typing Ezpsf_Visitor Psf_Registry Naming_File
    Index_Clean Index_Split Checkpoint_State Store
begin

text \<open>
  This development models the core of FishStore, a storage layer for semi-structured data that
  ingests records into a hybrid log and indexes them on the values of predicated subset
  functions (PSFs) through hash chains in the log.
\<close>

end
